(* ===== verification/Prelude.thy ===== *)
theory Prelude
  imports Main "HOL-Library.Word" "HOL-Library.AList"
begin

text \<open>
  The vocabulary shared by every component theory of the development.

  \<^item> Machine integers of the Rust sources: \<open>u8\<close>, \<open>u16\<close>, \<open>u32\<close> and \<open>u64\<close> are words of that
    width, \<open>checked_succ\<close> is \<open>checked_add(1)\<close>, \<open>saturating_succ\<close> is \<open>saturating_add(1)\<close>.
  \<^item> \<open>common::DbError\<close>, \<open>ErrorKind\<close> and \<open>SqlState\<close> (crates/common/src/error.rs) and the
    \<open>Result\<close> type as a sum, with \<open>and_then\<close> for the \<open>?\<close> operator. Literal message texts are
    kept; an interpolated argument of a \<open>format!\<close> message is left out of the text.
  \<^item> The standard collections: a \<open>HashMap\<close> is an association list in some order (\<open>hm_\<close>
    operations), a \<open>BTreeMap\<close> an association list kept in ascending key order (\<open>bt_\<close>
    operations), a \<open>HashSet\<close> a list without repetition, a \<open>BTreeSet\<close> an ascending list.
    Both maps satisfy the interface \<open>rust_map\<close>, in which the facts about the
    \<open>entry(k).or_default()\<close> idiom are proved once.
  \<^item> Little-endian byte strings of the integers (\<open>to_le_bytes\<close>, \<open>from_le_bytes\<close>).
\<close>

unbundle bit_operations_syntax

named_theorems col_simps \<open>lookups in the modelled collections\<close>
named_theorems le_simps \<open>little-endian byte strings\<close>

section \<open>Machine integers\<close>

type_synonym u8 = "8 word"
type_synonym u16 = "16 word"
type_synonym u32 = "32 word"
type_synonym u64 = "64 word"

definition checked_succ :: "u64 \<Rightarrow> u64 option" where
  "checked_succ x = (if x = - 1 then None else Some (x + 1))"

definition saturating_succ :: "u64 \<Rightarrow> u64" where
  "saturating_succ x = (if x = - 1 then x else x + 1)"

lemma word_less_succ: "x \<noteq> - 1 \<Longrightarrow> x < x + 1" for x :: "'a::len word"
proof -
  assume "x \<noteq> - 1"
  then have "unat (x + 1) = Suc (unat x)"
    by (metis add.commute unatSuc add_eq_0_iff2 word_succ_p1 add.inverse_inverse)
  then show ?thesis by (simp add: word_less_nat_alt)
qed

lemma checked_succ_SomeD: "checked_succ x = Some y \<Longrightarrow> x < y \<and> y = x + 1"
  by (auto simp: checked_succ_def word_less_succ split: if_splits)

lemma saturating_succ_ge: "x \<le> saturating_succ x"
  by (auto simp: saturating_succ_def dest: word_less_succ)

lemma saturating_succ_gr: "y < saturating_succ x \<Longrightarrow> y \<le> x"
proof (cases "x = - 1")
  case False
  assume "y < saturating_succ x"
  with False have "y < x + 1" by (simp add: saturating_succ_def)
  then show "y \<le> x"
    by (metis inc_le linorder_not_less)
qed (simp add: saturating_succ_def)

section \<open>Errors\<close>

datatype error_kind = Parse | Plan | Execute | Storage | Io | Wal
  | DurabilityOutcomeUnknown | Protocol | Internal

datatype sql_state = SuccessfulCompletion | SyntaxError | UndefinedTable | InvalidSchemaName
  | UndefinedColumn | UndefinedObject | InvalidColumnReference | WrongObjectType
  | DuplicateTable | DuplicateSchema | InsufficientPrivilege | InvalidTableDefinition
  | DuplicateCursor | IndeterminateDatatype | DatatypeMismatch | DivisionByZero
  | InvalidParameterValue | NumericValueOutOfRange | StringDataRightTruncation
  | InvalidTextRepresentation | InvalidBinaryRepresentation | BadCopyFileFormat
  | NotNullViolation | UniqueViolation | CheckViolation | ForeignKeyViolation
  | CardinalityViolation | DependentObjectsStillExist | InvalidForeignKey | DuplicateObject
  | ObjectNotInPrerequisiteState | ObjectInUse | LockNotAvailable | InvalidCursorName
  | QueryCanceled | FeatureNotSupported | InFailedSqlTransaction | NoActiveSqlTransaction
  | InvalidSavepointSpecification | ProgramLimitExceeded | SerializationFailure
  | DeadlockDetected | IoError | InternalError

record db_error =
  kind :: error_kind
  code :: sql_state
  message :: string
  detail :: "string option"
  hint :: "string option"

type_synonym 'a result = "db_error + 'a"

definition db_error_new :: "error_kind \<Rightarrow> sql_state \<Rightarrow> string \<Rightarrow> db_error" where
  "db_error_new k c m = \<lparr>kind = k, code = c, message = m, detail = None, hint = None\<rparr>"

definition db_execute :: "sql_state \<Rightarrow> string \<Rightarrow> db_error" where
  "db_execute c m = db_error_new Execute c m"

definition db_storage :: "sql_state \<Rightarrow> string \<Rightarrow> db_error" where
  "db_storage c m = db_error_new Storage c m"

definition db_wal :: "sql_state \<Rightarrow> string \<Rightarrow> db_error" where
  "db_wal c m = db_error_new Wal c m"

definition db_internal :: "string \<Rightarrow> db_error" where
  "db_internal m = db_error_new Internal InternalError m"

definition and_then :: "'e + 'a \<Rightarrow> ('a \<Rightarrow> 'e + 'b) \<Rightarrow> 'e + 'b" where
  "and_then r f = (case r of Inl e \<Rightarrow> Inl e | Inr x \<Rightarrow> f x)"

definition ok_or :: "'e \<Rightarrow> 'a option \<Rightarrow> 'e + 'a" where
  "ok_or e v = (case v of None \<Rightarrow> Inl e | Some x \<Rightarrow> Inr x)"

definition map_err :: "('e \<Rightarrow> 'f) \<Rightarrow> 'e + 'a \<Rightarrow> 'f + 'a" where
  "map_err f r = (case r of Inl e \<Rightarrow> Inl (f e) | Inr x \<Rightarrow> Inr x)"

lemma and_then_simps [simp]:
  "and_then (Inl e) f = Inl e"
  "and_then (Inr x) f = f x"
  by (simp_all add: and_then_def)

lemma and_then_InrD: "and_then r f = Inr y \<Longrightarrow> \<exists>x. r = Inr x \<and> f x = Inr y"
  by (cases r) simp_all

lemma and_then_Inr_iff: "and_then r f = Inr y \<longleftrightarrow> (\<exists>x. r = Inr x \<and> f x = Inr y)"
  by (cases r) simp_all

lemma if_Inl_Inr_iff: "(if b then Inl e else r) = Inr y \<longleftrightarrow> \<not> b \<and> r = Inr y"
  by simp

lemma ok_or_simps [simp]:
  "ok_or e None = Inl e"
  "ok_or e (Some x) = Inr x"
  by (simp_all add: ok_or_def)

lemma ok_or_Inr_iff [simp]: "ok_or e v = Inr x \<longleftrightarrow> v = Some x"
  by (cases v) simp_all

lemma map_err_simps [simp]:
  "map_err f (Inl e) = Inl (f e)"
  "map_err f (Inr x) = Inr x"
  by (simp_all add: map_err_def)

lemma map_err_Inr_iff [simp]: "map_err f r = Inr x \<longleftrightarrow> r = Inr x"
  by (cases r) simp_all

text \<open>A chain of fallible steps succeeds exactly when each of its steps does.\<close>

lemmas chain_iff = and_then_Inr_iff if_Inl_Inr_iff ok_or_Inr_iff map_err_Inr_iff
  split_paired_Ex prod.case Let_def

section \<open>Hash maps and ordered maps\<close>

type_synonym ('k, 'v) hash_map = "('k \<times> 'v) list"
type_synonym ('k, 'v) btree_map = "('k \<times> 'v) list"

abbreviation hm_get :: "('k, 'v) hash_map \<Rightarrow> 'k \<Rightarrow> 'v option" where
  "hm_get m k \<equiv> map_of m k"

abbreviation hm_insert :: "'k \<Rightarrow> 'v \<Rightarrow> ('k, 'v) hash_map \<Rightarrow> ('k, 'v) hash_map" where
  "hm_insert k v m \<equiv> AList.update k v m"

abbreviation hm_remove :: "'k \<Rightarrow> ('k, 'v) hash_map \<Rightarrow> ('k, 'v) hash_map" where
  "hm_remove k m \<equiv> AList.delete k m"

abbreviation hm_keys :: "('k, 'v) hash_map \<Rightarrow> 'k list" where
  "hm_keys m \<equiv> map fst m"

abbreviation hm_values :: "('k, 'v) hash_map \<Rightarrow> 'v list" where
  "hm_values m \<equiv> map snd m"

definition hm_contains :: "('k, 'v) hash_map \<Rightarrow> 'k \<Rightarrow> bool" where
  "hm_contains m k = (map_of m k \<noteq> None)"

definition hm_retain :: "('k \<Rightarrow> 'v \<Rightarrow> bool) \<Rightarrow> ('k, 'v) hash_map \<Rightarrow> ('k, 'v) hash_map" where
  "hm_retain p m = filter (\<lambda>(k, v). p k v) m"

definition hm_map_values :: "('v \<Rightarrow> 'w) \<Rightarrow> ('k, 'v) hash_map \<Rightarrow> ('k, 'w) hash_map" where
  "hm_map_values f m = map (\<lambda>(k, v). (k, f v)) m"

definition map_wf :: "('k \<times> 'v) list \<Rightarrow> bool" where
  "map_wf m = distinct (map fst m)"

fun bt_insert :: "'k::linorder \<Rightarrow> 'v \<Rightarrow> ('k, 'v) btree_map \<Rightarrow> ('k, 'v) btree_map" where
  "bt_insert k v [] = [(k, v)]"
| "bt_insert k v ((j, w) # m) =
     (if k < j then (k, v) # (j, w) # m
      else if k = j then (k, v) # m
      else (j, w) # bt_insert k v m)"

definition bt_wf :: "('k::linorder \<times> 'v) list \<Rightarrow> bool" where
  "bt_wf m = sorted_wrt (<) (map fst m)"

lemma bt_wf_map_wf: "bt_wf m \<Longrightarrow> map_wf m"
  by (simp add: bt_wf_def map_wf_def strict_sorted_iff)

lemma bt_insert_keys: "set (map fst (bt_insert k v m)) = insert k (set (map fst m))"
  by (induction k v m rule: bt_insert.induct) auto

lemma bt_insert_wf [simp]: "bt_wf m \<Longrightarrow> bt_wf (bt_insert k v m)"
proof (induction k v m rule: bt_insert.induct)
  case (2 k v j w m)
  have keys: "fst ` set (bt_insert k v m) = insert k (fst ` set m)"
    using bt_insert_keys [of k v m] by simp
  show ?case
  proof (cases "k < j \<or> k = j")
    case True
    with "2.prems" show ?thesis by (auto simp: bt_wf_def)
  next
    case False
    with "2.prems" "2.IH" show ?thesis by (auto simp: bt_wf_def keys)
  qed
qed (simp add: bt_wf_def)

lemma sorted_wrt_filter_map_fst:
  "sorted_wrt R (map fst m) \<Longrightarrow> sorted_wrt R (map fst (filter p m))"
  by (induction m) auto

lemma bt_delete_wf [simp]: "bt_wf m \<Longrightarrow> bt_wf (AList.delete k m)"
  by (simp add: bt_wf_def AList.delete_eq sorted_wrt_filter_map_fst)

lemma bt_retain_wf [simp]: "bt_wf m \<Longrightarrow> bt_wf (hm_retain p m)"
  by (simp add: bt_wf_def hm_retain_def sorted_wrt_filter_map_fst)

lemma keys_map_values [simp]: "map fst (hm_map_values f m) = map fst m"
  by (induction m) (auto simp: hm_map_values_def)

lemma bt_map_values_wf [simp]: "bt_wf (hm_map_values f m) = bt_wf m"
  by (simp add: bt_wf_def)

lemma map_wf_insert [simp]: "map_wf m \<Longrightarrow> map_wf (AList.update k v m)"
  by (simp add: map_wf_def distinct_update)

lemma map_wf_remove [simp]: "map_wf m \<Longrightarrow> map_wf (AList.delete k m)"
  by (simp add: map_wf_def distinct_delete)

lemma map_wf_retain [simp]: "map_wf m \<Longrightarrow> map_wf (hm_retain p m)"
  by (auto simp: map_wf_def hm_retain_def distinct_map_filter)

lemma map_wf_map_values [simp]: "map_wf (hm_map_values f m) = map_wf m"
  by (simp add: map_wf_def)

lemma map_wf_Nil [simp]: "map_wf []" "bt_wf []"
  by (simp_all add: map_wf_def bt_wf_def)

lemma get_bt_insert [col_simps]:
  "map_of (bt_insert k v m) j = (if j = k then Some v else map_of m j)"
  by (induction k v m rule: bt_insert.induct) auto

lemma get_hm_insert [col_simps]:
  "map_of (AList.update k v m) j = (if j = k then Some v else map_of m j)"
  by (simp add: update_conv)

lemma get_remove [col_simps]:
  "map_of (AList.delete k m) j = (if j = k then None else map_of m j)"
  by (simp add: delete_conv)

lemma get_map_values [col_simps]: "map_of (hm_map_values f m) j = map_option f (map_of m j)"
  by (induction m) (auto simp: hm_map_values_def)

lemma get_retain [col_simps]:
  assumes "map_wf m"
  shows "map_of (hm_retain p m) j =
    (case map_of m j of None \<Rightarrow> None | Some v \<Rightarrow> if p j v then Some v else None)"
  using assms
proof (induction m)
  case (Cons kv m)
  obtain k v where kv: "kv = (k, v)" by (cases kv)
  from Cons.prems kv have "map_of m k = None" "map_wf m"
    by (auto simp: map_wf_def map_of_eq_None_iff)
  with Cons.IH kv show ?case by (auto simp: hm_retain_def split: option.splits)
qed (simp add: hm_retain_def)

lemma get_retain_key [col_simps]:
  "map_of (hm_retain (\<lambda>k v. p k) m) j = (if p j then map_of m j else None)"
  by (induction m) (auto simp: hm_retain_def)

lemma get_entries: "map_wf m \<Longrightarrow> (k, v) \<in> set m \<longleftrightarrow> map_of m k = Some v"
  by (simp add: map_wf_def)

lemma get_keys: "k \<in> set (map fst m) \<longleftrightarrow> map_of m k \<noteq> None"
  by (metis map_of_eq_None_iff list.set_map)

lemma contains_simps [col_simps]:
  "hm_contains (AList.update k v m) j = (j = k \<or> hm_contains m j)"
  "hm_contains (AList.delete k m) j = (j \<noteq> k \<and> hm_contains m j)"
  "hm_contains (bt_insert k' v' m') j' = (j' = k' \<or> hm_contains m' j')"
  by (auto simp: hm_contains_def col_simps)

text \<open>
  Two idioms of the sources. \<open>upsert d k f\<close> is \<open>f\<close> applied to \<open>entry(k).or_default()\<close>, with
  \<open>d\<close> the default; \<open>shrink d k f\<close> applies \<open>f\<close> to a present value and removes the key when
  the result is the empty value \<open>d\<close>.
\<close>

definition get_default :: "'v \<Rightarrow> ('k \<times> 'v) list \<Rightarrow> 'k \<Rightarrow> 'v" where
  "get_default d m k = (case map_of m k of None \<Rightarrow> d | Some v \<Rightarrow> v)"

definition hm_upsert :: "'v \<Rightarrow> 'k \<Rightarrow> ('v \<Rightarrow> 'v) \<Rightarrow> ('k, 'v) hash_map \<Rightarrow> ('k, 'v) hash_map" where
  "hm_upsert d k f m = hm_insert k (f (get_default d m k)) m"

definition hm_shrink :: "'v \<Rightarrow> 'k \<Rightarrow> ('v \<Rightarrow> 'v) \<Rightarrow> ('k, 'v) hash_map \<Rightarrow> ('k, 'v) hash_map" where
  "hm_shrink d k f m = (case map_of m k of None \<Rightarrow> m
     | Some v \<Rightarrow> if f v = d then hm_remove k m else hm_insert k (f v) m)"

definition bt_upsert :: "'v \<Rightarrow> 'k::linorder \<Rightarrow> ('v \<Rightarrow> 'v) \<Rightarrow> ('k, 'v) btree_map \<Rightarrow> ('k, 'v) btree_map" where
  "bt_upsert d k f m = bt_insert k (f (get_default d m k)) m"

definition bt_shrink :: "'v \<Rightarrow> 'k::linorder \<Rightarrow> ('v \<Rightarrow> 'v) \<Rightarrow> ('k, 'v) btree_map \<Rightarrow> ('k, 'v) btree_map" where
  "bt_shrink d k f m = (case map_of m k of None \<Rightarrow> m
     | Some v \<Rightarrow> if f v = d then hm_remove k m else bt_insert k (f v) m)"

subsection \<open>The map interface\<close>

text \<open>
  What the components rely on of either map: lookups after an insertion and a removal, and
  how the two idioms are built from them.
\<close>

locale rust_map =
  fixes get :: "'m \<Rightarrow> 'k \<Rightarrow> 'v option"
    and insert_kv :: "'k \<Rightarrow> 'v \<Rightarrow> 'm \<Rightarrow> 'm"
    and remove_k :: "'k \<Rightarrow> 'm \<Rightarrow> 'm"
    and default_get :: "'v \<Rightarrow> 'm \<Rightarrow> 'k \<Rightarrow> 'v"
    and upsert :: "'v \<Rightarrow> 'k \<Rightarrow> ('v \<Rightarrow> 'v) \<Rightarrow> 'm \<Rightarrow> 'm"
    and shrink :: "'v \<Rightarrow> 'k \<Rightarrow> ('v \<Rightarrow> 'v) \<Rightarrow> 'm \<Rightarrow> 'm"
  assumes get_insert_kv: "get (insert_kv k v m) j = (if j = k then Some v else get m j)"
    and get_remove_k: "get (remove_k k m) j = (if j = k then None else get m j)"
    and default_get_eq: "default_get d m k = (case get m k of None \<Rightarrow> d | Some v \<Rightarrow> v)"
    and upsert_eq: "upsert d k f m = insert_kv k (f (default_get d m k)) m"
    and shrink_eq: "shrink d k f m = (case get m k of None \<Rightarrow> m
      | Some v \<Rightarrow> if f v = d then remove_k k m else insert_kv k (f v) m)"
begin

lemma default_get_upsert:
  "default_get d (upsert d k f m) j = (if j = k then f (default_get d m k) else default_get d m j)"
  by (simp add: upsert_eq default_get_eq get_insert_kv)

lemma default_get_shrink:
  assumes "f d = d"
  shows "default_get d (shrink d k f m) j =
    (if j = k then f (default_get d m k) else default_get d m j)"
  using assms
  by (auto simp: shrink_eq default_get_eq get_insert_kv get_remove_k split: option.splits)

lemma get_upsert:
  "get (upsert d k f m) j = (if j = k then Some (f (default_get d m k)) else get m j)"
  by (simp add: upsert_eq get_insert_kv)

lemma get_shrink_other: "j \<noteq> k \<Longrightarrow> get (shrink d k f m) j = get m j"
  by (auto simp: shrink_eq get_insert_kv get_remove_k split: option.splits)

lemma shrink_no_default:
  assumes "\<And>i. get m i \<noteq> Some d"
  shows "get (shrink d k f m) j \<noteq> Some d"
  using assms by (auto simp: shrink_eq get_insert_kv get_remove_k split: option.splits)

lemma upsert_no_default:
  assumes "\<And>i. get m i \<noteq> Some d" and "\<And>v. f v \<noteq> d"
  shows "get (upsert d k f m) j \<noteq> Some d"
  using assms by (simp add: upsert_eq get_insert_kv)

end

interpretation hm: rust_map map_of AList.update AList.delete get_default hm_upsert hm_shrink
  by unfold_locales (simp_all add: col_simps get_default_def hm_upsert_def hm_shrink_def)

interpretation bt: rust_map map_of bt_insert AList.delete get_default bt_upsert bt_shrink
  by unfold_locales (simp_all add: col_simps get_default_def bt_upsert_def bt_shrink_def)

lemma shrink_wf [simp]: "map_wf m \<Longrightarrow> map_wf (hm_shrink d k f m)"
  by (auto simp: hm_shrink_def split: option.splits)

lemma upsert_wf [simp]: "map_wf m \<Longrightarrow> map_wf (hm_upsert d k f m)"
  by (simp add: hm_upsert_def)

lemma bt_shrink_wf [simp]: "bt_wf m \<Longrightarrow> bt_wf (bt_shrink d k f m)"
  by (auto simp: bt_shrink_def split: option.splits)

lemma bt_upsert_wf [simp]: "bt_wf m \<Longrightarrow> bt_wf (bt_upsert d k f m)"
  by (simp add: bt_upsert_def)

section \<open>Minimum and maximum of an iterator\<close>

definition iter_min :: "'a::linorder list \<Rightarrow> 'a option" where
  "iter_min xs = (case xs of [] \<Rightarrow> None | y # ys \<Rightarrow> Some (fold min ys y))"

definition iter_max :: "'a::linorder list \<Rightarrow> 'a option" where
  "iter_max xs = (case xs of [] \<Rightarrow> None | y # ys \<Rightarrow> Some (fold max ys y))"

primrec opt_list :: "'a option \<Rightarrow> 'a list" where
  "opt_list None = []"
| "opt_list (Some x) = [x]"

lemma set_opt_list [simp]: "x \<in> set (opt_list v) \<longleftrightarrow> v = Some x"
  by (cases v) auto

lemma iter_min_None [simp]: "iter_min xs = None \<longleftrightarrow> xs = []"
  by (simp add: iter_min_def split: list.splits)

lemma iter_max_None [simp]: "iter_max xs = None \<longleftrightarrow> xs = []"
  by (simp add: iter_max_def split: list.splits)

lemma iter_minD: "iter_min xs = Some m \<Longrightarrow> m \<in> set xs \<and> (\<forall>x \<in> set xs. m \<le> x)"
  using Min_in [of "set xs"] Min_le [of "set xs"]
  by (cases xs) (auto simp: iter_min_def simp flip: Min.set_eq_fold)

lemma iter_min_le: "v \<in> set xs \<Longrightarrow> \<exists>m. iter_min xs = Some m \<and> m \<le> v"
  by (cases "iter_min xs") (auto dest: iter_minD)

lemma iter_maxD: "iter_max xs = Some m \<Longrightarrow> m \<in> set xs \<and> (\<forall>x \<in> set xs. x \<le> m)"
  using Max_in [of "set xs"] Max_ge [of "set xs"]
  by (cases xs) (auto simp: iter_max_def simp flip: Max.set_eq_fold)

lemma in_map_filter_iff: "y \<in> set (List.map_filter f xs) \<longleftrightarrow> (\<exists>x \<in> set xs. f x = Some y)"
  by (induction xs) (auto simp: List.map_filter_simps split: option.splits)

section \<open>Little-endian byte strings\<close>

definition to_le :: "nat \<Rightarrow> 'a::len word \<Rightarrow> u8 list" where
  "to_le n w = map (\<lambda>i. ucast (drop_bit (8 * i) w)) [0..<n]"

primrec from_le :: "u8 list \<Rightarrow> 'a::len word" where
  "from_le [] = 0"
| "from_le (b # bs) = (ucast b OR push_bit 8 (from_le bs))"

abbreviation u16_le :: "u16 \<Rightarrow> u8 list" where "u16_le \<equiv> to_le 2"
abbreviation u32_le :: "u32 \<Rightarrow> u8 list" where "u32_le \<equiv> to_le 4"
abbreviation u64_le :: "u64 \<Rightarrow> u8 list" where "u64_le \<equiv> to_le 8"

lemma length_to_le [simp]: "length (to_le n w) = n"
  by (simp add: to_le_def)

lemma bit_from_le:
  "bit (from_le bs :: 'a::len word) i \<longleftrightarrow>
     i < LENGTH('a) \<and> i div 8 < length bs \<and> bit (bs ! (i div 8)) (i mod 8)"
proof (induction bs arbitrary: i)
  case (Cons b bs)
  show ?case
  proof (cases "i < 8")
    case True
    then show ?thesis by (auto simp: bit_or_iff bit_push_bit_iff bit_ucast_iff)
  next
    case False
    then have "i div 8 = Suc ((i - 8) div 8)" "i mod 8 = (i - 8) mod 8"
      by (simp_all add: le_div_geq le_mod_geq)
    moreover have "\<not> bit b i"
      using False bit_imp_le_length [of b i] by auto
    ultimately show ?thesis using False
      by (auto simp: bit_or_iff bit_push_bit_iff bit_ucast_iff Cons.IH)
  qed
qed simp

lemma from_to_le:
  assumes "LENGTH('a::len) = 8 * n"
  shows "from_le (to_le n w) = (w :: 'a word)"
proof (rule bit_word_eqI)
  fix i assume i: "i < LENGTH('a)"
  with assms have "i div 8 < n" by simp
  with i show "bit (from_le (to_le n w) :: 'a word) i = bit w i"
    by (simp add: bit_from_le to_le_def bit_ucast_iff bit_drop_bit_eq)
qed

lemma to_from_le:
  assumes "LENGTH('a::len) = 8 * n" and "length bs = n"
  shows "to_le n (from_le bs :: 'a word) = bs"
proof (rule nth_equalityI)
  fix i assume "i < length (to_le n (from_le bs :: 'a word))"
  then have i: "i < n" by simp
  show "to_le n (from_le bs :: 'a word) ! i = bs ! i"
  proof (rule bit_word_eqI)
    fix j assume j: "j < LENGTH(8)"
    then have "(8 * i + j) div 8 = i" "(8 * i + j) mod 8 = j" by simp_all
    moreover from i j assms have "8 * i + j < LENGTH('a)" by simp
    ultimately show "bit (to_le n (from_le bs :: 'a word) ! i) j = bit (bs ! i) j"
      using i j assms by (simp add: to_le_def bit_ucast_iff bit_drop_bit_eq bit_from_le)
  qed
qed (use assms in simp)

lemma from_u16_le [simp, le_simps]: "from_le (u16_le w) = w"
  by (rule from_to_le) simp

lemma from_u32_le [simp, le_simps]: "from_le (u32_le w) = w"
  by (rule from_to_le) simp

lemma from_u64_le [simp, le_simps]: "from_le (u64_le w) = w"
  by (rule from_to_le) simp

end
