(* ===== verification/Mvcc.thy ===== *)
theory Mvcc
  imports Prelude
begin

text \<open>
  Tuple visibility, conflict classification and reclaimability: crates/common/src/mvcc/
  (mod.rs, visibility.rs, conflict.rs, reclaim.rs) and the transaction-id constants of
  crates/common/src/ids.rs. Every predicate is pure; the trait object
  \<open>&dyn TxnStatusView\<close> is a function from transaction ids to statuses, and the contract the
  trait documents is the locale \<open>txn_status_view\<close>.
\<close>

section \<open>Transaction ids, statuses and snapshots\<close>

type_synonym txn_id = u64

definition INVALID_XID :: txn_id where "INVALID_XID = 0"
definition FROZEN_XID :: txn_id where "FROZEN_XID = 2"
definition FIRST_NORMAL_XID :: txn_id where "FIRST_NORMAL_XID = 3"

lemmas xid_defs = INVALID_XID_def FROZEN_XID_def FIRST_NORMAL_XID_def

datatype txn_status = InProgress | Committed | Aborted

datatype isolation_level = ReadCommitted | RepeatableRead | Serializable

record snapshot =
  snap_xmin :: txn_id
  snap_xmax :: txn_id
  snap_xip :: "txn_id list"

definition snapshot_empty :: snapshot where
  "snapshot_empty = \<lparr>snap_xmin = 0, snap_xmax = 0, snap_xip = []\<rparr>"

definition sees_all_committed :: snapshot where
  "sees_all_committed = \<lparr>snap_xmin = - 1, snap_xmax = - 1, snap_xip = []\<rparr>"

type_synonym status_view = "txn_id \<Rightarrow> txn_status"

definition view_is_committed :: "status_view \<Rightarrow> txn_id \<Rightarrow> bool" where
  "view_is_committed st x = (st x = Committed)"

definition view_is_aborted :: "status_view \<Rightarrow> txn_id \<Rightarrow> bool" where
  "view_is_aborted st x = (st x = Aborted)"

section \<open>Visibility\<close>

definition XMIN_COMMITTED :: u16 where "XMIN_COMMITTED = push_bit 0 1"
definition XMIN_ABORTED :: u16 where "XMIN_ABORTED = push_bit 1 1"
definition XMAX_COMMITTED :: u16 where "XMAX_COMMITTED = push_bit 2 1"
definition XMAX_ABORTED :: u16 where "XMAX_ABORTED = push_bit 3 1"

lemmas hint_defs = XMIN_COMMITTED_def XMIN_ABORTED_def XMAX_COMMITTED_def XMAX_ABORTED_def

definition txn_effect_visible ::
  "txn_id \<Rightarrow> snapshot \<Rightarrow> txn_id list \<Rightarrow> status_view \<Rightarrow> bool \<Rightarrow> bool \<Rightarrow> bool" where
  "txn_effect_visible xid s current_txns st committed_hint aborted_hint =
     (if xid \<in> set current_txns then True
      else if xid \<ge> snap_xmax s then False
      else if xid \<in> set (snap_xip s) then False
      else if committed_hint then True
      else if aborted_hint then False
      else st xid = Committed)"

definition is_visible ::
  "txn_id \<Rightarrow> txn_id \<Rightarrow> u16 \<Rightarrow> snapshot \<Rightarrow> txn_id list \<Rightarrow> status_view \<Rightarrow> bool" where
  "is_visible xmin xmax infomask s current_txns st =
     (if \<not> txn_effect_visible xmin s current_txns st
           (infomask AND XMIN_COMMITTED \<noteq> 0) (infomask AND XMIN_ABORTED \<noteq> 0)
      then False
      else if xmax = INVALID_XID then True
      else \<not> txn_effect_visible xmax s current_txns st
           (infomask AND XMAX_COMMITTED \<noteq> 0) (infomask AND XMAX_ABORTED \<noteq> 0))"

section \<open>Conflict classification\<close>

datatype unique_conflict = UC_None | UC_Violation | UC_WouldBlock txn_id

definition classify_unique_conflict ::
  "txn_id \<Rightarrow> txn_id \<Rightarrow> u16 \<Rightarrow> txn_id list \<Rightarrow> status_view \<Rightarrow> unique_conflict" where
  "classify_unique_conflict xmin xmax infomask current_txns st =
     (let creator =
        (if xmin \<in> set current_txns \<or> infomask AND XMIN_COMMITTED \<noteq> 0 then Committed
         else if infomask AND XMIN_ABORTED \<noteq> 0 then Aborted
         else st xmin)
      in if creator = Aborted then UC_None
         else if xmax \<noteq> INVALID_XID \<and>
                 (xmax \<in> set current_txns \<or> infomask AND XMAX_COMMITTED \<noteq> 0 \<or> st xmax = Committed)
         then UC_None
         else if creator = Committed then UC_Violation
         else UC_WouldBlock xmin)"

definition version_conflicts ::
  "txn_id \<Rightarrow> txn_id \<Rightarrow> u16 \<Rightarrow> txn_id list \<Rightarrow> status_view \<Rightarrow> bool" where
  "version_conflicts xmin xmax infomask current_txns st =
     (classify_unique_conflict xmin xmax infomask current_txns st \<noteq> UC_None)"

datatype write_conflict_outcome = WC_Proceed | WC_Conflict | WC_WouldBlock txn_id

definition write_conflict ::
  "txn_id \<Rightarrow> u16 \<Rightarrow> txn_id list \<Rightarrow> status_view \<Rightarrow> write_conflict_outcome" where
  "write_conflict xmax infomask current_txns st =
     (if xmax = INVALID_XID then WC_Proceed
      else if xmax \<in> set current_txns then WC_Proceed
      else if infomask AND XMAX_ABORTED \<noteq> 0 then WC_Proceed
      else if infomask AND XMAX_COMMITTED \<noteq> 0 then WC_Conflict
      else case st xmax of
             Aborted \<Rightarrow> WC_Proceed
           | Committed \<Rightarrow> WC_Conflict
           | InProgress \<Rightarrow> WC_WouldBlock xmax)"

section \<open>Reclaimability\<close>

definition is_dead_to_all :: "txn_id \<Rightarrow> txn_id \<Rightarrow> u16 \<Rightarrow> txn_id \<Rightarrow> status_view \<Rightarrow> bool" where
  "is_dead_to_all xmin xmax infomask horizon st =
     (if infomask AND XMIN_ABORTED \<noteq> 0 then True
      else if xmax \<noteq> INVALID_XID \<and> xmax < horizon \<and>
              (infomask AND XMAX_COMMITTED \<noteq> 0 \<or> st xmax = Committed) then True
      else st xmin = Aborted)"

section \<open>Hints, well-formed snapshots and status histories\<close>

text \<open>
  The hint bits cache settled statuses: \<open>hints_ok\<close> is the agreement between a tuple header
  and the status view that the writers of the hints maintain. A snapshot is well formed when
  its in-progress list lies in \<open>[xmin, xmax)\<close>. \<open>status_ext\<close> relates a view to a later one: a
  settled transaction keeps its status.
\<close>

definition hints_ok :: "txn_id \<Rightarrow> txn_id \<Rightarrow> u16 \<Rightarrow> status_view \<Rightarrow> bool" where
  "hints_ok xmin xmax im st \<longleftrightarrow>
     (im AND XMIN_COMMITTED \<noteq> 0 \<longrightarrow> st xmin = Committed) \<and>
     (im AND XMIN_ABORTED \<noteq> 0 \<longrightarrow> st xmin = Aborted) \<and>
     (im AND XMAX_COMMITTED \<noteq> 0 \<longrightarrow> st xmax = Committed) \<and>
     (im AND XMAX_ABORTED \<noteq> 0 \<longrightarrow> st xmax = Aborted)"

definition snapshot_wf :: "snapshot \<Rightarrow> bool" where
  "snapshot_wf s \<longleftrightarrow> snap_xmin s \<le> snap_xmax s \<and>
     (\<forall>x \<in> set (snap_xip s). snap_xmin s \<le> x \<and> x < snap_xmax s)"

definition status_ext :: "status_view \<Rightarrow> status_view \<Rightarrow> bool" where
  "status_ext st st' \<longleftrightarrow> (\<forall>x. st x \<noteq> InProgress \<longrightarrow> st' x = st x)"

text \<open>The status a snapshot assigns to a transaction, with no hints involved.\<close>

definition effective :: "snapshot \<Rightarrow> txn_id list \<Rightarrow> status_view \<Rightarrow> txn_id \<Rightarrow> bool" where
  "effective s cur st x \<longleftrightarrow>
     x \<in> set cur \<or> (x < snap_xmax s \<and> x \<notin> set (snap_xip s) \<and> st x = Committed)"

lemma txn_effect_visible_hints:
  assumes "ch \<longrightarrow> st x = Committed" and "ah \<longrightarrow> st x = Aborted"
  shows "txn_effect_visible x s cur st ch ah \<longleftrightarrow> effective s cur st x"
  using assms by (auto simp: txn_effect_visible_def effective_def)

lemma is_visible_eq:
  assumes "hints_ok xmin xmax im st"
  shows "is_visible xmin xmax im s cur st \<longleftrightarrow>
    effective s cur st xmin \<and> (xmax = INVALID_XID \<or> \<not> effective s cur st xmax)"
  using assms by (simp add: is_visible_def hints_ok_def txn_effect_visible_hints)

lemma hints_ok_none [simp]: "hints_ok xmin xmax 0 st"
  by (simp add: hints_ok_def)

lemma hints_ok_ext: "hints_ok xmin xmax im st \<Longrightarrow> status_ext st st' \<Longrightarrow> hints_ok xmin xmax im st'"
  by (simp add: hints_ok_def status_ext_def)

lemma status_ext_refl [simp]: "status_ext st st"
  by (simp add: status_ext_def)

lemma status_ext_trans: "status_ext a b \<Longrightarrow> status_ext b c \<Longrightarrow> status_ext a c"
  by (simp add: status_ext_def)

lemma effective_below_xmin:
  assumes "snapshot_wf s" and "x < snap_xmin s" and "st x = Committed"
  shows "effective s cur st x"
  using assms by (force simp: effective_def snapshot_wf_def)

lemma is_dead_to_all_eq:
  assumes "hints_ok xmin xmax im st"
  shows "is_dead_to_all xmin xmax im h st \<longleftrightarrow>
    st xmin = Aborted \<or> (xmax \<noteq> INVALID_XID \<and> xmax < h \<and> st xmax = Committed)"
  using assms by (auto simp: is_dead_to_all_def hints_ok_def)

lemma classify_unique_conflict_eq:
  assumes "hints_ok xmin xmax im st"
  shows "classify_unique_conflict xmin xmax im cur st =
    (if xmin \<notin> set cur \<and> st xmin = Aborted then UC_None
     else if xmax \<noteq> INVALID_XID \<and> (xmax \<in> set cur \<or> st xmax = Committed) then UC_None
     else if xmin \<in> set cur \<or> st xmin = Committed then UC_Violation
     else UC_WouldBlock xmin)"
  using assms by (auto simp: classify_unique_conflict_def hints_ok_def Let_def)

lemma write_conflict_eq:
  assumes "hints_ok xmin xmax im st"
  shows "write_conflict xmax im cur st =
    (if xmax = INVALID_XID \<or> xmax \<in> set cur \<or> st xmax = Aborted then WC_Proceed
     else if st xmax = Committed then WC_Conflict else WC_WouldBlock xmax)"
  using assms by (auto simp: write_conflict_def hints_ok_def split: txn_status.splits)

text \<open>The status contract of the trait, with the facts that follow from it alone.\<close>

locale txn_status_view =
  fixes status :: status_view
  assumes reserved_committed: "x < FIRST_NORMAL_XID \<Longrightarrow> status x = Committed"
begin

lemma frozen_committed: "status FROZEN_XID = Committed"
  by (rule reserved_committed) (simp add: xid_defs)

lemma frozen_live_visible:
  assumes "FROZEN_XID < snap_xmax s" and "FROZEN_XID \<notin> set (snap_xip s)"
    and "hints_ok FROZEN_XID INVALID_XID im status"
  shows "is_visible FROZEN_XID INVALID_XID im s cur status"
  using assms by (simp add: is_visible_eq effective_def frozen_committed)

lemma frozen_live_never_dead:
  assumes "hints_ok FROZEN_XID INVALID_XID im status"
  shows "\<not> is_dead_to_all FROZEN_XID INVALID_XID im h status"
  using assms by (simp add: is_dead_to_all_eq frozen_committed)

lemma reserved_deleter_conflicts:
  assumes "xmax < FIRST_NORMAL_XID" and "xmax \<noteq> INVALID_XID" and "xmax \<notin> set cur"
    and "hints_ok xmin xmax im status"
  shows "write_conflict xmax im cur status = WC_Conflict"
  using assms reserved_committed [OF assms(1)] by (simp add: write_conflict_eq)

end

section \<open>Properties\<close>

text \<open>
  C12: a version VACUUM classifies as dead to all at a horizon is invisible to every
  well-formed snapshot whose \<open>xmin\<close> is at or above that horizon, now and under every later
  status view, provided the reader is not itself the version's aborted creator.
\<close>

theorem dead_to_all_invisible:
  assumes hints: "hints_ok xmin xmax im st"
    and dead: "is_dead_to_all xmin xmax im horizon st"
    and snap: "snapshot_wf s" "horizon \<le> snap_xmin s"
    and later: "status_ext st st'"
    and own: "xmin \<notin> set cur"
  shows "\<not> is_visible xmin xmax im s cur st'"
proof -
  have hints': "hints_ok xmin xmax im st'" using hints later by (rule hints_ok_ext)
  from dead hints have "st xmin = Aborted \<or> xmax \<noteq> INVALID_XID \<and> xmax < horizon \<and> st xmax = Committed"
    by (simp add: is_dead_to_all_eq)
  then show ?thesis
  proof
    assume "st xmin = Aborted"
    with later own show ?thesis by (simp add: is_visible_eq [OF hints'] effective_def status_ext_def)
  next
    assume del: "xmax \<noteq> INVALID_XID \<and> xmax < horizon \<and> st xmax = Committed"
    with later have "st' xmax = Committed" by (simp add: status_ext_def)
    with del snap have "effective s cur st' xmax" by (auto intro: effective_below_xmin)
    with del show ?thesis by (simp add: is_visible_eq [OF hints'])
  qed
qed

theorem dead_to_all_invisible_witness:
  "\<not> is_visible 5 7 0 \<lparr>snap_xmin = 9, snap_xmax = 12, snap_xip = [9, 10]\<rparr> [10]
       (\<lambda>x. if x = 9 then Aborted else if x < 9 then Committed else InProgress)"
  by (rule dead_to_all_invisible [where horizon = 8 and
        st = "\<lambda>x. if x < 9 then Committed else InProgress"])
     (simp_all add: is_dead_to_all_def snapshot_wf_def status_ext_def xid_defs)

text \<open>
  C13: a snapshot is repeatable. When the creator and the deleter of a version, where still
  in progress, lie in the snapshot's future, in its in-progress list, or in the reader's own
  family, no later commit or abort changes whether the snapshot sees the version.
\<close>

theorem snapshot_repeatable:
  assumes "hints_ok xmin xmax im st" and "status_ext st st'"
    and "\<And>x. x \<in> {xmin, xmax} \<Longrightarrow> st x = InProgress \<Longrightarrow>
      snap_xmax s \<le> x \<or> x \<in> set (snap_xip s) \<or> x \<in> set cur"
  shows "is_visible xmin xmax im s cur st' = is_visible xmin xmax im s cur st"
proof -
  have "effective s cur st' x = effective s cur st x" if "x \<in> {xmin, xmax}" for x
    using assms(2) assms(3) [OF that]
    by (cases "st x") (auto simp: effective_def status_ext_def)
  with assms(1) hints_ok_ext [OF assms(1,2)] show ?thesis
    by (simp add: is_visible_eq)
qed

theorem snapshot_repeatable_witness:
  "is_visible 5 6 0 \<lparr>snap_xmin = 6, snap_xmax = 9, snap_xip = [6]\<rparr> []
      (\<lambda>x. if x < 6 then Committed else if x = 6 \<or> x = 11 then Committed
           else if x = 7 \<or> x = 8 then Aborted else InProgress) =
   is_visible 5 6 0 \<lparr>snap_xmin = 6, snap_xmax = 9, snap_xip = [6]\<rparr> []
      (\<lambda>x. if x < 6 then Committed else if x = 7 \<or> x = 8 then Aborted else InProgress)"
  by (rule snapshot_repeatable) (auto simp: status_ext_def)

text \<open>
  C14: the uniqueness classifier decides the latest committed state. A version is a definite
  duplicate exactly when it is visible to the snapshot that sees every committed transaction
  (for ids below the sentinel \<open>u64::MAX\<close>), it conflicts whenever it is visible to any
  snapshot with no deleter stamped, and the classifier blocks only on the creator, while that
  creator is another transaction in progress.
\<close>

theorem unique_conflict_decides_latest:
  assumes "hints_ok xmin xmax im st" and "xmin \<noteq> - 1" and "xmax \<noteq> - 1"
  shows "(classify_unique_conflict xmin xmax im cur st = UC_Violation \<longleftrightarrow>
            is_visible xmin xmax im sees_all_committed cur st)
    \<and> (is_visible xmin INVALID_XID 0 s cur st \<longrightarrow> version_conflicts xmin INVALID_XID 0 cur st)
    \<and> (classify_unique_conflict xmin xmax im cur st = UC_WouldBlock b \<longrightarrow>
            b = xmin \<and> xmin \<notin> set cur \<and> st xmin = InProgress)"
proof -
  have all: "effective sees_all_committed cur st x \<longleftrightarrow> x \<in> set cur \<or> st x = Committed"
    if "x \<noteq> - 1" for x
    using that word_order.not_eq_extremum [of x]
    by (auto simp: effective_def sees_all_committed_def)
  show ?thesis
    using assms all [OF assms(2)] all [OF assms(3)]
    by (cases "st xmin") (auto simp: classify_unique_conflict_eq is_visible_eq version_conflicts_def
        effective_def [of s])
qed

theorem unique_conflict_decides_latest_witness:
  "classify_unique_conflict 5 7 0 [] (\<lambda>x. if x < 6 then Committed else InProgress) = UC_Violation
   \<and> is_visible 5 7 0 sees_all_committed [] (\<lambda>x. if x < 6 then Committed else InProgress)"
  using unique_conflict_decides_latest
    [of 5 7 0 "\<lambda>x. if x < 6 then Committed else InProgress" "[]" snapshot_empty 0]
  by (simp add: classify_unique_conflict_def xid_defs)

text \<open>
  C15: first updater wins. On a version that the writer's snapshot sees, the write-conflict
  check proceeds only if nobody else's delete can take effect, reports a conflict only for a
  deleter that committed after the snapshot was captured, and otherwise blocks on exactly the
  in-progress deleter.
\<close>

theorem write_conflict_first_updater_wins:
  assumes "hints_ok xmin xmax im st" and "is_visible xmin xmax im s cur st"
  shows "(write_conflict xmax im cur st = WC_Proceed \<longleftrightarrow> xmax = INVALID_XID \<or> st xmax = Aborted)
    \<and> (write_conflict xmax im cur st = WC_Conflict \<longrightarrow>
         st xmax = Committed \<and> (snap_xmax s \<le> xmax \<or> xmax \<in> set (snap_xip s)))
    \<and> (write_conflict xmax im cur st = WC_WouldBlock b \<longrightarrow> b = xmax \<and> st xmax = InProgress)"
  using assms by (cases "st xmax")
    (auto simp: write_conflict_eq is_visible_eq effective_def not_less split: if_splits)

theorem write_conflict_first_updater_wins_witness:
  "is_visible 5 8 0 \<lparr>snap_xmin = 7, snap_xmax = 8, snap_xip = [7]\<rparr> [7]
      (\<lambda>x. if x < 7 \<or> x = 8 then Committed else InProgress)
   \<and> write_conflict 8 0 [7] (\<lambda>x. if x < 7 \<or> x = 8 then Committed else InProgress) = WC_Conflict
   \<and> snap_xmax \<lparr>snap_xmin = 7, snap_xmax = 8, snap_xip = [7]\<rparr> \<le> 8"
  using write_conflict_first_updater_wins
    [of 5 8 0 "\<lambda>x. if x < 7 \<or> x = 8 then Committed else InProgress"
        "\<lparr>snap_xmin = 7, snap_xmax = 8, snap_xip = [7]\<rparr>" "[7]" 0]
  by (simp add: is_visible_def txn_effect_visible_def write_conflict_def xid_defs)

end
