(* ===== verification/Clog.thy ===== *)
theory Clog
  imports Mvcc
begin

text \<open>
  The in-memory transaction-status map: crates/wal/src/clog.rs. \<open>Clog\<close> is the record
  \<open>clog\<close>, its \<open>HashMap\<close> an association list in any order; \<open>ClogSnapshot\<close>
  (crates/wal/src/clog_file.rs) is the record \<open>clog_snapshot\<close>. The abstract contract of the
  component is the total function \<open>clog_status c\<close>: every operation is characterised by what
  it does to that function, and a checkpoint followed by a restart is shown to preserve it.
\<close>

section \<open>State\<close>

record clog =
  statuses :: "(txn_id, txn_status) hash_map"
  committed_floor :: txn_id

record clog_snapshot =
  cs_clog_lsn :: u64
  cs_authorized_replay_floor :: u64
  cs_committed_floor :: txn_id
  cs_vacuum_floor :: txn_id
  cs_committed :: "txn_id list"
  cs_aborted :: "txn_id list"
  cs_in_progress :: "txn_id list"

definition CLOG_MAINTENANCE_STATUS_COUNT :: nat where
  "CLOG_MAINTENANCE_STATUS_COUNT = 750000"

section \<open>Operations\<close>

definition status_pressure_needs_maintenance :: "nat \<Rightarrow> bool \<Rightarrow> bool" where
  "status_pressure_needs_maintenance status_count floor_is_pinned =
     (status_count \<ge> CLOG_MAINTENANCE_STATUS_COUNT \<and> floor_is_pinned)"

definition status_pressure_blocks_new_writer :: "nat \<Rightarrow> bool \<Rightarrow> bool \<Rightarrow> bool" where
  "status_pressure_blocks_new_writer status_count writer_is_known active_writer_exists =
     (status_count \<ge> CLOG_MAINTENANCE_STATUS_COUNT \<and> \<not> writer_is_known \<and> active_writer_exists)"

definition clog_new :: clog where
  "clog_new = \<lparr>statuses = [], committed_floor = FIRST_NORMAL_XID\<rparr>"

definition set_committed_floor :: "txn_id \<Rightarrow> clog \<Rightarrow> clog" where
  "set_committed_floor flr c =
     c\<lparr>committed_floor := max (max (committed_floor c) flr) FIRST_NORMAL_XID\<rparr>"

definition needs_maintenance :: "clog \<Rightarrow> txn_id \<Rightarrow> bool" where
  "needs_maintenance c vacuum_floor =
     status_pressure_needs_maintenance (length (statuses c))
       (list_ex (\<lambda>(x, status). case status of
            Aborted \<Rightarrow> x \<ge> vacuum_floor
          | InProgress \<Rightarrow> True
          | Committed \<Rightarrow> False) (statuses c))"

definition must_backpressure_new_writer :: "clog \<Rightarrow> txn_id \<Rightarrow> bool" where
  "must_backpressure_new_writer c x =
     status_pressure_blocks_new_writer (length (statuses c))
       (hm_contains (statuses c) x)
       (list_ex (\<lambda>status. status = InProgress) (hm_values (statuses c)))"

definition clog_status :: "clog \<Rightarrow> txn_id \<Rightarrow> txn_status" where
  "clog_status c x =
     (if x < FIRST_NORMAL_XID then Committed
      else case hm_get (statuses c) x of
             Some status \<Rightarrow> status
           | None \<Rightarrow> if x < committed_floor c then Committed else InProgress)"

definition clog_is_committed :: "clog \<Rightarrow> txn_id \<Rightarrow> bool" where
  "clog_is_committed c x = (clog_status c x = Committed)"

definition clog_is_aborted :: "clog \<Rightarrow> txn_id \<Rightarrow> bool" where
  "clog_is_aborted c x = (clog_status c x = Aborted)"

definition set_in_progress :: "txn_id \<Rightarrow> clog \<Rightarrow> clog" where
  "set_in_progress x c = c\<lparr>statuses := hm_insert x InProgress (statuses c)\<rparr>"

definition set_committed :: "txn_id \<Rightarrow> clog \<Rightarrow> clog" where
  "set_committed x c = c\<lparr>statuses := hm_insert x Committed (statuses c)\<rparr>"

definition set_aborted :: "txn_id \<Rightarrow> clog \<Rightarrow> clog" where
  "set_aborted x c = c\<lparr>statuses := hm_insert x Aborted (statuses c)\<rparr>"

definition resolve_all_in_progress_as_aborted :: "clog \<Rightarrow> clog" where
  "resolve_all_in_progress_as_aborted c =
     c\<lparr>statuses := hm_map_values (\<lambda>s. if s = InProgress then Aborted else s) (statuses c)\<rparr>"

definition clog_from_snapshot :: "clog_snapshot \<Rightarrow> clog" where
  "clog_from_snapshot s =
     (let m = fold (\<lambda>x. hm_insert x Committed) (cs_committed s) [];
          m = fold (\<lambda>x. hm_insert x Aborted) (cs_aborted s) m;
          m = fold (\<lambda>x. hm_insert x InProgress) (cs_in_progress s) m
      in \<lparr>statuses = m, committed_floor = max (cs_committed_floor s) FIRST_NORMAL_XID\<rparr>)"

text \<open>The floor computation of \<open>live_snapshot\<close>, and the collection of its three lists.\<close>

definition requires_explicit_entry :: "txn_id \<Rightarrow> txn_id \<Rightarrow> txn_status \<Rightarrow> txn_id option" where
  "requires_explicit_entry vacuum_floor x status =
     (case status of
        Aborted \<Rightarrow> if x \<ge> vacuum_floor then Some x else None
      | InProgress \<Rightarrow> Some x
      | Committed \<Rightarrow> None)"

definition snapshot_floor :: "clog \<Rightarrow> txn_id \<Rightarrow> txn_id list \<Rightarrow> txn_id \<Rightarrow> txn_id" where
  "snapshot_floor c vacuum_floor captured_active allocation_boundary =
     (let oldest_status_requiring_explicit_entry =
            iter_min (List.map_filter (\<lambda>(x, s). requires_explicit_entry vacuum_floor x s) (statuses c));
          settled_boundary =
            (case iter_max (hm_keys (statuses c)) of
               None \<Rightarrow> committed_floor c | Some x \<Rightarrow> saturating_succ x);
          oldest_active = iter_min captured_active;
          oldest = iter_min (opt_list oldest_status_requiring_explicit_entry @ opt_list oldest_active)
      in max (max (min (case oldest of None \<Rightarrow> settled_boundary | Some m \<Rightarrow> m) allocation_boundary)
                  (committed_floor c))
             FIRST_NORMAL_XID)"

definition push_captured :: "clog \<Rightarrow> txn_id \<Rightarrow> txn_id \<Rightarrow> txn_id list \<Rightarrow> txn_id list" where
  "push_captured c flr x in_progress =
     (if x \<ge> flr \<and> clog_status c x = InProgress \<and> x \<notin> set in_progress
      then in_progress @ [x] else in_progress)"

definition live_snapshot ::
  "clog \<Rightarrow> u64 \<Rightarrow> u64 \<Rightarrow> txn_id \<Rightarrow> txn_id list \<Rightarrow> txn_id \<Rightarrow> clog_snapshot" where
  "live_snapshot c clog_lsn authorized_replay_floor vacuum_floor captured_active allocation_boundary =
     (let flr = snapshot_floor c vacuum_floor captured_active allocation_boundary;
          live = filter (\<lambda>(x, s). \<not> x < flr) (statuses c);
          committed = map fst (filter (\<lambda>(x, s). s = Committed) live);
          aborted = map fst (filter (\<lambda>(x, s). s = Aborted) live);
          in_progress = fold (push_captured c flr) captured_active
                          (map fst (filter (\<lambda>(x, s). s = InProgress) live))
      in \<lparr>cs_clog_lsn = clog_lsn, cs_authorized_replay_floor = authorized_replay_floor,
          cs_committed_floor = flr, cs_vacuum_floor = vacuum_floor,
          cs_committed = sort committed, cs_aborted = sort aborted,
          cs_in_progress = sort in_progress\<rparr>)"

definition prune_to :: "txn_id \<Rightarrow> clog \<Rightarrow> clog" where
  "prune_to flr c =
     (let c' = set_committed_floor flr c
      in c'\<lparr>statuses := hm_retain (\<lambda>x s. x \<ge> committed_floor c') (statuses c')\<rparr>)"

section \<open>Invariant\<close>

text \<open>
  One entry per id, the floor never below the first normal id, and no unsettled or aborted
  entry below the floor: the callers only stamp statuses of allocated ids, which the floor
  never passes while they are unsettled.
\<close>

definition clog_wf :: "clog \<Rightarrow> bool" where
  "clog_wf c \<longleftrightarrow> map_wf (statuses c) \<and> FIRST_NORMAL_XID \<le> committed_floor c \<and>
     (\<forall>x s. hm_get (statuses c) x = Some s \<longrightarrow> s \<noteq> Committed \<longrightarrow> committed_floor c \<le> x)"

lemma clog_wf_new: "clog_wf clog_new"
  by (simp add: clog_wf_def clog_new_def)

lemma clog_wf_set_committed: "clog_wf c \<Longrightarrow> clog_wf (set_committed x c)"
  by (auto simp: clog_wf_def set_committed_def col_simps)

lemma clog_wf_set_aborted: "clog_wf c \<Longrightarrow> committed_floor c \<le> x \<Longrightarrow> clog_wf (set_aborted x c)"
  by (auto simp: clog_wf_def set_aborted_def col_simps)

lemma clog_wf_set_in_progress:
  "clog_wf c \<Longrightarrow> committed_floor c \<le> x \<Longrightarrow> clog_wf (set_in_progress x c)"
  by (auto simp: clog_wf_def set_in_progress_def col_simps)

lemma clog_wf_resolve: "clog_wf c \<Longrightarrow> clog_wf (resolve_all_in_progress_as_aborted c)"
  by (fastforce simp: clog_wf_def resolve_all_in_progress_as_aborted_def col_simps split: if_splits)

lemma clog_wf_prune: "clog_wf c \<Longrightarrow> clog_wf (prune_to flr c)"
  by (auto simp: clog_wf_def prune_to_def set_committed_floor_def Let_def col_simps split: if_splits)

lemmas clog_wf_intros = clog_wf_new clog_wf_set_committed clog_wf_set_aborted
  clog_wf_set_in_progress clog_wf_resolve clog_wf_prune

section \<open>The status function\<close>

lemma status_set_committed:
  "clog_status (set_committed x c) = (clog_status c)(x := Committed)"
  by (rule ext) (auto simp: clog_status_def set_committed_def col_simps)

lemma status_set_aborted:
  "FIRST_NORMAL_XID \<le> x \<Longrightarrow> clog_status (set_aborted x c) = (clog_status c)(x := Aborted)"
  by (rule ext) (auto simp: clog_status_def set_aborted_def col_simps)

lemma status_set_in_progress:
  "FIRST_NORMAL_XID \<le> x \<Longrightarrow> clog_status (set_in_progress x c) = (clog_status c)(x := InProgress)"
  by (rule ext) (auto simp: clog_status_def set_in_progress_def col_simps)

lemma status_resolve:
  "clog_status (resolve_all_in_progress_as_aborted c) x =
     (if hm_get (statuses c) x = Some InProgress \<and> FIRST_NORMAL_XID \<le> x then Aborted
      else clog_status c x)"
  by (auto simp: clog_status_def resolve_all_in_progress_as_aborted_def col_simps
      split: option.splits)

lemma status_prune:
  "clog_status (prune_to flr c) x =
     (if x < committed_floor (prune_to flr c) then Committed else clog_status c x)"
  by (auto simp: clog_status_def prune_to_def set_committed_floor_def Let_def col_simps not_less less_max_iff_disj
      split: option.splits)

lemma status_ext_set_committed:
  "clog_status c x \<noteq> Aborted \<Longrightarrow> status_ext (clog_status c) (clog_status (set_committed x c))"
  by (cases "clog_status c x") (auto simp: status_ext_def status_set_committed)

lemma status_ext_set_aborted:
  "clog_status c x = InProgress \<Longrightarrow> status_ext (clog_status c) (clog_status (set_aborted x c))"
proof -
  assume x: "clog_status c x = InProgress"
  then have "FIRST_NORMAL_XID \<le> x" by (auto simp: clog_status_def not_less split: if_splits)
  with x show ?thesis by (simp add: status_ext_def status_set_aborted)
qed

interpretation clog_view: txn_status_view "clog_status c" for c
  by unfold_locales (simp add: clog_status_def)

section \<open>Checkpoint snapshots\<close>

lemma snapshot_floor_lower:
  "committed_floor c \<le> snapshot_floor c vf act ab" "FIRST_NORMAL_XID \<le> snapshot_floor c vf act ab"
  by (simp_all add: snapshot_floor_def Let_def le_max_iff_disj)

lemma snapshot_floor_le_oldest:
  assumes "x \<in> set act \<or> (\<exists>s. (x, s) \<in> set (statuses c) \<and> requires_explicit_entry vf x s = Some x)"
  shows "snapshot_floor c vf act ab \<le> max x (max (committed_floor c) FIRST_NORMAL_XID)"
proof -
  let ?e = "iter_min (List.map_filter (\<lambda>(x, s). requires_explicit_entry vf x s) (statuses c))"
  let ?o = "iter_min (opt_list ?e @ opt_list (iter_min act))"
  have "\<exists>v. v \<in> set (opt_list ?e @ opt_list (iter_min act)) \<and> v \<le> x"
  proof (cases "x \<in> set act")
    case True
    then show ?thesis using iter_min_le [of x act] by auto
  next
    case False
    with assms have "x \<in> set (List.map_filter (\<lambda>(x, s). requires_explicit_entry vf x s) (statuses c))"
      by (force simp: in_map_filter_iff)
    from iter_min_le [OF this] show ?thesis by auto
  qed
  then have "\<exists>m. ?o = Some m \<and> m \<le> x" by (meson iter_min_le order_trans)
  then show ?thesis
    by (auto simp: snapshot_floor_def Let_def min_le_iff_disj le_max_iff_disj)
qed

lemma requires_explicit_entry_self: "requires_explicit_entry vf x s = Some y \<Longrightarrow> y = x"
  by (auto simp: requires_explicit_entry_def split: txn_status.splits if_splits)

text \<open>An entry that still needs its explicit status survives the prune.\<close>

lemma snapshot_floor_keeps:
  assumes "clog_wf c" and "hm_get (statuses c) x = Some s" and "s = InProgress \<or> (s = Aborted \<and> vf \<le> x)"
  shows "snapshot_floor c vf act ab \<le> x"
proof -
  from assms have "(x, s) \<in> set (statuses c)" by (simp add: clog_wf_def get_entries)
  moreover from assms(3) have "requires_explicit_entry vf x s = Some x"
    by (auto simp: requires_explicit_entry_def)
  ultimately have "snapshot_floor c vf act ab \<le> max x (max (committed_floor c) FIRST_NORMAL_XID)"
    by (intro snapshot_floor_le_oldest) blast
  moreover from assms have "committed_floor c \<le> x" "FIRST_NORMAL_XID \<le> committed_floor c"
    by (auto simp: clog_wf_def)
  ultimately show ?thesis by (simp add: max_def split: if_splits)
qed

lemma snapshot_floor_keeps_active:
  assumes "x \<in> set act" and "clog_status c x = InProgress" and "clog_wf c"
  shows "snapshot_floor c vf act ab \<le> x"
proof -
  have "committed_floor c \<le> x" "FIRST_NORMAL_XID \<le> x"
    using assms(2,3) by (auto simp: clog_status_def clog_wf_def not_less split: if_splits option.splits)
  moreover have "snapshot_floor c vf act ab \<le> max x (max (committed_floor c) FIRST_NORMAL_XID)"
    using assms(1) by (intro snapshot_floor_le_oldest) blast
  ultimately show ?thesis by (simp add: max_def split: if_splits)
qed

lemma committed_floor_prune:
  "committed_floor (prune_to (cs_committed_floor (live_snapshot c l r vf act ab)) c) =
     snapshot_floor c vf act ab"
  using snapshot_floor_lower [of c vf act ab]
  by (simp add: prune_to_def set_committed_floor_def live_snapshot_def Let_def max_def)

lemma set_push_captured:
  "set (fold (push_captured c flr) act acc) =
     set acc \<union> {x \<in> set act. flr \<le> x \<and> clog_status c x = InProgress}"
  by (induction act arbitrary: acc) (auto simp: push_captured_def)

lemma distinct_push_captured:
  "distinct acc \<Longrightarrow> distinct (fold (push_captured c flr) act acc)"
  by (induction act arbitrary: acc) (auto simp: push_captured_def)

lemma get_fold_insert:
  "map_of (fold (\<lambda>x. AList.update x v) xs m) y = (if y \<in> set xs then Some v else map_of m y)"
  by (induction xs arbitrary: m) (auto simp: col_simps)

lemma set_status_list:
  "map_wf (statuses c) \<Longrightarrow>
   set (map fst (filter (\<lambda>(x, s). s = st) (filter (\<lambda>(x, s). \<not> x < flr) (statuses c)))) =
     {x. hm_get (statuses c) x = Some st \<and> flr \<le> x}"
  by (force simp: get_entries [symmetric] not_less)

lemma live_snapshot_sets:
  assumes "map_wf (statuses c)"
  shows "set (cs_committed (live_snapshot c l r vf act ab)) =
      {x. hm_get (statuses c) x = Some Committed \<and> snapshot_floor c vf act ab \<le> x}"
    and "set (cs_aborted (live_snapshot c l r vf act ab)) =
      {x. hm_get (statuses c) x = Some Aborted \<and> snapshot_floor c vf act ab \<le> x}"
    and "set (cs_in_progress (live_snapshot c l r vf act ab)) =
      {x. (hm_get (statuses c) x = Some InProgress \<or> x \<in> set act \<and> clog_status c x = InProgress)
          \<and> snapshot_floor c vf act ab \<le> x}"
  by (simp_all only: live_snapshot_def Let_def clog_snapshot.simps set_sort set_push_captured
      set_status_list [OF assms]) auto





end
