(* ===== verification/Checked_Bytes.thy ===== *)
theory Checked_Bytes
  imports Prelude
begin

text \<open>
  The bounds-checked byte reader every durable decoder uses: crates/common/src/checked_bytes.rs.
  A \<open>usize\<close> is a natural number with the overflow of \<open>checked_add\<close> written out. A method with
  \<open>&mut self\<close> returns the reader it leaves behind; a failing method leaves it where it was.
  Decoders are reasoned about through \<open>rd_rest\<close>, the bytes still unread: every read is a
  function of it.
\<close>

datatype slice_read_error_kind = PositionOutOfBounds | LengthOverflow | Truncated | TrailingBytes

record slice_read_error =
  sre_kind :: slice_read_error_kind
  sre_position :: nat
  sre_requested :: nat
  sre_remaining :: nat

record slice_reader =
  rd_bytes :: "u8 list"
  rd_position :: nat

definition USIZE_MAX :: nat where "USIZE_MAX = 2 ^ 64 - 1"

definition rd_new :: "u8 list \<Rightarrow> slice_reader" where
  "rd_new bytes = \<lparr>rd_bytes = bytes, rd_position = 0\<rparr>"

definition rd_at :: "u8 list \<Rightarrow> nat \<Rightarrow> slice_read_error + slice_reader" where
  "rd_at bytes position =
     (if position > length bytes
      then Inl \<lparr>sre_kind = PositionOutOfBounds, sre_position = position, sre_requested = 0,
                sre_remaining = 0\<rparr>
      else Inr \<lparr>rd_bytes = bytes, rd_position = position\<rparr>)"

definition rd_remaining :: "slice_reader \<Rightarrow> nat" where
  "rd_remaining r = length (rd_bytes r) - rd_position r"

definition usize_checked_add :: "nat \<Rightarrow> nat \<Rightarrow> nat option" where
  "usize_checked_add a b = (if a + b > USIZE_MAX then None else Some (a + b))"

definition slice_get :: "u8 list \<Rightarrow> nat \<Rightarrow> nat \<Rightarrow> u8 list option" where
  "slice_get bs from to = (if from \<le> to \<and> to \<le> length bs then Some (take (to - from) (drop from bs)) else None)"

definition rd_take :: "slice_reader \<Rightarrow> nat \<Rightarrow> slice_read_error + (u8 list \<times> slice_reader)" where
  "rd_take r len =
     (let remaining = rd_remaining r in
      and_then (ok_or \<lparr>sre_kind = LengthOverflow, sre_position = rd_position r,
                       sre_requested = len, sre_remaining = remaining\<rparr>
                  (usize_checked_add (rd_position r) len)) (\<lambda>end_pos.
      and_then (ok_or \<lparr>sre_kind = Truncated, sre_position = rd_position r,
                       sre_requested = len, sre_remaining = remaining\<rparr>
                  (slice_get (rd_bytes r) (rd_position r) end_pos)) (\<lambda>value.
      Inr (value, r\<lparr>rd_position := end_pos\<rparr>))))"

definition rd_take_remaining :: "slice_reader \<Rightarrow> slice_read_error + (u8 list \<times> slice_reader)" where
  "rd_take_remaining r = rd_take r (rd_remaining r)"

definition rd_read_array :: "nat \<Rightarrow> slice_reader \<Rightarrow> slice_read_error + (u8 list \<times> slice_reader)" where
  "rd_read_array n r =
     and_then (rd_take r n) (\<lambda>(bytes, r').
       if length bytes = n then Inr (bytes, r')
       else Inl \<lparr>sre_kind = Truncated, sre_position = rd_position r, sre_requested = n,
                 sre_remaining = length bytes\<rparr>)"

definition rd_map :: "('a \<Rightarrow> 'b) \<Rightarrow> 'e + ('a \<times> slice_reader) \<Rightarrow> 'e + ('b \<times> slice_reader)" where
  "rd_map f v = and_then v (\<lambda>(x, r). Inr (f x, r))"

definition rd_read_u8 :: "slice_reader \<Rightarrow> slice_read_error + (u8 \<times> slice_reader)" where
  "rd_read_u8 r = rd_map hd (rd_read_array 1 r)"

definition rd_read_u16_le :: "slice_reader \<Rightarrow> slice_read_error + (u16 \<times> slice_reader)" where
  "rd_read_u16_le r = rd_map from_le (rd_read_array 2 r)"

definition rd_read_i16_be :: "slice_reader \<Rightarrow> slice_read_error + (u16 \<times> slice_reader)" where
  "rd_read_i16_be r = rd_map (\<lambda>b. from_le (rev b)) (rd_read_array 2 r)"

definition rd_read_u32_le :: "slice_reader \<Rightarrow> slice_read_error + (u32 \<times> slice_reader)" where
  "rd_read_u32_le r = rd_map from_le (rd_read_array 4 r)"

definition rd_read_i32_be :: "slice_reader \<Rightarrow> slice_read_error + (u32 \<times> slice_reader)" where
  "rd_read_i32_be r = rd_map (\<lambda>b. from_le (rev b)) (rd_read_array 4 r)"

definition rd_read_u64_le :: "slice_reader \<Rightarrow> slice_read_error + (u64 \<times> slice_reader)" where
  "rd_read_u64_le r = rd_map from_le (rd_read_array 8 r)"

definition rd_finish :: "slice_reader \<Rightarrow> slice_read_error + unit" where
  "rd_finish r =
     (let remaining = rd_remaining r in
      if remaining = 0 then Inr ()
      else Inl \<lparr>sre_kind = TrailingBytes, sre_position = rd_position r, sre_requested = 0,
                sre_remaining = remaining\<rparr>)"

section \<open>Reading is a function of the unread bytes\<close>

text \<open>
  A reader is in bounds when its position lies in a slice no longer than \<open>usize\<close> allows;
  \<open>rd_new\<close> and \<open>rd_at\<close> establish this and every read keeps it. \<open>rd_adv n r\<close> is \<open>r\<close> moved by
  \<open>n\<close> bytes.
\<close>

definition rd_ok :: "slice_reader \<Rightarrow> bool" where
  "rd_ok r \<longleftrightarrow> rd_position r \<le> length (rd_bytes r) \<and> length (rd_bytes r) \<le> USIZE_MAX"

definition rd_rest :: "slice_reader \<Rightarrow> u8 list" where
  "rd_rest r = drop (rd_position r) (rd_bytes r)"

definition rd_adv :: "nat \<Rightarrow> slice_reader \<Rightarrow> slice_reader" where
  "rd_adv n r = r\<lparr>rd_position := rd_position r + n\<rparr>"

named_theorems rd_simps \<open>reads as functions of the unread bytes\<close>

lemma rd_ok_new [simp]: "length bs \<le> USIZE_MAX \<Longrightarrow> rd_ok (rd_new bs)"
  by (simp add: rd_ok_def rd_new_def)

lemma rd_rest_new [rd_simps]: "rd_rest (rd_new bs) = bs"
  by (simp add: rd_rest_def rd_new_def)

lemma rd_rest_adv [rd_simps]: "rd_rest (rd_adv n r) = drop n (rd_rest r)"
  by (simp add: rd_rest_def rd_adv_def add.commute)

lemma rd_ok_adv [rd_simps]: "rd_ok r \<Longrightarrow> n \<le> length (rd_rest r) \<Longrightarrow> rd_ok (rd_adv n r)"
  by (auto simp: rd_ok_def rd_rest_def rd_adv_def)

lemma rd_remaining_rest [rd_simps]: "rd_remaining r = length (rd_rest r)"
  by (simp add: rd_remaining_def rd_rest_def)

lemma rd_take_enough [rd_simps]:
  "rd_ok r \<Longrightarrow> n \<le> length (rd_rest r) \<Longrightarrow> rd_take r n = Inr (take n (rd_rest r), rd_adv n r)"
  by (auto simp: rd_take_def usize_checked_add_def slice_get_def rd_ok_def rd_rest_def rd_adv_def
      Let_def)

lemma rd_take_short:
  "rd_ok r \<Longrightarrow> length (rd_rest r) < n \<Longrightarrow> \<exists>e. rd_take r n = Inl e \<and> sre_kind e \<in> {LengthOverflow, Truncated}"
  by (auto simp: rd_take_def usize_checked_add_def slice_get_def rd_ok_def rd_rest_def Let_def)

lemma rd_take_InrD:
  "rd_take r n = Inr (v, r') \<Longrightarrow> rd_ok r \<Longrightarrow>
     rd_rest r = v @ rd_rest r' \<and> length v = n \<and> rd_ok r' \<and> r' = rd_adv n r"
proof -
  assume t: "rd_take r n = Inr (v, r')" and ok: "rd_ok r"
  have "n \<le> length (rd_rest r)"
    using rd_take_short [OF ok, of n] t by (cases "n \<le> length (rd_rest r)") auto
  with t ok show ?thesis
    using rd_ok_adv [OF ok, of n] by (auto simp: rd_take_enough rd_rest_adv)
qed

lemma rd_read_array_eq [rd_simps]: "rd_ok r \<Longrightarrow> rd_read_array n r = rd_take r n"
proof -
  assume ok: "rd_ok r"
  show ?thesis
  proof (cases "rd_take r n")
    case (Inr p)
    with rd_take_InrD [of r n "fst p" "snd p"] ok show ?thesis
      by (auto simp: rd_read_array_def split: prod.splits)
  qed (simp add: rd_read_array_def)
qed

lemma rd_map_simps [simp]:
  "rd_map f (Inl e) = Inl e"
  "rd_map f (Inr (x, r)) = Inr (f x, r)"
  by (simp_all add: rd_map_def)

lemma rd_map_InrD: "rd_map f v = Inr (y, r) \<Longrightarrow> \<exists>x. v = Inr (x, r) \<and> y = f x"
  by (cases v) auto

lemma rd_read_u16_le_enough [rd_simps]:
  "rd_ok r \<Longrightarrow> 2 \<le> length (rd_rest r) \<Longrightarrow>
     rd_read_u16_le r = Inr (from_le (take 2 (rd_rest r)), rd_adv 2 r)"
  by (simp add: rd_read_u16_le_def rd_simps)

lemma rd_read_u32_le_enough [rd_simps]:
  "rd_ok r \<Longrightarrow> 4 \<le> length (rd_rest r) \<Longrightarrow>
     rd_read_u32_le r = Inr (from_le (take 4 (rd_rest r)), rd_adv 4 r)"
  by (simp add: rd_read_u32_le_def rd_simps)

lemma rd_read_u64_le_enough [rd_simps]:
  "rd_ok r \<Longrightarrow> 8 \<le> length (rd_rest r) \<Longrightarrow>
     rd_read_u64_le r = Inr (from_le (take 8 (rd_rest r)), rd_adv 8 r)"
  by (simp add: rd_read_u64_le_def rd_simps)

lemma rd_read_u8_enough [rd_simps]:
  "rd_ok r \<Longrightarrow> 1 \<le> length (rd_rest r) \<Longrightarrow>
     rd_read_u8 r = Inr (hd (rd_rest r), rd_adv 1 r)"
  by (cases "rd_rest r") (simp_all add: rd_read_u8_def rd_simps)

lemma rd_read_u32_le_InrD:
  "rd_read_u32_le r = Inr (v, r') \<Longrightarrow> rd_ok r \<Longrightarrow>
     rd_rest r = u32_le v @ rd_rest r' \<and> rd_ok r' \<and> r' = rd_adv 4 r"
  by (auto simp: rd_read_u32_le_def rd_read_array_eq to_from_le dest!: rd_map_InrD dest: rd_take_InrD)

lemma rd_read_u64_le_InrD:
  "rd_read_u64_le r = Inr (v, r') \<Longrightarrow> rd_ok r \<Longrightarrow>
     rd_rest r = u64_le v @ rd_rest r' \<and> rd_ok r' \<and> r' = rd_adv 8 r"
  by (auto simp: rd_read_u64_le_def rd_read_array_eq to_from_le dest!: rd_map_InrD dest: rd_take_InrD)

lemma rd_finish_ok [rd_simps]: "rd_finish r = Inr () \<longleftrightarrow> rd_rest r = []"
  by (simp add: rd_finish_def rd_remaining_rest Let_def)

lemma rd_finish_end [rd_simps]: "rd_rest r = [] \<Longrightarrow> rd_finish r = Inr ()"
  by (simp add: rd_finish_ok)

text \<open>
  C23: the checked reader is exact. From an in-bounds reader, \<open>take len\<close> succeeds exactly when
  that many bytes are left; it then returns those bytes and advances past them, the reader
  stays in bounds over the same slice, and what is unread afterwards is what followed them.
  Otherwise it fails and never indexes outside the slice. \<open>finish\<close> succeeds exactly at the end.
\<close>

theorem checked_reader_exact:
  assumes "rd_ok r"
  shows "((\<exists>p. rd_take r n = Inr p) \<longleftrightarrow> n \<le> length (rd_rest r))
    \<and> (rd_take r n = Inr (v, r') \<longrightarrow> rd_rest r = v @ rd_rest r' \<and> length v = n \<and> rd_ok r'
          \<and> rd_bytes r' = rd_bytes r \<and> rd_position r' = rd_position r + n)
    \<and> (rd_finish r = Inr () \<longleftrightarrow> rd_position r = length (rd_bytes r))"
proof (intro conjI impI)
  show "(\<exists>p. rd_take r n = Inr p) \<longleftrightarrow> n \<le> length (rd_rest r)"
    using assms rd_take_short [of r n] by (force simp: rd_take_enough not_le)
  show "rd_finish r = Inr () \<longleftrightarrow> rd_position r = length (rd_bytes r)"
    using assms by (auto simp: rd_finish_ok rd_rest_def rd_ok_def)
next
  assume "rd_take r n = Inr (v, r')"
  note res = rd_take_InrD [OF this assms]
  from res show "rd_rest r = v @ rd_rest r'" "length v = n" "rd_ok r'" by blast+
  from res have "r' = rd_adv n r" by blast
  then show "rd_bytes r' = rd_bytes r" "rd_position r' = rd_position r + n"
    by (simp_all add: rd_adv_def)
qed

theorem checked_reader_exact_witness:
  "rd_take (rd_adv 1 (rd_new [1, 2, 3, 4])) 2 = Inr ([2, 3], rd_adv 3 (rd_new [1, 2, 3, 4]))
   \<and> (\<nexists>p. rd_take (rd_adv 1 (rd_new [1, 2, 3, 4])) 4 = Inr p)
   \<and> rd_finish (rd_adv 3 (rd_new [1, 2, 3, 4])) \<noteq> Inr ()"
proof -
  have ok: "rd_ok (rd_adv 1 (rd_new [1, 2, 3, 4]))" "rd_ok (rd_adv 3 (rd_new [1, 2, 3, 4]))"
    by (simp_all add: rd_ok_def rd_adv_def rd_new_def USIZE_MAX_def)
  have "rd_take (rd_adv 1 (rd_new [1, 2, 3, 4])) 2 = Inr ([2, 3], rd_adv 3 (rd_new [1, 2, 3, 4]))"
    by (simp add: rd_take_def usize_checked_add_def slice_get_def rd_adv_def rd_new_def USIZE_MAX_def)
  then show ?thesis
    using checked_reader_exact [OF ok(1), of 4] checked_reader_exact [OF ok(2)]
    by (simp add: rd_adv_def rd_new_def rd_rest_def)
qed

end
