(* ===== verification/Clog_File.thy ===== *)
theory Clog_File
  imports Clog Checked_Bytes
begin

text \<open>
  The durable CLOG snapshot file: crates/wal/src/clog_file.rs. The envelope (magic, version,
  payload length, CRC) is modelled byte by byte. The CRC (crate crc32fast) and the JSON codec
  of the payload (crate serde_json) are parameters \<open>crc\<close>, \<open>to_vec\<close> and \<open>from_slice\<close>; the bounded
  list deserialisers the payload type installs are part of the model. An allocation is taken
  to succeed.
\<close>

section \<open>Layout\<close>

definition CLOG_MAGIC :: "u8 list" where "CLOG_MAGIC = [83, 71, 67, 76]"
definition CLOG_VERSION :: u32 where "CLOG_VERSION = 3"
definition CLOG_HEADER_LEN :: nat where "CLOG_HEADER_LEN = 16"
definition MAX_CLOG_PAYLOAD_BYTES :: nat where "MAX_CLOG_PAYLOAD_BYTES = 64 * 1024 * 1024"
definition MAX_CLOG_STATUS_COUNT :: nat where "MAX_CLOG_STATUS_COUNT = 1000000"

lemmas clog_file_consts = CLOG_MAGIC_def CLOG_VERSION_def CLOG_HEADER_LEN_def
  MAX_CLOG_PAYLOAD_BYTES_def

record clog_payload =
  cp_clog_lsn :: u64
  cp_authorized_replay_floor :: u64
  cp_committed_floor :: txn_id
  cp_vacuum_floor :: txn_id
  cp_committed :: "txn_id list"
  cp_aborted :: "txn_id list"
  cp_in_progress :: "txn_id list"

definition corrupt_clog :: "string \<Rightarrow> db_error" where
  "corrupt_clog msg = db_storage InternalError msg"

section \<open>Encoding\<close>

definition clog_payload_of :: "clog_snapshot \<Rightarrow> clog_payload" where
  "clog_payload_of s =
     \<lparr>cp_clog_lsn = cs_clog_lsn s, cp_authorized_replay_floor = cs_authorized_replay_floor s,
      cp_committed_floor = cs_committed_floor s, cp_vacuum_floor = cs_vacuum_floor s,
      cp_committed = cs_committed s, cp_aborted = cs_aborted s, cp_in_progress = cs_in_progress s\<rparr>"

definition encode_clog ::
  "(u8 list \<Rightarrow> u32) \<Rightarrow> (clog_payload \<Rightarrow> u8 list option) \<Rightarrow> clog_snapshot \<Rightarrow> u8 list result" where
  "encode_clog crc to_vec s =
     (if length (cs_committed s) > MAX_CLOG_STATUS_COUNT \<or>
         length (cs_aborted s) > MAX_CLOG_STATUS_COUNT \<or>
         length (cs_in_progress s) > MAX_CLOG_STATUS_COUNT
      then Inl (corrupt_clog ''CLOG status list exceeds the item limit'')
      else and_then (ok_or (corrupt_clog ''failed to encode CLOG payload: '')
                       (to_vec (clog_payload_of s))) (\<lambda>payload_bytes.
        if length payload_bytes > MAX_CLOG_PAYLOAD_BYTES
        then Inl (corrupt_clog ''CLOG payload exceeds 64 MiB'')
        else if length payload_bytes \<ge> 2 ^ 32
        then Inl (corrupt_clog ''CLOG payload is too large'')
        else if CLOG_HEADER_LEN + length payload_bytes > USIZE_MAX
        then Inl (corrupt_clog ''CLOG envelope length overflows'')
        else Inr (CLOG_MAGIC @ u32_le CLOG_VERSION @ u32_le (of_nat (length payload_bytes)) @
                  u32_le (crc payload_bytes) @ payload_bytes)))"

section \<open>Validation of the status lists\<close>

fun has_unsorted_pair :: "txn_id list \<Rightarrow> bool" where
  "has_unsorted_pair (left # right # rest) = (left \<ge> right \<or> has_unsorted_pair (right # rest))"
| "has_unsorted_pair xs = False"

fun merge_overlaps :: "txn_id list \<Rightarrow> txn_id list \<Rightarrow> bool" where
  "merge_overlaps (l # ls) (r # rs) =
     (if l < r then merge_overlaps ls (r # rs)
      else if l > r then merge_overlaps (l # ls) rs
      else True)"
| "merge_overlaps ls rs = False"

fun some_pair_overlaps :: "txn_id list list \<Rightarrow> bool" where
  "some_pair_overlaps [] = False"
| "some_pair_overlaps (l # ls) = (list_ex (merge_overlaps l) ls \<or> some_pair_overlaps ls)"

definition validate_status_lists :: "txn_id \<Rightarrow> txn_id list list \<Rightarrow> unit result" where
  "validate_status_lists flr ls =
     (if list_ex has_unsorted_pair ls
      then Inl (corrupt_clog ''CLOG status lists must be sorted without duplicates'')
      else if list_ex (\<lambda>x. x < flr) (concat ls)
      then Inl (corrupt_clog ''CLOG explicit status is below the committed floor'')
      else if some_pair_overlaps ls
      then Inl (corrupt_clog ''CLOG status lists must be mutually disjoint'')
      else Inr ())"

section \<open>Decoding\<close>

text \<open>The derived deserialiser with its three \<open>deserialize_with\<close> bounds.\<close>

definition payload_from_slice ::
  "(u8 list \<Rightarrow> clog_payload option) \<Rightarrow> u8 list \<Rightarrow> clog_payload option" where
  "payload_from_slice from_slice bs =
     (case from_slice bs of None \<Rightarrow> None
      | Some p \<Rightarrow>
          if length (cp_committed p) > MAX_CLOG_STATUS_COUNT \<or>
             length (cp_aborted p) > MAX_CLOG_STATUS_COUNT \<or>
             length (cp_in_progress p) > MAX_CLOG_STATUS_COUNT
          then None else Some p)"

definition clog_read_u32 :: "slice_reader \<Rightarrow> string \<Rightarrow> (u32 \<times> slice_reader) result" where
  "clog_read_u32 reader field =
     map_err (\<lambda>_. corrupt_clog (field @ '' is incomplete'')) (rd_read_u32_le reader)"

definition decode_clog_payload ::
  "(u8 list \<Rightarrow> clog_payload option) \<Rightarrow> u8 list \<Rightarrow> clog_snapshot result" where
  "decode_clog_payload from_slice payload_bytes =
     and_then (ok_or (corrupt_clog ''failed to decode CLOG payload: '')
                 (payload_from_slice from_slice payload_bytes)) (\<lambda>payload.
     if cp_authorized_replay_floor payload > cp_clog_lsn payload
     then Inl (corrupt_clog ''authorized replay floor is beyond CLOG LSN'')
     else and_then (validate_status_lists (cp_committed_floor payload)
                      [cp_committed payload, cp_aborted payload, cp_in_progress payload]) (\<lambda>_.
       Inr \<lparr>cs_clog_lsn = cp_clog_lsn payload,
            cs_authorized_replay_floor = cp_authorized_replay_floor payload,
            cs_committed_floor = cp_committed_floor payload,
            cs_vacuum_floor = cp_vacuum_floor payload,
            cs_committed = cp_committed payload, cs_aborted = cp_aborted payload,
            cs_in_progress = cp_in_progress payload\<rparr>))"

definition decode_clog ::
  "(u8 list \<Rightarrow> u32) \<Rightarrow> (u8 list \<Rightarrow> clog_payload option) \<Rightarrow> u8 list \<Rightarrow> clog_snapshot result" where
  "decode_clog crc from_slice bytes =
     (if length bytes < CLOG_HEADER_LEN then Inl (corrupt_clog ''CLOG file is too short'')
      else and_then (map_err (\<lambda>_. corrupt_clog ''CLOG file is too short'')
                       (rd_take (rd_new bytes) (length CLOG_MAGIC))) (\<lambda>(magic, reader).
      if magic \<noteq> CLOG_MAGIC then Inl (corrupt_clog ''CLOG file magic mismatch'')
      else and_then (clog_read_u32 reader ''CLOG file version'') (\<lambda>(version, reader).
      if version \<noteq> CLOG_VERSION then Inl (corrupt_clog ''unsupported CLOG file version '')
      else and_then (clog_read_u32 reader ''CLOG file payload length'') (\<lambda>(len32, reader).
      let payload_len = unat len32 in
      if payload_len > MAX_CLOG_PAYLOAD_BYTES then Inl (corrupt_clog ''CLOG payload exceeds 64 MiB'')
      else and_then (clog_read_u32 reader ''CLOG file checksum'') (\<lambda>(expected_checksum, reader).
      if rd_remaining reader \<noteq> payload_len then Inl (corrupt_clog ''CLOG file length mismatch'')
      else and_then (map_err (\<lambda>_. corrupt_clog ''CLOG file length mismatch'')
                       (rd_take reader payload_len)) (\<lambda>(payload_bytes, reader).
      and_then (map_err (\<lambda>_. corrupt_clog ''CLOG file length mismatch'') (rd_finish reader)) (\<lambda>_.
      if crc payload_bytes \<noteq> expected_checksum
      then Inl (corrupt_clog ''CLOG file checksum mismatch'')
      else decode_clog_payload from_slice payload_bytes)))))))"

section \<open>What the validation decides\<close>

lemma has_unsorted_pair_iff: "has_unsorted_pair xs \<longleftrightarrow> \<not> sorted_wrt (<) xs"
proof (induction xs rule: has_unsorted_pair.induct)
  case (1 l r rest)
  then show ?case by (auto simp: not_le intro: order.strict_trans)
qed auto

lemma merge_overlaps_iff:
  "sorted_wrt (<) ls \<Longrightarrow> sorted_wrt (<) rs \<Longrightarrow> merge_overlaps ls rs \<longleftrightarrow> set ls \<inter> set rs \<noteq> {}"
proof (induction ls rs rule: merge_overlaps.induct)
  case (1 l ls r rs)
  consider "l < r" | "r < l" | "l = r" by fastforce
  then show ?case
  proof cases
    case 1
    with "1.prems" have "l \<notin> set (r # rs)" by auto
    with 1 "1.IH" "1.prems" show ?thesis by auto
  next
    case 2
    with "1.prems" have "r \<notin> set (l # ls)" by auto
    with 2 "1.IH" "1.prems" show ?thesis by auto
  qed simp
qed auto

lemma validate_status_lists_iff:
  "validate_status_lists f [a, b, c] = Inr () \<longleftrightarrow>
     sorted_wrt (<) a \<and> sorted_wrt (<) b \<and> sorted_wrt (<) c
     \<and> (\<forall>x \<in> set a \<union> set b \<union> set c. f \<le> x)
     \<and> set a \<inter> set b = {} \<and> set a \<inter> set c = {} \<and> set b \<inter> set c = {}"
proof (cases "sorted_wrt (<) a \<and> sorted_wrt (<) b \<and> sorted_wrt (<) c")
  case True
  then have "merge_overlaps a b \<longleftrightarrow> set a \<inter> set b \<noteq> {}" "merge_overlaps a c \<longleftrightarrow> set a \<inter> set c \<noteq> {}"
    "merge_overlaps b c \<longleftrightarrow> set b \<inter> set c \<noteq> {}" by (simp_all add: merge_overlaps_iff)
  with True show ?thesis
    by (auto simp: validate_status_lists_def has_unsorted_pair_iff list_ex_iff ball_Un not_le [symmetric]
        split: if_splits)
qed (auto simp: validate_status_lists_def has_unsorted_pair_iff)

lemma distinct_status_list:
  "map_wf m \<Longrightarrow> distinct (map fst (filter p (filter q m)))"
  by (simp add: map_wf_def distinct_map_filter)

lemma live_snapshot_canonical:
  assumes wf: "map_wf (statuses c)"
  shows "validate_status_lists (cs_committed_floor (live_snapshot c l r vf act ab))
    [cs_committed (live_snapshot c l r vf act ab), cs_aborted (live_snapshot c l r vf act ab),
     cs_in_progress (live_snapshot c l r vf act ab)] = Inr ()"
proof -
  let ?s = "live_snapshot c l r vf act ab"
  have sorted: "sorted_wrt (<) (cs_committed ?s)" "sorted_wrt (<) (cs_aborted ?s)"
    "sorted_wrt (<) (cs_in_progress ?s)"
    using distinct_status_list [OF wf] distinct_push_captured
    by (simp_all add: live_snapshot_def Let_def strict_sorted_iff)
  have flr: "cs_committed_floor ?s = snapshot_floor c vf act ab"
    by (simp add: live_snapshot_def Let_def)
  have low: "FIRST_NORMAL_XID \<le> snapshot_floor c vf act ab" by (rule snapshot_floor_lower)
  have expl: "clog_status c x = st" if "hm_get (statuses c) x = Some st" "snapshot_floor c vf act ab \<le> x" for x st
    using that low by (auto simp: clog_status_def)
  show ?thesis
    unfolding validate_status_lists_iff flr
    using sorted expl by (auto simp: live_snapshot_sets [OF wf])
qed

section \<open>Properties\<close>

text \<open>The documented behaviour of the JSON codec the file relies on: what it writes it reads back.\<close>

definition json_faithful :: "('p \<Rightarrow> u8 list option) \<Rightarrow> (u8 list \<Rightarrow> 'p option) \<Rightarrow> bool" where
  "json_faithful to_vec from_slice \<longleftrightarrow> (\<forall>p bs. to_vec p = Some bs \<longrightarrow> from_slice bs = Some p)"

lemma decode_envelope:
  assumes "length payload \<le> MAX_CLOG_PAYLOAD_BYTES"
  shows "decode_clog crc from_slice (CLOG_MAGIC @ u32_le CLOG_VERSION @
      u32_le (of_nat (length payload)) @ u32_le (crc payload) @ payload) =
    decode_clog_payload from_slice payload"
proof -
  have len: "unat (of_nat (length payload) :: u32) = length payload"
    using assms by (simp add: unat_of_nat MAX_CLOG_PAYLOAD_BYTES_def)
  have small: "length payload + 16 \<le> USIZE_MAX"
    using assms by (simp add: MAX_CLOG_PAYLOAD_BYTES_def USIZE_MAX_def)
  have magic: "length CLOG_MAGIC = 4" by (simp add: CLOG_MAGIC_def)
  show ?thesis
    using assms small
    by (simp add: decode_clog_def clog_read_u32_def rd_simps magic len Let_def CLOG_HEADER_LEN_def)
qed

lemma encode_InrD:
  assumes "encode_clog crc to_vec s = Inr bytes"
  obtains payload where "to_vec (clog_payload_of s) = Some payload"
    and "length payload \<le> MAX_CLOG_PAYLOAD_BYTES"
    and "bytes = CLOG_MAGIC @ u32_le CLOG_VERSION @ u32_le (of_nat (length payload)) @
           u32_le (crc payload) @ payload"
    and "length (cs_committed s) \<le> MAX_CLOG_STATUS_COUNT"
      "length (cs_aborted s) \<le> MAX_CLOG_STATUS_COUNT"
      "length (cs_in_progress s) \<le> MAX_CLOG_STATUS_COUNT"
  using assms that
  by (auto simp: encode_clog_def and_then_Inr_iff not_less split: if_splits)

lemma snapshot_roundtrip:
  assumes json: "json_faithful to_vec from_slice"
    and wf: "map_wf (statuses c)"
    and snap: "s = live_snapshot c l r vf act ab" and floor: "r \<le> l"
    and enc: "encode_clog crc to_vec s = Inr bytes"
  shows "decode_clog crc from_slice bytes = Inr s" "length bytes \<le> CLOG_HEADER_LEN + MAX_CLOG_PAYLOAD_BYTES"
proof -
  from enc obtain payload where p: "to_vec (clog_payload_of s) = Some payload"
    "length payload \<le> MAX_CLOG_PAYLOAD_BYTES"
    "bytes = CLOG_MAGIC @ u32_le CLOG_VERSION @ u32_le (of_nat (length payload)) @
       u32_le (crc payload) @ payload"
    and lens: "length (cs_committed s) \<le> MAX_CLOG_STATUS_COUNT"
      "length (cs_aborted s) \<le> MAX_CLOG_STATUS_COUNT"
      "length (cs_in_progress s) \<le> MAX_CLOG_STATUS_COUNT" by (rule encode_InrD)
  from json p(1) have "from_slice payload = Some (clog_payload_of s)" by (simp add: json_faithful_def)
  then have fs: "payload_from_slice from_slice payload = Some (clog_payload_of s)"
    using lens by (simp add: payload_from_slice_def clog_payload_of_def)
  have valid: "validate_status_lists (cs_committed_floor s)
      [cs_committed s, cs_aborted s, cs_in_progress s] = Inr ()"
    unfolding snap using wf by (rule live_snapshot_canonical)
  have rl: "\<not> cs_authorized_replay_floor s > cs_clog_lsn s"
    using floor by (simp add: snap live_snapshot_def Let_def)
  have "decode_clog_payload from_slice payload = Inr s"
    using fs valid rl by (simp add: decode_clog_payload_def clog_payload_of_def)
  with p show "decode_clog crc from_slice bytes = Inr s" by (simp add: decode_envelope)
  show "length bytes \<le> CLOG_HEADER_LEN + MAX_CLOG_PAYLOAD_BYTES" using p(2) by (simp add: p(3) clog_file_consts)
qed

text \<open>
  C18: the durable checkpoint round trip. A snapshot taken from a well-formed CLOG whose
  authorised replay floor does not lie past its LSN, and that encodes, decodes to itself: the
  reader's validation never rejects what \<open>live_snapshot\<close> writes.
\<close>

theorem clog_file_roundtrip:
  assumes json: "json_faithful to_vec from_slice"
    and wf: "clog_wf c"
    and snap: "s = live_snapshot c l r vf act ab" and floor: "r \<le> l"
    and enc: "encode_clog crc to_vec s = Inr bytes"
  shows "decode_clog crc from_slice bytes = Inr s"
  using snapshot_roundtrip(1) [OF json _ snap floor enc] wf by (simp add: clog_wf_def)

text \<open>A concrete codec for one payload, for the witness.\<close>

theorem clog_file_roundtrip_witness:
  "let c = \<lparr>statuses = [(14, InProgress), (10, Committed)], committed_floor = 3\<rparr>;
       s = live_snapshot c 99 40 3 [17] 20;
       to_vec = (\<lambda>p. if p = clog_payload_of s then Some [123, 125] else None);
       from_slice = (\<lambda>b. if b = [123, 125] then Some (clog_payload_of s) else None);
       crc = (\<lambda>b. of_nat (length b))
   in \<exists>bytes. encode_clog crc to_vec s = Inr bytes \<and> decode_clog crc from_slice bytes = Inr s"
proof -
  define c where "c = \<lparr>statuses = [(14, InProgress), (10, Committed)], committed_floor = (3 :: txn_id)\<rparr>"
  define s where "s = live_snapshot c 99 40 3 [17] 20"
  define to_vec :: "clog_payload \<Rightarrow> u8 list option" where
    "to_vec = (\<lambda>p. if p = clog_payload_of s then Some [123, 125] else None)"
  define from_slice :: "u8 list \<Rightarrow> clog_payload option" where
    "from_slice = (\<lambda>b. if b = [123, 125] then Some (clog_payload_of s) else None)"
  define crc :: "u8 list \<Rightarrow> u32" where "crc = (\<lambda>b. of_nat (length b))"
  have wf: "clog_wf c" by (simp add: c_def clog_wf_def map_wf_def xid_defs)
  have json: "json_faithful to_vec from_slice" by (simp add: json_faithful_def to_vec_def from_slice_def)
  have lists: "cs_committed s = []" "cs_aborted s = []" "cs_in_progress s = [14, 17]"
    unfolding s_def c_def by code_simp+
  obtain bytes where enc: "encode_clog crc to_vec s = Inr bytes"
    by (simp add: encode_clog_def to_vec_def lists MAX_CLOG_STATUS_COUNT_def
        MAX_CLOG_PAYLOAD_BYTES_def CLOG_HEADER_LEN_def USIZE_MAX_def)
  have "decode_clog crc from_slice bytes = Inr s"
    by (rule clog_file_roundtrip [OF json wf s_def _ enc]) simp
  with enc show ?thesis
    by (unfold Let_def, fold c_def, fold s_def, fold to_vec_def from_slice_def crc_def) blast
qed

text \<open>
  C19: decoding accepts only intact, canonical files. Whatever bytes are accepted are exactly
  one envelope: the magic, the version, the length and the checksum of the payload that
  follows, with nothing after it; and the snapshot returned has sorted, mutually disjoint
  lists at or above its floor and a replay floor no later than its LSN.
\<close>

theorem decode_clog_sound:
  assumes "decode_clog crc from_slice bytes = Inr s" and "length bytes \<le> USIZE_MAX"
  shows "(\<exists>payload. bytes = CLOG_MAGIC @ u32_le CLOG_VERSION @ u32_le (of_nat (length payload)) @
            u32_le (crc payload) @ payload \<and> length payload \<le> MAX_CLOG_PAYLOAD_BYTES)
    \<and> cs_authorized_replay_floor s \<le> cs_clog_lsn s
    \<and> sorted_wrt (<) (cs_committed s) \<and> sorted_wrt (<) (cs_aborted s) \<and> sorted_wrt (<) (cs_in_progress s)
    \<and> (\<forall>x \<in> set (cs_committed s) \<union> set (cs_aborted s) \<union> set (cs_in_progress s). cs_committed_floor s \<le> x)
    \<and> set (cs_committed s) \<inter> set (cs_aborted s) = {} \<and> set (cs_committed s) \<inter> set (cs_in_progress s) = {}
    \<and> set (cs_aborted s) \<inter> set (cs_in_progress s) = {}"
proof -
  from assms(1) obtain r1 r2 r3 r4 r5 len ck payload u where
    t: "rd_take (rd_new bytes) (length CLOG_MAGIC) = Inr (CLOG_MAGIC, r1)"
      "rd_read_u32_le r1 = Inr (CLOG_VERSION, r2)" "rd_read_u32_le r2 = Inr (len, r3)"
      "unat len \<le> MAX_CLOG_PAYLOAD_BYTES" "rd_read_u32_le r3 = Inr (ck, r4)"
      "rd_take r4 (unat len) = Inr (payload, r5)" "rd_finish r5 = Inr u" "crc payload = ck"
    and d: "decode_clog_payload from_slice payload = Inr s"
    unfolding decode_clog_def clog_read_u32_def chain_iff not_less not_not by blast
  have ok: "rd_ok (rd_new bytes)" using assms(2) by simp
  from rd_take_InrD [OF t(1) ok] have a1: "bytes = CLOG_MAGIC @ rd_rest r1" "rd_ok r1"
    unfolding rd_rest_new by blast+
  from rd_read_u32_le_InrD [OF t(2) a1(2)] have a2: "rd_rest r1 = u32_le CLOG_VERSION @ rd_rest r2" "rd_ok r2"
    by blast+
  from rd_read_u32_le_InrD [OF t(3) a2(2)] have a3: "rd_rest r2 = u32_le len @ rd_rest r3" "rd_ok r3"
    by blast+
  from rd_read_u32_le_InrD [OF t(5) a3(2)] have a4: "rd_rest r3 = u32_le ck @ rd_rest r4" "rd_ok r4"
    by blast+
  from rd_take_InrD [OF t(6) a4(2)] have a5: "rd_rest r4 = payload @ rd_rest r5" "length payload = unat len"
    by blast+
  from t(7) have "rd_rest r5 = []" by (simp add: rd_finish_ok)
  with a1(1) a2(1) a3(1) a4(1) a5(1)
  have "bytes = CLOG_MAGIC @ u32_le CLOG_VERSION @ u32_le len @ u32_le ck @ payload" by simp
  then have "\<exists>payload. bytes = CLOG_MAGIC @ u32_le CLOG_VERSION @ u32_le (of_nat (length payload)) @
      u32_le (crc payload) @ payload \<and> length payload \<le> MAX_CLOG_PAYLOAD_BYTES"
    using t(4,8) a5(2) by (intro exI [of _ payload]) simp
  moreover from d obtain p where
    "\<not> cp_clog_lsn p < cp_authorized_replay_floor p"
    "validate_status_lists (cp_committed_floor p) [cp_committed p, cp_aborted p, cp_in_progress p] = Inr ()"
    "clog_payload_of s = p"
    unfolding decode_clog_payload_def chain_iff by (auto simp: clog_payload_of_def)
  ultimately show ?thesis
    by (auto simp: validate_status_lists_iff clog_payload_of_def)
qed

theorem decode_clog_sound_witness:
  "let s = \<lparr>cs_clog_lsn = 9, cs_authorized_replay_floor = 4, cs_committed_floor = 5,
            cs_vacuum_floor = 3, cs_committed = [6], cs_aborted = [7], cs_in_progress = [8]\<rparr>;
       from_slice = (\<lambda>b. Some (clog_payload_of s)); crc = (\<lambda>b. 77 + of_nat (length b))
   in decode_clog crc from_slice
        ([83, 71, 67, 76] @ [3, 0, 0, 0] @ [2, 0, 0, 0] @ [79, 0, 0, 0] @ [123, 125]) = Inr s
      \<and> cs_authorized_replay_floor s \<le> cs_clog_lsn s"
proof -
  define s where "s = \<lparr>cs_clog_lsn = 9, cs_authorized_replay_floor = 4, cs_committed_floor = 5,
    cs_vacuum_floor = 3, cs_committed = [6], cs_aborted = [7], cs_in_progress = [8 :: txn_id]\<rparr>"
  define from_slice :: "u8 list \<Rightarrow> clog_payload option" where
    "from_slice = (\<lambda>b. Some (clog_payload_of s))"
  define crc :: "u8 list \<Rightarrow> u32" where "crc = (\<lambda>b. 77 + of_nat (length b))"
  let ?b = "[83, 71, 67, 76] @ [3, 0, 0, 0] @ [2, 0, 0, 0] @ [79, 0, 0, 0] @ [123, 125 :: u8]"
  have env: "?b = CLOG_MAGIC @ u32_le CLOG_VERSION @ u32_le (of_nat (length [123, 125 :: u8])) @
      u32_le (crc [123, 125]) @ [123, 125]"
    unfolding crc_def by code_simp
  have "decode_clog_payload from_slice [123, 125] = Inr s"
    by (simp add: decode_clog_payload_def payload_from_slice_def from_slice_def clog_payload_of_def
        s_def validate_status_lists_def MAX_CLOG_STATUS_COUNT_def)
  then have dec: "decode_clog crc from_slice ?b = Inr s"
    unfolding env by (subst decode_envelope) (simp_all add: MAX_CLOG_PAYLOAD_BYTES_def)
  from decode_clog_sound [OF dec] have "cs_authorized_replay_floor s \<le> cs_clog_lsn s"
    by (simp add: USIZE_MAX_def)
  with dec show ?thesis
    by (unfold Let_def, fold s_def, fold from_slice_def crc_def) blast
qed

end
