(* ===== verification/Sql_State.thy ===== *)
theory Sql_State
  imports Prelude
begin

text \<open>
  The SQLSTATE table of crates/common/src/error.rs: \<open>SqlState::code\<close> and
  \<open>SqlState::from_code\<close>. The two tables are written independently in the source, and both
  are transcribed here entry by entry; they are shown to be inverse to each other, and every
  code to be five characters of the SQLSTATE alphabet.
\<close>

fun sql_code :: "sql_state \<Rightarrow> string" where
  "sql_code SuccessfulCompletion = ''00000''"
| "sql_code SyntaxError = ''42601''"
| "sql_code UndefinedTable = ''42P01''"
| "sql_code InvalidSchemaName = ''3F000''"
| "sql_code UndefinedColumn = ''42703''"
| "sql_code UndefinedObject = ''42704''"
| "sql_code InvalidColumnReference = ''42P10''"
| "sql_code WrongObjectType = ''42809''"
| "sql_code DuplicateTable = ''42P07''"
| "sql_code DuplicateSchema = ''42P06''"
| "sql_code InsufficientPrivilege = ''42501''"
| "sql_code InvalidTableDefinition = ''42P16''"
| "sql_code DuplicateCursor = ''42P03''"
| "sql_code IndeterminateDatatype = ''42P18''"
| "sql_code DatatypeMismatch = ''42804''"
| "sql_code DivisionByZero = ''22012''"
| "sql_code InvalidParameterValue = ''22023''"
| "sql_code NumericValueOutOfRange = ''22003''"
| "sql_code StringDataRightTruncation = ''22001''"
| "sql_code InvalidTextRepresentation = ''22P02''"
| "sql_code InvalidBinaryRepresentation = ''22P03''"
| "sql_code BadCopyFileFormat = ''22P04''"
| "sql_code NotNullViolation = ''23502''"
| "sql_code UniqueViolation = ''23505''"
| "sql_code CheckViolation = ''23514''"
| "sql_code ForeignKeyViolation = ''23503''"
| "sql_code CardinalityViolation = ''21000''"
| "sql_code DependentObjectsStillExist = ''2BP01''"
| "sql_code InvalidForeignKey = ''42830''"
| "sql_code DuplicateObject = ''42710''"
| "sql_code ObjectNotInPrerequisiteState = ''55000''"
| "sql_code ObjectInUse = ''55006''"
| "sql_code LockNotAvailable = ''55P03''"
| "sql_code InvalidCursorName = ''34000''"
| "sql_code QueryCanceled = ''57014''"
| "sql_code FeatureNotSupported = ''0A000''"
| "sql_code InFailedSqlTransaction = ''25P02''"
| "sql_code NoActiveSqlTransaction = ''25P01''"
| "sql_code InvalidSavepointSpecification = ''3B001''"
| "sql_code ProgramLimitExceeded = ''54000''"
| "sql_code SerializationFailure = ''40001''"
| "sql_code DeadlockDetected = ''40P01''"
| "sql_code IoError = ''58030''"
| "sql_code InternalError = ''XX000''"

definition from_code :: "string \<Rightarrow> sql_state option" where
  "from_code c =
     (if c = ''00000'' then Some SuccessfulCompletion
      else if c = ''42601'' then Some SyntaxError
      else if c = ''42P01'' then Some UndefinedTable
      else if c = ''3F000'' then Some InvalidSchemaName
      else if c = ''42703'' then Some UndefinedColumn
      else if c = ''42704'' then Some UndefinedObject
      else if c = ''42P10'' then Some InvalidColumnReference
      else if c = ''42809'' then Some WrongObjectType
      else if c = ''42P07'' then Some DuplicateTable
      else if c = ''42P06'' then Some DuplicateSchema
      else if c = ''42501'' then Some InsufficientPrivilege
      else if c = ''42P16'' then Some InvalidTableDefinition
      else if c = ''42P03'' then Some DuplicateCursor
      else if c = ''42P18'' then Some IndeterminateDatatype
      else if c = ''42804'' then Some DatatypeMismatch
      else if c = ''22012'' then Some DivisionByZero
      else if c = ''22023'' then Some InvalidParameterValue
      else if c = ''22003'' then Some NumericValueOutOfRange
      else if c = ''22001'' then Some StringDataRightTruncation
      else if c = ''22P02'' then Some InvalidTextRepresentation
      else if c = ''22P03'' then Some InvalidBinaryRepresentation
      else if c = ''22P04'' then Some BadCopyFileFormat
      else if c = ''23502'' then Some NotNullViolation
      else if c = ''23505'' then Some UniqueViolation
      else if c = ''23514'' then Some CheckViolation
      else if c = ''23503'' then Some ForeignKeyViolation
      else if c = ''21000'' then Some CardinalityViolation
      else if c = ''2BP01'' then Some DependentObjectsStillExist
      else if c = ''42830'' then Some InvalidForeignKey
      else if c = ''42710'' then Some DuplicateObject
      else if c = ''55000'' then Some ObjectNotInPrerequisiteState
      else if c = ''55006'' then Some ObjectInUse
      else if c = ''55P03'' then Some LockNotAvailable
      else if c = ''34000'' then Some InvalidCursorName
      else if c = ''57014'' then Some QueryCanceled
      else if c = ''0A000'' then Some FeatureNotSupported
      else if c = ''25P02'' then Some InFailedSqlTransaction
      else if c = ''25P01'' then Some NoActiveSqlTransaction
      else if c = ''3B001'' then Some InvalidSavepointSpecification
      else if c = ''54000'' then Some ProgramLimitExceeded
      else if c = ''40001'' then Some SerializationFailure
      else if c = ''40P01'' then Some DeadlockDetected
      else if c = ''58030'' then Some IoError
      else if c = ''XX000'' then Some InternalError
      else None)"

definition sqlstate_char :: "char \<Rightarrow> bool" where
  "sqlstate_char ch \<longleftrightarrow>
     ch \<in> set ''0123456789ABCDEFGHIJKLMNOPQRSTUVWXYZ''"

lemma from_code_code: "from_code (sql_code s) = Some s"
  by (cases s) (simp_all add: from_code_def)

lemma from_code_SomeD: "from_code c = Some s \<Longrightarrow> sql_code s = c"
  by (auto simp: from_code_def split: if_splits)

lemma sql_code_format: "length (sql_code s) = 5 \<and> list_all sqlstate_char (sql_code s)"
  by (cases s) (simp_all add: sqlstate_char_def)

text \<open>
  C24: the two SQLSTATE tables are inverse to each other. Every state is recovered from its
  code, a code is recognised exactly when some state has it, no two states share a code, and
  every code is five characters of the SQLSTATE alphabet.
\<close>

theorem sql_state_code_roundtrip:
  "from_code (sql_code s) = Some s
   \<and> (from_code c = Some t \<longleftrightarrow> sql_code t = c)
   \<and> (from_code c = None \<longleftrightarrow> c \<notin> range sql_code)
   \<and> inj sql_code \<and> length (sql_code s) = 5 \<and> list_all sqlstate_char (sql_code s)"
proof -
  have "from_code c = None \<longleftrightarrow> c \<notin> range sql_code"
    by (cases "from_code c") (auto simp: from_code_code dest: from_code_SomeD)
  moreover have "inj sql_code"
    by (metis from_code_code injI option.inject)
  ultimately show ?thesis
    using sql_code_format [of s] by (auto simp: from_code_code inj_eq dest: from_code_SomeD)
qed

end
