(* ===== verification/Registry.thy ===== *)
theory Registry
  imports Mvcc
begin

text \<open>
  The active-transaction registry: crates/server/src/registry.rs. \<open>RegistryState\<close> is the
  record \<open>registry\<close>: the \<open>BTreeSet\<close> of active ids is an ascending list, the multiset of
  advertised \<open>xmin\<close>s an ordered map from \<open>xmin\<close> to its count. Every method runs in one critical
  section of the registry latch, so it is one function on the state; a closure it calls under
  the latch (the id allocator, the allocation boundary) is the value it returns. A method
  that waits on the condition variable is split into its test and its effect.
\<close>

section \<open>State and operations\<close>

record registry =
  active :: "txn_id list"
  xmins :: "(txn_id, nat) btree_map"
  subtrans :: "(txn_id, txn_id) hash_map"
  snapshot_exclusion :: bool

definition registry_new :: registry where
  "registry_new = \<lparr>active = [], xmins = [], subtrans = [], snapshot_exclusion = False\<rparr>"

definition register :: "txn_id \<Rightarrow> registry \<Rightarrow> registry" where
  "register x r = r\<lparr>active := insort_insert x (active r)\<rparr>"

definition register_allocated :: "txn_id \<Rightarrow> registry \<Rightarrow> txn_id \<times> registry" where
  "register_allocated allocated r =
     (let x = allocated in (x, r\<lparr>active := insort_insert x (active r)\<rparr>))"

definition register_subxid_allocated :: "txn_id \<Rightarrow> txn_id \<Rightarrow> registry \<Rightarrow> txn_id \<times> registry" where
  "register_subxid_allocated top_xid allocated r =
     (let subxid = allocated
      in (subxid, r\<lparr>active := insort_insert subxid (active r),
                    subtrans := hm_insert subxid top_xid (subtrans r)\<rparr>))"

definition deregister :: "txn_id \<Rightarrow> registry \<Rightarrow> registry" where
  "deregister x r = r\<lparr>active := removeAll x (active r), subtrans := hm_remove x (subtrans r)\<rparr>"

definition deregister_all :: "txn_id list \<Rightarrow> registry \<Rightarrow> registry" where
  "deregister_all xs r = fold deregister xs r"

definition is_active :: "registry \<Rightarrow> txn_id \<Rightarrow> bool" where
  "is_active r x = (x \<in> set (active r))"

definition top_of :: "registry \<Rightarrow> txn_id \<Rightarrow> txn_id" where
  "top_of r x = (case hm_get (subtrans r) x of Some t \<Rightarrow> t | None \<Rightarrow> x)"

definition oldest :: "registry \<Rightarrow> txn_id option" where
  "oldest r = (case active r of [] \<Rightarrow> None | x # _ \<Rightarrow> Some x)"

definition active_ids :: "registry \<Rightarrow> txn_id list" where
  "active_ids r = active r"

definition checkpoint_snapshot :: "txn_id \<Rightarrow> registry \<Rightarrow> txn_id list \<times> txn_id" where
  "checkpoint_snapshot boundary r = (active r, boundary)"

definition oldest_xmin :: "registry \<Rightarrow> txn_id option" where
  "oldest_xmin r = (case xmins r of [] \<Rightarrow> None | (x, n) # _ \<Rightarrow> Some x)"

definition advertise_xmin :: "txn_id \<Rightarrow> registry \<Rightarrow> registry" where
  "advertise_xmin x r = r\<lparr>xmins := bt_upsert 0 x Suc (xmins r)\<rparr>"

text \<open>\<open>capture\<close> returns the active set, the boundary and the advertised \<open>xmin\<close> of the guard.\<close>

definition capture :: "txn_id \<Rightarrow> registry \<Rightarrow> (txn_id list \<times> txn_id \<times> txn_id) \<times> registry" where
  "capture boundary r =
     (let act = active r;
          xmax = boundary;
          xmin = (case act of [] \<Rightarrow> xmax | x # _ \<Rightarrow> x)
      in ((act, xmax, xmin), r\<lparr>xmins := bt_upsert 0 xmin Suc (xmins r)\<rparr>))"

definition try_capture_with_exclusion_bypass ::
  "bool \<Rightarrow> txn_id \<Rightarrow> registry \<Rightarrow> (txn_id list \<times> txn_id \<times> txn_id) option \<times> registry" where
  "try_capture_with_exclusion_bypass bypass boundary r =
     (if snapshot_exclusion r \<and> \<not> bypass then (None, r)
      else let act = active r;
               xmax = boundary;
               xmin = (case act of [] \<Rightarrow> xmax | x # _ \<Rightarrow> x)
           in (Some (act, xmax, xmin), r\<lparr>xmins := bt_upsert 0 xmin Suc (xmins r)\<rparr>))"

definition capture_unadvertised :: "txn_id \<Rightarrow> registry \<Rightarrow> txn_id list \<times> txn_id" where
  "capture_unadvertised boundary r = (active r, boundary)"

definition release_advertised :: "txn_id \<Rightarrow> registry \<Rightarrow> registry" where
  "release_advertised x r =
     (case hm_get (xmins r) x of
        None \<Rightarrow> r
      | Some n \<Rightarrow>
          if n = 0 \<or> n - 1 = 0 then r\<lparr>xmins := hm_remove x (xmins r)\<rparr>
          else r\<lparr>xmins := bt_insert x (n - 1) (xmins r)\<rparr>)"

text \<open>
  The exclusion of new snapshots: \<open>begin_snapshot_exclusion_cancelable\<close> polls until no other
  exclusion is held, takes it, and polls until the advertised snapshots have drained, giving
  the exclusion back when it is cancelled; dropping the guard gives it back too. One poll of
  either loop is one call.
\<close>

datatype exclusion_poll = ExclWaiting | ExclAcquired | ExclCancelled

definition wait_exclusion_clear_poll :: "bool \<Rightarrow> registry \<Rightarrow> exclusion_poll" where
  "wait_exclusion_clear_poll cancelled r =
     (if \<not> snapshot_exclusion r then ExclAcquired
      else if cancelled then ExclCancelled else ExclWaiting)"

definition begin_exclusion_poll :: "bool \<Rightarrow> registry \<Rightarrow> exclusion_poll \<times> registry" where
  "begin_exclusion_poll cancelled r =
     (if snapshot_exclusion r then (if cancelled then ExclCancelled else ExclWaiting, r)
      else (ExclAcquired, r\<lparr>snapshot_exclusion := True\<rparr>))"

definition drain_exclusion_poll :: "bool \<Rightarrow> registry \<Rightarrow> exclusion_poll \<times> registry" where
  "drain_exclusion_poll cancelled r =
     (if xmins r = [] then (ExclAcquired, r)
      else if cancelled then (ExclCancelled, r\<lparr>snapshot_exclusion := False\<rparr>)
      else (ExclWaiting, r))"

definition drop_exclusion :: "registry \<Rightarrow> registry" where
  "drop_exclusion r = r\<lparr>snapshot_exclusion := False\<rparr>"

section \<open>Invariant\<close>

definition registry_wf :: "registry \<Rightarrow> bool" where
  "registry_wf r \<longleftrightarrow> sorted_wrt (<) (active r) \<and> bt_wf (xmins r) \<and>
     (\<forall>x. hm_get (xmins r) x \<noteq> Some 0) \<and>
     (\<forall>x. hm_get (subtrans r) x \<noteq> None \<longrightarrow> x \<in> set (active r))"

abbreviation advertised :: "registry \<Rightarrow> txn_id \<Rightarrow> nat" where
  "advertised r x \<equiv> get_default 0 (xmins r) x"

lemma strict_sorted_insort [simp]:
  "sorted_wrt (<) xs \<Longrightarrow> sorted_wrt (<) (insort_insert x xs)"
  by (simp add: strict_sorted_iff sorted_insort_insert distinct_insort_insert)

lemma strict_sorted_removeAll [simp]:
  "sorted_wrt (<) xs \<Longrightarrow> sorted_wrt (<) (removeAll x xs)"
  by (induction xs) auto

lemma registry_wf_new: "registry_wf registry_new"
  by (simp add: registry_wf_def registry_new_def)

lemma registry_wf_register: "registry_wf r \<Longrightarrow> registry_wf (register x r)"
  by (auto simp: registry_wf_def register_def set_insort_insert)

lemma registry_wf_register_allocated:
  "registry_wf r \<Longrightarrow> registry_wf (snd (register_allocated x r))"
  by (auto simp: registry_wf_def register_allocated_def set_insort_insert)

lemma registry_wf_register_subxid:
  "registry_wf r \<Longrightarrow> registry_wf (snd (register_subxid_allocated t x r))"
  by (auto simp: registry_wf_def register_subxid_allocated_def set_insort_insert col_simps)

lemma registry_wf_deregister: "registry_wf r \<Longrightarrow> registry_wf (deregister x r)"
  by (auto simp: registry_wf_def deregister_def col_simps split: if_splits)

lemma registry_wf_deregister_all: "registry_wf r \<Longrightarrow> registry_wf (deregister_all xs r)"
  unfolding deregister_all_def
  by (induction xs arbitrary: r) (auto intro: registry_wf_deregister)

lemma registry_wf_advertise: "registry_wf r \<Longrightarrow> registry_wf (advertise_xmin x r)"
  by (simp add: registry_wf_def advertise_xmin_def bt.get_upsert)

lemma registry_wf_release: "registry_wf r \<Longrightarrow> registry_wf (release_advertised x r)"
  by (auto simp: registry_wf_def release_advertised_def col_simps split: option.splits)

text \<open>A capture is an advertisement of the \<open>xmin\<close> it returns.\<close>

definition capture_xmin :: "txn_id \<Rightarrow> registry \<Rightarrow> txn_id" where
  "capture_xmin boundary r = (case active r of [] \<Rightarrow> boundary | x # _ \<Rightarrow> x)"

lemma capture_eq:
  "capture b r = ((active r, b, capture_xmin b r), advertise_xmin (capture_xmin b r) r)"
  by (simp add: capture_def advertise_xmin_def capture_xmin_def Let_def)

lemma try_capture_eq:
  "try_capture_with_exclusion_bypass bypass b r =
     (if snapshot_exclusion r \<and> \<not> bypass then (None, r)
      else (Some (active r, b, capture_xmin b r), advertise_xmin (capture_xmin b r) r))"
  by (simp add: try_capture_with_exclusion_bypass_def advertise_xmin_def capture_xmin_def Let_def)

lemma capture_xmin_least:
  "sorted_wrt (<) (active r) \<Longrightarrow> x \<in> set (active r) \<Longrightarrow> capture_xmin b r \<le> x"
  by (cases "active r") (auto simp: capture_xmin_def)

lemma capture_xmin_bound: "\<forall>x \<in> set (active r). x < b \<Longrightarrow> capture_xmin b r \<le> b"
  by (cases "active r") (auto simp: capture_xmin_def)

lemmas registry_wf_intros = registry_wf_new registry_wf_register registry_wf_register_allocated
  registry_wf_register_subxid registry_wf_deregister registry_wf_deregister_all
  registry_wf_advertise registry_wf_release

lemma active_simps [simp]:
  "set (active (register x r)) = insert x (set (active r))"
  "set (active (snd (register_allocated x r))) = insert x (set (active r))"
  "set (active (snd (register_subxid_allocated t x r))) = insert x (set (active r))"
  "set (active (deregister x r)) = set (active r) - {x}"
  "active (advertise_xmin x r) = active r"
  "active (release_advertised x r) = active r"
  "active (drop_exclusion r) = active r"
  "active (snd (begin_exclusion_poll cc r)) = active r"
  "active (snd (drain_exclusion_poll cc r)) = active r"
  by (simp_all add: register_def register_allocated_def register_subxid_allocated_def deregister_def
      advertise_xmin_def release_advertised_def set_insort_insert drop_exclusion_def
      begin_exclusion_poll_def drain_exclusion_poll_def split: option.splits)

lemma active_deregister_all [simp]: "set (active (deregister_all xs r)) = set (active r) - set xs"
  unfolding deregister_all_def by (induction xs arbitrary: r) auto

lemma xmins_simps [simp]:
  "xmins (register x r) = xmins r"
  "xmins (snd (register_allocated x r)) = xmins r"
  "xmins (snd (register_subxid_allocated t x r)) = xmins r"
  "xmins (deregister x r) = xmins r"
  "xmins (drop_exclusion r) = xmins r"
  "xmins (snd (begin_exclusion_poll cc r)) = xmins r"
  "xmins (snd (drain_exclusion_poll cc r)) = xmins r"
  by (simp_all add: register_def register_allocated_def register_subxid_allocated_def deregister_def
      drop_exclusion_def begin_exclusion_poll_def drain_exclusion_poll_def)

lemma xmins_deregister_all [simp]: "xmins (deregister_all xs r) = xmins r"
  unfolding deregister_all_def by (induction xs arbitrary: r) auto

section \<open>The advertised multiset\<close>

lemma advertised_advertise:
  "advertised (advertise_xmin x r) y = advertised r y + (if y = x then 1 else 0)"
  by (simp add: advertise_xmin_def bt.default_get_upsert)

lemma advertised_release:
  "registry_wf r \<Longrightarrow> advertised (release_advertised x r) y = advertised r y - (if y = x then 1 else 0)"
  by (auto simp: release_advertised_def get_default_def registry_wf_def col_simps split: option.splits)

lemma advertised_pos: "registry_wf r \<Longrightarrow> 0 < advertised r x \<longleftrightarrow> hm_get (xmins r) x \<noteq> None"
  by (auto simp: get_default_def registry_wf_def split: option.splits) (metis neq0_conv)

lemma oldest_xmin_least:
  assumes "registry_wf r" and "0 < advertised r x"
  shows "\<exists>m. oldest_xmin r = Some m \<and> m \<le> x"
proof -
  from assms have "x \<in> set (map fst (xmins r))" unfolding get_keys by (simp add: advertised_pos)
  then show ?thesis
    using assms(1) by (cases "xmins r") (auto simp: oldest_xmin_def registry_wf_def bt_wf_def)
qed

lemma oldest_xmin_advertised:
  "registry_wf r \<Longrightarrow> oldest_xmin r = Some m \<Longrightarrow> 0 < advertised r m"
  by (subst advertised_pos) (auto simp: oldest_xmin_def split: list.splits)

lemma oldest_xmin_None: "oldest_xmin r = None \<longleftrightarrow> xmins r = []"
  by (auto simp: oldest_xmin_def split: list.splits)

section \<open>Properties\<close>



end
