(* ===== verification/Txn_System.thy ===== *)
theory Txn_System
  imports Registry Clog
begin

text \<open>
  The life of transactions and snapshots in the server: the id allocator \<open>next_txn_id\<close> of
  \<open>ServerComponents\<close> together with the registry and the CLOG. The operations are those of
  crates/server/src/query/txn.rs, crates/server/src/query/vacuum.rs and
  crates/server/src/app.rs; \<open>txn_step\<close> interleaves them, one latched critical section or one
  CLOG update per step, in any order any number of sessions can produce. \<open>ts_guards\<close> lists the
  snapshots whose \<open>AdvertisedSnapshot\<close> guard is held.
\<close>

section \<open>State and operations\<close>

record txn_system =
  ts_reg :: registry
  ts_next :: txn_id
  ts_clog :: clog
  ts_guards :: "snapshot list"

definition register_active_txn :: "txn_system \<Rightarrow> txn_id \<times> txn_system" where
  "register_active_txn s =
     (let (x, r) = register_allocated (ts_next s) (ts_reg s)
      in (x, s\<lparr>ts_reg := r, ts_next := ts_next s + 1\<rparr>))"

definition register_active_subxid :: "txn_id \<Rightarrow> txn_system \<Rightarrow> txn_id \<times> txn_system" where
  "register_active_subxid top_xid s =
     (let (x, r) = register_subxid_allocated top_xid (ts_next s) (ts_reg s)
      in (x, s\<lparr>ts_reg := r, ts_next := ts_next s + 1\<rparr>))"

definition try_capture_snapshot_for_transaction ::
  "txn_id \<Rightarrow> bool \<Rightarrow> txn_system \<Rightarrow> snapshot option \<times> txn_system" where
  "try_capture_snapshot_for_transaction own_txn bypass s =
     (case try_capture_with_exclusion_bypass bypass (ts_next s) (ts_reg s) of
        (None, r) \<Rightarrow> (None, s\<lparr>ts_reg := r\<rparr>)
      | (Some (act, xmax, xmin), r) \<Rightarrow>
          let xip = filter (\<lambda>x. x \<noteq> own_txn) act;
              snap = \<lparr>snap_xmin = xmin, snap_xmax = xmax, snap_xip = xip\<rparr>
          in (Some snap, s\<lparr>ts_reg := r, ts_guards := snap # ts_guards s\<rparr>))"

definition capture_snapshot_for_transaction :: "txn_id \<Rightarrow> txn_system \<Rightarrow> snapshot \<times> txn_system" where
  "capture_snapshot_for_transaction own_txn s =
     (let ((act, xmax, xmin), r) = capture (ts_next s) (ts_reg s);
          xip = filter (\<lambda>x. x \<noteq> own_txn) act;
          snap = \<lparr>snap_xmin = xmin, snap_xmax = xmax, snap_xip = xip\<rparr>
      in (snap, s\<lparr>ts_reg := r, ts_guards := snap # ts_guards s\<rparr>))"

text \<open>\<open>AdvertisedSnapshot::drop\<close>, and a cursor advertising the \<open>xmin\<close> of a snapshot it keeps.\<close>

definition drop_snapshot :: "snapshot \<Rightarrow> txn_system \<Rightarrow> txn_system" where
  "drop_snapshot g s =
     s\<lparr>ts_reg := release_advertised (snap_xmin g) (ts_reg s), ts_guards := remove1 g (ts_guards s)\<rparr>"

definition advertise_snapshot :: "snapshot \<Rightarrow> txn_system \<Rightarrow> txn_system" where
  "advertise_snapshot g s =
     s\<lparr>ts_reg := advertise_xmin (snap_xmin g) (ts_reg s), ts_guards := g # ts_guards s\<rparr>"

definition gc_horizon :: "txn_system \<Rightarrow> txn_id" where
  "gc_horizon s = (case oldest_xmin (ts_reg s) of Some x \<Rightarrow> x | None \<Rightarrow> ts_next s)"

definition full_boundary :: "txn_system \<Rightarrow> txn_id" where
  "full_boundary s = (case oldest (ts_reg s) of Some x \<Rightarrow> x | None \<Rightarrow> ts_next s)"

section \<open>Steps\<close>

text \<open>
  The allocator's \<open>fetch_add\<close> wraps around after \<open>2 ^ 64\<close> transactions; a run is followed up to
  that point. A commit is two steps, the CLOG update at the WAL flush and the family's
  deregistration, so other sessions may run in between.
\<close>

inductive txn_step :: "txn_system \<Rightarrow> txn_system \<Rightarrow> bool" where
  begin_txn: "ts_next s \<noteq> - 1 \<Longrightarrow> txn_step s (snd (register_active_txn s))"
| savepoint: "ts_next s \<noteq> - 1 \<Longrightarrow> is_active (ts_reg s) t \<Longrightarrow>
    txn_step s (snd (register_active_subxid t s))"
| try_snapshot: "txn_step s (snd (try_capture_snapshot_for_transaction own bypass s))"
| snapshot: "txn_step s (snd (capture_snapshot_for_transaction own s))"
| cursor: "g \<in> set (ts_guards s) \<Longrightarrow> txn_step s (advertise_snapshot g s)"
| drop: "g \<in> set (ts_guards s) \<Longrightarrow> txn_step s (drop_snapshot g s)"
| flush_commit: "\<forall>x \<in> set fam. clog_status (ts_clog s) x = InProgress \<and> is_active (ts_reg s) x \<Longrightarrow>
    txn_step s (s\<lparr>ts_clog := fold set_committed fam (ts_clog s)\<rparr>)"
| append_abort: "clog_status (ts_clog s) x = InProgress \<Longrightarrow> is_active (ts_reg s) x \<Longrightarrow>
    txn_step s (s\<lparr>ts_clog := set_aborted x (ts_clog s)\<rparr>)"
| finish: "txn_step s (s\<lparr>ts_reg := deregister_all fam (ts_reg s)\<rparr>)"
| exclude: "txn_step s (s\<lparr>ts_reg := snd (begin_exclusion_poll cc (ts_reg s))\<rparr>)"
| drain: "txn_step s (s\<lparr>ts_reg := snd (drain_exclusion_poll cc (ts_reg s))\<rparr>)"
| readmit: "txn_step s (s\<lparr>ts_reg := drop_exclusion (ts_reg s)\<rparr>)"

definition ts_init :: "txn_id \<Rightarrow> clog \<Rightarrow> txn_system" where
  "ts_init n c = \<lparr>ts_reg = registry_new, ts_next = n, ts_clog = c, ts_guards = []\<rparr>"

inductive ts_reachable :: "txn_system \<Rightarrow> bool" where
  init: "ts_reachable (ts_init n c)"
| step: "ts_reachable s \<Longrightarrow> txn_step s t \<Longrightarrow> ts_reachable t"

section \<open>Invariant\<close>

definition guard_count :: "snapshot list \<Rightarrow> txn_id \<Rightarrow> nat" where
  "guard_count gs y = length (filter (\<lambda>g. snap_xmin g = y) gs)"

definition ts_inv :: "txn_system \<Rightarrow> bool" where
  "ts_inv s \<longleftrightarrow> registry_wf (ts_reg s)
     \<and> (\<forall>x \<in> set (active (ts_reg s)). x < ts_next s)
     \<and> (\<forall>y. advertised (ts_reg s) y = guard_count (ts_guards s) y)
     \<and> (\<forall>g \<in> set (ts_guards s). snapshot_wf g \<and> snap_xmax g \<le> ts_next s)"

lemma guard_count_Cons [simp]:
  "guard_count (g # gs) y = guard_count gs y + (if snap_xmin g = y then 1 else 0)"
  by (simp add: guard_count_def)

lemma guard_count_pos: "g \<in> set gs \<Longrightarrow> 0 < guard_count gs (snap_xmin g)"
  by (auto simp: guard_count_def filter_empty_conv)

lemma guard_count_remove1:
  "g \<in> set gs \<Longrightarrow> guard_count (remove1 g gs) y = guard_count gs y - (if snap_xmin g = y then 1 else 0)"
proof (induction gs)
  case (Cons a gs)
  show ?case
  proof (cases "g = a")
    case False
    with Cons have g: "g \<in> set gs" by simp
    then have "0 < guard_count gs (snap_xmin g)" by (rule guard_count_pos)
    with False Cons.IH [OF g] show ?thesis by auto
  qed simp
qed simp

lemma guard_count_posD: "0 < guard_count gs y \<Longrightarrow> \<exists>g \<in> set gs. snap_xmin g = y"
  by (auto simp: guard_count_def filter_empty_conv)

text \<open>A capture takes the snapshot described by \<open>captured\<close>, and advertises its \<open>xmin\<close>.\<close>

definition captured :: "txn_id \<Rightarrow> txn_system \<Rightarrow> snapshot" where
  "captured own s = \<lparr>snap_xmin = capture_xmin (ts_next s) (ts_reg s), snap_xmax = ts_next s,
     snap_xip = filter (\<lambda>x. x \<noteq> own) (active (ts_reg s))\<rparr>"

lemma capture_snapshot_eq:
  "capture_snapshot_for_transaction own s = (captured own s, advertise_snapshot (captured own s) s)"
  by (simp add: capture_snapshot_for_transaction_def capture_eq captured_def advertise_snapshot_def
      Let_def)

lemma try_capture_snapshot_eq:
  "try_capture_snapshot_for_transaction own bypass s =
     (if snapshot_exclusion (ts_reg s) \<and> \<not> bypass then (None, s)
      else (Some (captured own s), advertise_snapshot (captured own s) s))"
  by (simp add: try_capture_snapshot_for_transaction_def try_capture_eq captured_def
      advertise_snapshot_def Let_def)

lemma captured_wf:
  assumes "ts_inv s"
  shows "snapshot_wf (captured own s)" "snap_xmax (captured own s) = ts_next s"
proof -
  from assms have act: "sorted_wrt (<) (active (ts_reg s))" "\<forall>x \<in> set (active (ts_reg s)). x < ts_next s"
    by (simp_all add: ts_inv_def registry_wf_def)
  then show "snapshot_wf (captured own s)"
    by (auto simp: snapshot_wf_def captured_def capture_xmin_least capture_xmin_bound)
qed (simp add: captured_def)

lemma ts_inv_advertise:
  assumes "ts_inv s" and "snapshot_wf g" and "snap_xmax g \<le> ts_next s"
  shows "ts_inv (advertise_snapshot g s)"
  using assms
  by (auto simp: ts_inv_def advertise_snapshot_def registry_wf_advertise advertised_advertise)

lemma ts_inv_drop:
  assumes "ts_inv s" and "g \<in> set (ts_guards s)"
  shows "ts_inv (drop_snapshot g s)"
proof -
  have "advertised (release_advertised (snap_xmin g) (ts_reg s)) y = guard_count (remove1 g (ts_guards s)) y" for y
    using assms by (auto simp: ts_inv_def advertised_release guard_count_remove1)
  with assms show ?thesis
    by (auto simp: ts_inv_def drop_snapshot_def registry_wf_release dest: notin_set_remove1)
qed

lemma ts_inv_reg:
  assumes "ts_inv s" and "registry_wf r" and "set (active r) \<subseteq> set (active (ts_reg s))"
    and "xmins r = xmins (ts_reg s)"
  shows "ts_inv (s\<lparr>ts_reg := r\<rparr>)"
  using assms by (auto simp: ts_inv_def)

lemma ts_inv_begin:
  assumes "ts_inv s" and "ts_next s \<noteq> - 1"
  shows "ts_inv (snd (register_active_txn s))" "ts_inv (snd (register_active_subxid t s))"
proof -
  have lt: "x < ts_next s + 1" if "x < ts_next s \<or> x = ts_next s" for x
    using that word_less_succ [OF assms(2)] by auto
  have le: "x \<le> ts_next s + 1" if "x \<le> ts_next s" for x
    using that word_less_succ [OF assms(2)] by auto
  have wf: "registry_wf (ts_reg s)" using assms(1) by (simp add: ts_inv_def)
  show "ts_inv (snd (register_active_txn s))"
    using assms(1) lt le registry_wf_register_allocated [OF wf, of "ts_next s"]
    by (auto simp: ts_inv_def register_active_txn_def register_allocated_def set_insort_insert Let_def)
  show "ts_inv (snd (register_active_subxid t s))"
    using assms(1) lt le registry_wf_register_subxid [OF wf, of t "ts_next s"]
    by (auto simp: ts_inv_def register_active_subxid_def register_subxid_allocated_def
        set_insort_insert Let_def)
qed

lemma ts_inv_step: "txn_step s t \<Longrightarrow> ts_inv s \<Longrightarrow> ts_inv t"
proof (induction rule: txn_step.induct)
  case (try_snapshot s own bypass)
  then show ?case
    by (auto simp: try_capture_snapshot_eq captured_wf intro!: ts_inv_advertise)
next
  case (snapshot s own)
  then show ?case by (auto simp: capture_snapshot_eq captured_wf intro!: ts_inv_advertise)
next
  case (cursor g s)
  then show ?case by (intro ts_inv_advertise) (auto simp: ts_inv_def)
next
  case (finish s fam)
  then show ?case
    by (intro ts_inv_reg) (auto simp: ts_inv_def intro: registry_wf_deregister_all)
next
  case (exclude s cc)
  then show ?case by (intro ts_inv_reg) (auto simp: ts_inv_def registry_wf_def begin_exclusion_poll_def)
next
  case (drain s cc)
  then show ?case by (intro ts_inv_reg) (auto simp: ts_inv_def registry_wf_def drain_exclusion_poll_def)
next
  case (readmit s)
  then show ?case by (intro ts_inv_reg) (auto simp: ts_inv_def registry_wf_def drop_exclusion_def)
qed (auto simp: ts_inv_begin ts_inv_drop, auto simp: ts_inv_def)

lemma ts_reachable_inv: "ts_reachable s \<Longrightarrow> ts_inv s"
proof (induction rule: ts_reachable.induct)
  case (init n c)
  show ?case
    using registry_wf_new
    by (simp add: ts_inv_def ts_init_def registry_new_def guard_count_def get_default_def)
qed (rule ts_inv_step)

section \<open>Runs\<close>

lemma gc_horizon_le_guard:
  assumes "ts_inv s" and "g \<in> set (ts_guards s)"
  shows "gc_horizon s \<le> snap_xmin g"
proof -
  from assms have "0 < advertised (ts_reg s) (snap_xmin g)" by (simp add: ts_inv_def guard_count_pos)
  then have "\<exists>m. oldest_xmin (ts_reg s) = Some m \<and> m \<le> snap_xmin g"
    using assms(1) by (intro oldest_xmin_least) (simp_all add: ts_inv_def)
  then show ?thesis by (auto simp: gc_horizon_def)
qed

lemma gc_horizon_le_next:
  assumes "ts_inv s"
  shows "gc_horizon s \<le> ts_next s"
proof (cases "oldest_xmin (ts_reg s)")
  case (Some m)
  with assms have "0 < guard_count (ts_guards s) m"
    using oldest_xmin_advertised [of "ts_reg s" m] by (simp add: ts_inv_def)
  then obtain g where "g \<in> set (ts_guards s)" "snap_xmin g = m" by (auto dest: guard_count_posD)
  with assms Some show ?thesis
    by (force simp: gc_horizon_def ts_inv_def snapshot_wf_def dest: order_trans)
qed (simp add: gc_horizon_def)

text \<open>What a step keeps of an id that is allocated and no longer active.\<close>

definition settled_for :: "txn_id \<Rightarrow> txn_system \<Rightarrow> bool" where
  "settled_for x s \<longleftrightarrow> x < ts_next s \<and> x \<notin> set (active (ts_reg s)) \<and>
     (\<forall>g \<in> set (ts_guards s). x < snap_xmax g \<and> x \<notin> set (snap_xip g))"

lemma settled_for_advertise:
  "settled_for x s \<Longrightarrow> x < snap_xmax g \<Longrightarrow> x \<notin> set (snap_xip g) \<Longrightarrow> settled_for x (advertise_snapshot g s)"
  by (auto simp: settled_for_def advertise_snapshot_def)

lemma settled_for_step:
  assumes "txn_step s t" and "settled_for x s"
  shows "settled_for x t"
  using assms
proof (induction rule: txn_step.induct)
  case (begin_txn s)
  then show ?case using word_less_succ [of "ts_next s"]
    by (auto simp: settled_for_def register_active_txn_def register_allocated_def set_insort_insert
        Let_def)
next
  case (savepoint s t)
  then show ?case using word_less_succ [of "ts_next s"]
    by (auto simp: settled_for_def register_active_subxid_def register_subxid_allocated_def
        set_insort_insert Let_def)
next
  case (try_snapshot s own bypass)
  then show ?case
    by (auto simp: try_capture_snapshot_eq intro!: settled_for_advertise)
       (auto simp: settled_for_def captured_def)
next
  case (snapshot s own)
  then show ?case
    by (auto simp: capture_snapshot_eq intro!: settled_for_advertise)
       (auto simp: settled_for_def captured_def)
next
  case (cursor g s)
  then show ?case by (intro settled_for_advertise) (auto simp: settled_for_def)
next
  case (drop g s)
  then show ?case by (auto simp: settled_for_def drop_snapshot_def dest: notin_set_remove1)
qed (auto simp: settled_for_def)

lemma status_ext_fold_committed:
  "\<forall>x \<in> set fam. clog_status c x \<noteq> Aborted \<Longrightarrow>
     status_ext (clog_status c) (clog_status (fold set_committed fam c))"
proof (induction fam arbitrary: c)
  case (Cons x fam)
  have "status_ext (clog_status c) (clog_status (set_committed x c))"
    using Cons.prems by (simp add: status_ext_set_committed)
  moreover have "status_ext (clog_status (set_committed x c))
      (clog_status (fold set_committed fam (set_committed x c)))"
    using Cons.prems by (intro Cons.IH) (auto simp: status_set_committed)
  ultimately show ?case by (auto intro: status_ext_trans)
qed simp

lemma status_ext_step: "txn_step s t \<Longrightarrow> status_ext (clog_status (ts_clog s)) (clog_status (ts_clog t))"
  by (induction rule: txn_step.induct)
    (auto simp: register_active_txn_def register_active_subxid_def advertise_snapshot_def
      drop_snapshot_def capture_snapshot_eq try_capture_snapshot_eq split_def Let_def
      intro: status_ext_fold_committed status_ext_set_aborted)

lemma status_ext_steps:
  "txn_step\<^sup>*\<^sup>* s t \<Longrightarrow> status_ext (clog_status (ts_clog s)) (clog_status (ts_clog t))"
  by (induction rule: rtranclp_induct) (auto intro: status_ext_trans status_ext_step)

lemma settled_for_steps: "txn_step\<^sup>*\<^sup>* s t \<Longrightarrow> settled_for x s \<Longrightarrow> settled_for x t"
  by (induction rule: rtranclp_induct) (auto intro: settled_for_step)

lemma settled_below_horizon:
  assumes "ts_inv s" and "x < gc_horizon s" and "x \<notin> set (active (ts_reg s))"
  shows "settled_for x s"
proof -
  have "x < snap_xmax g \<and> x \<notin> set (snap_xip g)" if "g \<in> set (ts_guards s)" for g
    using gc_horizon_le_guard [OF assms(1) that] assms that
    by (force simp: ts_inv_def snapshot_wf_def)
  moreover have "x < ts_next s" using assms(2) gc_horizon_le_next [OF assms(1)] by simp
  ultimately show ?thesis using assms(3) by (simp add: settled_for_def)
qed

section \<open>Properties\<close>


text \<open>
  A concrete run for the witnesses: transaction 5 creates a version and commits, transaction
  6 deletes it and commits, transaction 7 stays open, and a reader captures its snapshot.
\<close>

definition demo_run :: txn_system where
  "demo_run = \<lparr>ts_reg = \<lparr>active = [7], xmins = [], subtrans = [], snapshot_exclusion = False\<rparr>,
     ts_next = 8, ts_clog = \<lparr>statuses = [(6, Committed)], committed_floor = 6\<rparr>, ts_guards = []\<rparr>"

lemma demo_run_reachable: "ts_reachable demo_run"
proof -
  let ?c = "\<lparr>statuses = [], committed_floor = 6\<rparr>"
  let ?r = "\<lambda>act. \<lparr>active = act, xmins = [], subtrans = [], snapshot_exclusion = False\<rparr>"
  let ?s = "\<lambda>act n c. \<lparr>ts_reg = ?r act, ts_next = n, ts_clog = c, ts_guards = []\<rparr>"
  have "ts_reachable (?s [] 6 ?c)"
    using ts_reachable.init [of 6 ?c] by (simp add: ts_init_def registry_new_def)
  moreover have "txn_step (?s [] 6 ?c) (?s [6] 7 ?c)"
    using txn_step.begin_txn [of "?s [] 6 ?c"]
    by (simp add: register_active_txn_def register_allocated_def insort_insert_key_def)
  ultimately have "ts_reachable (?s [6] 7 ?c)" by (rule ts_reachable.step)
  moreover have "txn_step (?s [6] 7 ?c) (?s [6, 7] 8 ?c)"
    using txn_step.begin_txn [of "?s [6] 7 ?c"]
    by (simp add: register_active_txn_def register_allocated_def insort_insert_key_def)
  ultimately have "ts_reachable (?s [6, 7] 8 ?c)" by (rule ts_reachable.step)
  moreover have "txn_step (?s [6, 7] 8 ?c) (?s [6, 7] 8 (set_committed 6 ?c))"
    using txn_step.flush_commit [of "[6]" "?s [6, 7] 8 ?c"]
    by (simp add: clog_status_def is_active_def xid_defs)
  ultimately have "ts_reachable (?s [6, 7] 8 (set_committed 6 ?c))" by (rule ts_reachable.step)
  moreover have "txn_step (?s [6, 7] 8 (set_committed 6 ?c)) demo_run"
    using txn_step.finish [of "?s [6, 7] 8 (set_committed 6 ?c)" "[6]"]
    by (simp add: demo_run_def deregister_all_def deregister_def set_committed_def)
  ultimately show ?thesis by (rule ts_reachable.step)
qed




text \<open>
  C27: snapshots read from the server are repeatable. For a version whose creator and deleter
  are unsettled only while registered as active (the writers stamp their ids on versions only
  while they are registered), a snapshot captured by a transaction family sees the version
  the same way at capture and in every state any run reaches later.
\<close>

theorem captured_snapshot_repeatable:
  assumes reach: "ts_reachable s" and run: "txn_step\<^sup>*\<^sup>* s t"
    and snap: "fst (capture_snapshot_for_transaction own s) = snap" and own: "own \<in> set cur"
    and hints: "hints_ok xmin xmax im (clog_status (ts_clog s))"
    and unsettled: "\<And>x. x \<in> {xmin, xmax} \<Longrightarrow> x < ts_next s \<Longrightarrow>
      clog_status (ts_clog s) x = InProgress \<Longrightarrow> is_active (ts_reg s) x"
  shows "is_visible xmin xmax im snap cur (clog_status (ts_clog t)) =
    is_visible xmin xmax im snap cur (clog_status (ts_clog s))"
proof -
  have ext: "status_ext (clog_status (ts_clog s)) (clog_status (ts_clog t))"
    using run by (rule status_ext_steps)
  have same: "effective snap cur (clog_status (ts_clog t)) x = effective snap cur (clog_status (ts_clog s)) x"
    if "x \<in> {xmin, xmax}" for x
  proof (cases "x < ts_next s \<and> clog_status (ts_clog s) x = InProgress")
    case True
    with unsettled [OF that] have "x \<in> set cur \<or> x \<in> set (snap_xip snap)"
      using own snap by (auto simp: capture_snapshot_eq captured_def is_active_def)
    then show ?thesis by (auto simp: effective_def)
  next
    case False
    then show ?thesis
      using ext snap by (auto simp: effective_def status_ext_def capture_snapshot_eq captured_def)
  qed
  show ?thesis
    using hints hints_ok_ext [OF hints ext] same by (simp add: is_visible_eq)
qed

theorem captured_snapshot_repeatable_witness:
  "is_visible 7 0 0 (fst (capture_snapshot_for_transaction 0 demo_run)) [0]
     (clog_status (set_aborted 7 (ts_clog demo_run))) =
   is_visible 7 0 0 (fst (capture_snapshot_for_transaction 0 demo_run)) [0]
     (clog_status (ts_clog demo_run))"
proof -
  let ?t = "demo_run\<lparr>ts_clog := set_aborted 7 (ts_clog demo_run)\<rparr>"
  have step: "txn_step demo_run ?t"
    by (rule txn_step.append_abort) (simp_all add: demo_run_def clog_status_def is_active_def xid_defs)
  have "is_visible 7 0 0 (fst (capture_snapshot_for_transaction 0 demo_run)) [0] (clog_status (ts_clog ?t)) =
      is_visible 7 0 0 (fst (capture_snapshot_for_transaction 0 demo_run)) [0] (clog_status (ts_clog demo_run))"
    by (rule captured_snapshot_repeatable [OF demo_run_reachable r_into_rtranclp [of txn_step, OF step] refl])
      (auto simp: demo_run_def is_active_def clog_status_def xid_defs)
  then show ?thesis by simp
qed

text \<open>
  C28: a snapshot captured after the horizon was read may start below it. With an older
  transaction still active and no snapshot held, the horizon is the allocation boundary,
  while the next capture takes the older id as its \<open>xmin\<close>; what makes VACUUM safe is that the
  drained deleter is outside the later snapshot's in-progress list, not that the later
  \<open>xmin\<close> is at or above the horizon.
\<close>

theorem later_snapshot_below_horizon:
  "ts_reachable demo_run
   \<and> snap_xmin (fst (capture_snapshot_for_transaction 0 demo_run)) < gc_horizon demo_run"
  using demo_run_reachable
  by (simp add: capture_snapshot_eq captured_def capture_xmin_def gc_horizon_def oldest_xmin_def
      demo_run_def)

end
