(* ===== verification/Lock_Modes.thy ===== *)
theory Lock_Modes
  imports Mvcc "HOL-Library.Product_Lexorder" "HOL-Library.List_Lexorder" "HOL-Library.Char_ord"
    "HOL-Library.Option_ord"
begin

text \<open>
  Lock owners, resources, modes and requests: the types at the head of
  crates/server/src/lock_manager.rs and crates/common/src/locking.rs, with the compatibility
  tables, the validation of a request and the normalisation of a batch of requests. A row key
  (\<open>common::Key\<close>) is a type parameter with a linear order.
\<close>

section \<open>Owners and resources\<close>

datatype lock_owner = Transaction txn_id | Statement u64

datatype 'k lock_resource =
    Schema u32
  | CatalogName u32 string
  | Table u32
  | Tuple u32 'k
  | Sequence u32

definition ascii_lower :: "char \<Rightarrow> char" where
  "ascii_lower c =
     (let n = (of_char c :: nat) in if 65 \<le> n \<and> n \<le> 90 then char_of (n + 32) else c)"

definition normalized_catalog_name :: "string \<Rightarrow> string" where
  "normalized_catalog_name name = map ascii_lower name"

text \<open>The derived orders: variants in declaration order, then the fields.\<close>

fun owner_rank :: "lock_owner \<Rightarrow> nat \<times> u64" where
  "owner_rank (Transaction x) = (0, x)"
| "owner_rank (Statement n) = (1, n)"

fun resource_rank :: "'k lock_resource \<Rightarrow> nat \<times> u32 \<times> string \<times> 'k option" where
  "resource_rank (Schema s) = (0, s, [], None)"
| "resource_rank (CatalogName s n) = (1, s, n, None)"
| "resource_rank (Table t) = (2, t, [], None)"
| "resource_rank (Tuple t k) = (3, t, [], Some k)"
| "resource_rank (Sequence q) = (4, q, [], None)"

lemma owner_rank_inj: "owner_rank a = owner_rank b \<longleftrightarrow> a = b"
  by (cases a; cases b) auto

lemma resource_rank_inj: "resource_rank a = resource_rank b \<longleftrightarrow> a = b"
  by (cases a; cases b) auto

instantiation lock_owner :: linorder
begin

definition less_eq_lock_owner :: "lock_owner \<Rightarrow> lock_owner \<Rightarrow> bool" where
  "less_eq_lock_owner a b = (owner_rank a \<le> owner_rank b)"

definition less_lock_owner :: "lock_owner \<Rightarrow> lock_owner \<Rightarrow> bool" where
  "less_lock_owner a b = (owner_rank a < owner_rank b)"

instance
  by standard (auto simp: less_eq_lock_owner_def less_lock_owner_def less_le_not_le owner_rank_inj
      intro: order_trans simp flip: owner_rank_inj)

end

instantiation lock_resource :: (linorder) linorder
begin

definition less_eq_lock_resource :: "'a lock_resource \<Rightarrow> 'a lock_resource \<Rightarrow> bool" where
  "less_eq_lock_resource a b = (resource_rank a \<le> resource_rank b)"

definition less_lock_resource :: "'a lock_resource \<Rightarrow> 'a lock_resource \<Rightarrow> bool" where
  "less_lock_resource a b = (resource_rank a < resource_rank b)"

instance
  by standard (auto simp: less_eq_lock_resource_def less_lock_resource_def less_le_not_le
      intro: order_trans simp flip: resource_rank_inj)

end

section \<open>Modes\<close>

datatype relation_lock_mode = AccessShare | RowShare | RowExclusive | RelShare | AccessExclusive
datatype sequence_lock_mode = SeqAccess | SeqExclusive
datatype catalog_lock_mode = CatAccess | CatExclusive
datatype tuple_lock_mode = KeyShare | TupShare | NoKeyUpdate | Update

datatype tuple_lock_wait_policy = Block | NoWait | SkipLocked

datatype object_lock_mode =
    CatalogMode catalog_lock_mode
  | RelationMode relation_lock_mode
  | SequenceMode sequence_lock_mode
  | TupleMode tuple_lock_mode

fun relation_rank :: "relation_lock_mode \<Rightarrow> nat" where
  "relation_rank AccessShare = 0" | "relation_rank RowShare = 1" | "relation_rank RowExclusive = 2"
| "relation_rank RelShare = 3" | "relation_rank AccessExclusive = 4"

fun sequence_rank :: "sequence_lock_mode \<Rightarrow> nat" where
  "sequence_rank SeqAccess = 0" | "sequence_rank SeqExclusive = 1"

fun catalog_rank :: "catalog_lock_mode \<Rightarrow> nat" where
  "catalog_rank CatAccess = 0" | "catalog_rank CatExclusive = 1"

fun tuple_rank :: "tuple_lock_mode \<Rightarrow> nat" where
  "tuple_rank KeyShare = 0" | "tuple_rank TupShare = 1" | "tuple_rank NoKeyUpdate = 2"
| "tuple_rank Update = 3"

fun relation_compatible :: "relation_lock_mode \<Rightarrow> relation_lock_mode \<Rightarrow> bool" where
  "relation_compatible AccessShare right = (right \<noteq> AccessExclusive)"
| "relation_compatible RowShare right = (right \<noteq> AccessExclusive)"
| "relation_compatible RowExclusive right = (right \<in> {AccessShare, RowShare, RowExclusive})"
| "relation_compatible RelShare right = (right \<in> {AccessShare, RowShare})"
| "relation_compatible AccessExclusive right = False"

fun tuple_compatible :: "tuple_lock_mode \<Rightarrow> tuple_lock_mode \<Rightarrow> bool" where
  "tuple_compatible KeyShare right = (right \<noteq> Update)"
| "tuple_compatible TupShare right = (right \<in> {KeyShare, TupShare})"
| "tuple_compatible NoKeyUpdate right = (right = KeyShare)"
| "tuple_compatible Update right = False"

fun compatible :: "object_lock_mode \<Rightarrow> object_lock_mode \<Rightarrow> bool" where
  "compatible (CatalogMode CatAccess) (CatalogMode CatAccess) = True"
| "compatible (CatalogMode _) (CatalogMode _) = False"
| "compatible (RelationMode left) (RelationMode right) = relation_compatible left right"
| "compatible (TupleMode left) (TupleMode right) = tuple_compatible left right"
| "compatible (SequenceMode SeqAccess) (SequenceMode SeqAccess) = True"
| "compatible (SequenceMode _) (SequenceMode _) = False"
| "compatible _ _ = False"

fun covers :: "object_lock_mode \<Rightarrow> object_lock_mode \<Rightarrow> bool" where
  "covers (CatalogMode held) (CatalogMode requested) = (catalog_rank held \<ge> catalog_rank requested)"
| "covers (RelationMode held) (RelationMode requested) = (relation_rank held \<ge> relation_rank requested)"
| "covers (SequenceMode held) (SequenceMode requested) = (sequence_rank held \<ge> sequence_rank requested)"
| "covers (TupleMode held) (TupleMode requested) = (tuple_rank held \<ge> tuple_rank requested)"
| "covers _ _ = False"

text \<open>\<open>Ord::max\<close> returns its second argument when the two are equal.\<close>

fun strongest :: "object_lock_mode \<Rightarrow> object_lock_mode \<Rightarrow> object_lock_mode result" where
  "strongest (CatalogMode l) (CatalogMode r) =
     Inr (CatalogMode (if catalog_rank l > catalog_rank r then l else r))"
| "strongest (RelationMode l) (RelationMode r) =
     Inr (RelationMode (if relation_rank l > relation_rank r then l else r))"
| "strongest (SequenceMode l) (SequenceMode r) =
     Inr (SequenceMode (if sequence_rank l > sequence_rank r then l else r))"
| "strongest (TupleMode l) (TupleMode r) =
     Inr (TupleMode (if tuple_rank l > tuple_rank r then l else r))"
| "strongest _ _ = Inl (db_internal ''object lock modes have different resource types'')"

section \<open>Requests\<close>

record 'k object_lock_request =
  req_resource :: "'k lock_resource"
  req_mode :: object_lock_mode

definition schema_request :: "u32 \<Rightarrow> catalog_lock_mode \<Rightarrow> 'k object_lock_request" where
  "schema_request s m = \<lparr>req_resource = Schema s, req_mode = CatalogMode m\<rparr>"

definition catalog_name_request :: "u32 \<Rightarrow> string \<Rightarrow> 'k object_lock_request" where
  "catalog_name_request s n =
     \<lparr>req_resource = CatalogName s (normalized_catalog_name n), req_mode = CatalogMode CatExclusive\<rparr>"

definition table_request :: "u32 \<Rightarrow> relation_lock_mode \<Rightarrow> 'k object_lock_request" where
  "table_request t m = \<lparr>req_resource = Table t, req_mode = RelationMode m\<rparr>"

definition sequence_request :: "u32 \<Rightarrow> sequence_lock_mode \<Rightarrow> 'k object_lock_request" where
  "sequence_request q m = \<lparr>req_resource = Sequence q, req_mode = SequenceMode m\<rparr>"

fun mode_fits :: "'k lock_resource \<Rightarrow> object_lock_mode \<Rightarrow> bool" where
  "mode_fits (Schema _) (CatalogMode _) = True"
| "mode_fits (CatalogName _ _) (CatalogMode _) = True"
| "mode_fits (Table _) (RelationMode _) = True"
| "mode_fits (Tuple _ _) (TupleMode _) = True"
| "mode_fits (Sequence _) (SequenceMode _) = True"
| "mode_fits _ _ = False"

definition validate_request :: "'k object_lock_request \<Rightarrow> unit result" where
  "validate_request r =
     (if mode_fits (req_resource r) (req_mode r) then Inr ()
      else Inl (db_internal ''object lock mode does not match resource''))"

fun normalize_into ::
  "('k::linorder lock_resource, object_lock_mode) btree_map \<Rightarrow> 'k object_lock_request list \<Rightarrow>
   ('k lock_resource, object_lock_mode) btree_map result" where
  "normalize_into m [] = Inr m"
| "normalize_into m (r # rs) =
     and_then (validate_request r) (\<lambda>_.
       case hm_get m (req_resource r) of
         None \<Rightarrow> normalize_into (bt_insert (req_resource r) (req_mode r) m) rs
       | Some held \<Rightarrow>
           and_then (strongest held (req_mode r)) (\<lambda>mode.
             normalize_into (bt_insert (req_resource r) mode m) rs))"

definition normalize_requests ::
  "'k::linorder object_lock_request list \<Rightarrow> 'k object_lock_request list result" where
  "normalize_requests rs =
     and_then (normalize_into [] rs) (\<lambda>m.
       Inr (map (\<lambda>(res, mode). \<lparr>req_resource = res, req_mode = mode\<rparr>) m))"

section \<open>The lattice of modes\<close>

text \<open>
  What the lock table relies on of the modes: conflicts are symmetric, and a mode that covers
  another conflicts with at least what the other conflicts with. From this alone the mode
  granted by an upgrade is compatible with every other holder.
\<close>

locale mode_lattice =
  fixes compat :: "'m \<Rightarrow> 'm \<Rightarrow> bool"
    and cov :: "'m \<Rightarrow> 'm \<Rightarrow> bool"
    and join :: "'m \<Rightarrow> 'm \<Rightarrow> 'e + 'm"
  assumes compat_sym: "compat a b \<longleftrightarrow> compat b a"
    and cov_refl: "cov a a"
    and cov_trans: "cov a b \<Longrightarrow> cov b c \<Longrightarrow> cov a c"
    and compat_anti: "cov a b \<Longrightarrow> compat a c \<Longrightarrow> compat b c"
    and join_cases: "join a b = Inr c \<Longrightarrow> c = a \<and> cov a b \<or> c = b \<and> cov b a"
begin

lemma join_upper: "join a b = Inr c \<Longrightarrow> cov c a \<and> cov c b"
  using join_cases cov_refl by blast

lemma join_least: "join a b = Inr c \<Longrightarrow> cov d a \<Longrightarrow> cov d b \<Longrightarrow> cov d c"
  using join_cases by blast

lemma join_compat: "join a b = Inr c \<Longrightarrow> compat a d \<Longrightarrow> compat b d \<Longrightarrow> compat c d"
  using join_cases by blast

lemma cov_compat_both: "cov a b \<Longrightarrow> cov c d \<Longrightarrow> compat a c \<Longrightarrow> compat b d"
  using compat_anti compat_sym by blast

end

lemma relation_compatible_sym: "relation_compatible a b \<longleftrightarrow> relation_compatible b a"
  by (cases a; cases b) auto

lemma tuple_compatible_sym: "tuple_compatible a b \<longleftrightarrow> tuple_compatible b a"
  by (cases a; cases b) auto

lemma relation_compatible_anti:
  "relation_rank b \<le> relation_rank a \<Longrightarrow> relation_compatible a c \<Longrightarrow> relation_compatible b c"
  by (cases a; cases b; cases c) auto

lemma tuple_compatible_anti:
  "tuple_rank b \<le> tuple_rank a \<Longrightarrow> tuple_compatible a c \<Longrightarrow> tuple_compatible b c"
  by (cases a; cases b; cases c) auto

lemma exclusive_compatible [simp]:
  "compatible (CatalogMode a) (CatalogMode b) = (a = CatAccess \<and> b = CatAccess)"
  "compatible (SequenceMode q) (SequenceMode r) = (q = SeqAccess \<and> r = SeqAccess)"
  by (cases a; cases b; simp) (cases q; cases r; simp)

lemma exclusive_rank:
  "catalog_rank b \<le> catalog_rank CatAccess \<longleftrightarrow> b = CatAccess"
  "sequence_rank q \<le> sequence_rank SeqAccess \<longleftrightarrow> q = SeqAccess"
  by (cases b; simp) (cases q; simp)

interpretation modes: mode_lattice compatible covers strongest
proof
  fix a b c :: object_lock_mode
  show "compatible a b \<longleftrightarrow> compatible b a"
    by (cases a; cases b) (auto simp: relation_compatible_sym tuple_compatible_sym)
  show "covers a a" by (cases a) auto
  show "covers a b \<Longrightarrow> covers b c \<Longrightarrow> covers a c"
    by (cases a; cases b; cases c) auto
  show "strongest a b = Inr c \<Longrightarrow> c = a \<and> covers a b \<or> c = b \<and> covers b a"
    by (cases a; cases b) (auto split: if_splits)
  show "covers a b \<Longrightarrow> compatible a c \<Longrightarrow> compatible b c"
    using relation_compatible_anti tuple_compatible_anti exclusive_rank
    by (cases a; cases b; cases c) auto
qed

lemma fits_strongest:
  assumes "mode_fits res a" and "mode_fits res b"
  shows "\<exists>c. strongest a b = Inr c \<and> mode_fits res c"
  using assms by (cases res; cases a; cases b) auto

section \<open>Normalisation\<close>

lemma normalize_into_wf: "normalize_into m rs = Inr m' \<Longrightarrow> bt_wf m \<Longrightarrow> bt_wf m'"
  by (induction rs arbitrary: m) (auto simp: and_then_Inr_iff split: option.splits)

lemma normalize_into_ok:
  assumes "\<forall>r \<in> set rs. mode_fits (req_resource r) (req_mode r)"
    and "\<forall>res mode. hm_get m res = Some mode \<longrightarrow> mode_fits res mode"
  shows "\<exists>m'. normalize_into m rs = Inr m'"
  using assms
proof (induction rs arbitrary: m)
  case (Cons r rs)
  let ?res = "req_resource r" and ?mode = "req_mode r"
  have v: "validate_request r = Inr ()" using Cons.prems(1) by (simp add: validate_request_def)
  show ?case
  proof (cases "hm_get m ?res")
    case None
    with v Cons.prems show ?thesis by (auto simp: col_simps intro!: Cons.IH split: if_splits)
  next
    case (Some held)
    with Cons.prems obtain c where c: "strongest held ?mode = Inr c" "mode_fits ?res c"
      using fits_strongest [of ?res held ?mode] by auto
    have "\<exists>m'. normalize_into (bt_insert ?res c m) rs = Inr m'"
      using Cons.prems c(2) by (intro Cons.IH) (auto simp: col_simps)
    with v Some c(1) show ?thesis by simp
  qed
qed simp

lemma normalize_into_fits:
  assumes "normalize_into m rs = Inr m'"
  shows "\<forall>r \<in> set rs. mode_fits (req_resource r) (req_mode r)"
  using assms
  by (induction rs arbitrary: m)
    (auto simp: and_then_Inr_iff validate_request_def split: option.splits if_splits)

text \<open>The mode kept for a resource is an upper bound of the requested ones and one of them.\<close>

lemma normalize_into_get:
  assumes "normalize_into m rs = Inr m'"
  shows "case hm_get m' res of
      None \<Rightarrow> hm_get m res = None \<and> res \<notin> req_resource ` set rs
    | Some mode \<Rightarrow>
        (hm_get m res = Some mode \<or> (\<exists>r \<in> set rs. req_resource r = res \<and> req_mode r = mode))
        \<and> (\<forall>r \<in> set rs. req_resource r = res \<longrightarrow> covers mode (req_mode r))
        \<and> (\<forall>held. hm_get m res = Some held \<longrightarrow> covers mode held)"
  using assms
proof (induction rs arbitrary: m)
  case Nil
  then show ?case by (simp add: modes.cov_refl split: option.splits)
next
  case (Cons r rs)
  let ?res = "req_resource r" and ?mode = "req_mode r"
  obtain c where c: "normalize_into (bt_insert ?res c m) rs = Inr m'"
    and cc: "case hm_get m ?res of None \<Rightarrow> c = ?mode | Some held \<Rightarrow> strongest held ?mode = Inr c"
    using Cons.prems by (cases "hm_get m ?res") (auto simp: and_then_Inr_iff)
  have c_up: "covers c ?mode" "\<forall>held. hm_get m ?res = Some held \<longrightarrow> covers c held"
    using cc by (auto split: option.splits simp: modes.cov_refl dest: modes.join_upper)
  have c_in: "c = ?mode \<or> hm_get m ?res = Some c"
    using cc by (auto split: option.splits dest: modes.join_cases)
  show ?case
  proof (cases "res = ?res")
    case True
    with Cons.IH [OF c] c_up c_in show ?thesis
      by (auto simp: col_simps split: option.splits dest: modes.cov_trans)
  next
    case False
    with Cons.IH [OF c] show ?thesis by (auto simp: col_simps split: option.splits)
  qed
qed

text \<open>
  C33: a batch of lock requests is normalised into the global acquisition order. The batch is
  accepted exactly when every request's mode fits its resource; the result is strictly
  ascending in the resource order (so two sessions never take the same resources in opposite
  orders), names exactly the requested resources, and asks for each the strongest mode
  requested for it.
\<close>

theorem normalize_requests_correct:
  "((\<exists>ns. normalize_requests rs = Inr ns) \<longleftrightarrow>
      (\<forall>r \<in> set rs. mode_fits (req_resource r) (req_mode r)))
   \<and> (normalize_requests rs = Inr ns \<longrightarrow>
      sorted_wrt (<) (map req_resource ns)
      \<and> req_resource ` set ns = req_resource ` set rs
      \<and> (\<forall>n \<in> set ns. (\<exists>r \<in> set rs. req_resource r = req_resource n \<and> req_mode r = req_mode n)
            \<and> (\<forall>r \<in> set rs. req_resource r = req_resource n \<longrightarrow> covers (req_mode n) (req_mode r))))"
proof (intro conjI impI)
  show "(\<exists>ns. normalize_requests rs = Inr ns) \<longleftrightarrow>
      (\<forall>r \<in> set rs. mode_fits (req_resource r) (req_mode r))"
    using normalize_into_ok [of rs "[]"] normalize_into_fits [of "[]" rs]
    by (auto simp: normalize_requests_def and_then_Inr_iff)
next
  assume "normalize_requests rs = Inr ns"
  then obtain m where m: "normalize_into [] rs = Inr m"
    and ns: "ns = map (\<lambda>(res, mode). \<lparr>req_resource = res, req_mode = mode\<rparr>) m"
    by (auto simp: normalize_requests_def and_then_Inr_iff)
  have wf: "bt_wf m" using m by (rule normalize_into_wf) simp
  have keys: "map req_resource ns = map fst m" by (simp add: ns split_def)
  show "sorted_wrt (<) (map req_resource ns)" using wf unfolding keys bt_wf_def .
  have entry: "n \<in> set ns \<Longrightarrow> hm_get m (req_resource n) = Some (req_mode n)" for n
    using get_entries [OF bt_wf_map_wf [OF wf]] by (auto simp: ns)
  have "req_resource ` set ns = set (map fst m)" by (metis keys list.set_map)
  also have "\<dots> = req_resource ` set rs"
  proof (rule set_eqI)
    fix x
    show "x \<in> set (map fst m) \<longleftrightarrow> x \<in> req_resource ` set rs"
      using normalize_into_get [OF m, of x] unfolding get_keys by (auto split: option.splits)
  qed
  finally show "req_resource ` set ns = req_resource ` set rs" .
  show "\<forall>n \<in> set ns. (\<exists>r \<in> set rs. req_resource r = req_resource n \<and> req_mode r = req_mode n)
      \<and> (\<forall>r \<in> set rs. req_resource r = req_resource n \<longrightarrow> covers (req_mode n) (req_mode r))"
  proof
    fix n assume "n \<in> set ns"
    with normalize_into_get [OF m, of "req_resource n"] entry [of n]
    show "(\<exists>r \<in> set rs. req_resource r = req_resource n \<and> req_mode r = req_mode n)
      \<and> (\<forall>r \<in> set rs. req_resource r = req_resource n \<longrightarrow> covers (req_mode n) (req_mode r))"
      by simp
  qed
qed

theorem normalize_requests_correct_witness:
  "normalize_requests [table_request 7 RowExclusive, schema_request 1 CatAccess,
      table_request 7 AccessShare :: nat object_lock_request] =
     Inr [schema_request 1 CatAccess, table_request 7 RowExclusive]
   \<and> sorted_wrt (<) (map req_resource [schema_request 1 CatAccess, table_request 7 RowExclusive :: nat object_lock_request])"
proof -
  have "normalize_requests [table_request 7 RowExclusive, schema_request 1 CatAccess,
      table_request 7 AccessShare :: nat object_lock_request] =
     Inr [schema_request 1 CatAccess, table_request 7 RowExclusive]"
    by code_simp
  with normalize_requests_correct show ?thesis by blast
qed

end
