(* ===== verification/Wait_Graph.thy ===== *)
theory Wait_Graph
  imports Prelude
begin

text \<open>
  Deadlock detection: \<open>on_cycle\<close> of crates/server/src/lock_manager.rs, the depth-first search of
  the wait-for graph. The nested function \<open>visit\<close> and its loop over the successors are the two
  mutually recursive functions below; they thread the visited set the way the code shares it
  by mutable reference. The recursion consumes one new node per call of \<open>visit\<close>, so a bound by
  the number of edges is never reached: the theorem below has no case for it.
\<close>

type_synonym 'a wait_graph = "('a, 'a list) hash_map"

fun visit :: "nat \<Rightarrow> 'a::linorder wait_graph \<Rightarrow> 'a \<Rightarrow> 'a \<Rightarrow> 'a list \<Rightarrow> bool \<times> 'a list"
  and visit_successors :: "nat \<Rightarrow> 'a wait_graph \<Rightarrow> 'a list \<Rightarrow> 'a \<Rightarrow> 'a list \<Rightarrow> bool \<times> 'a list" where
  "visit 0 graph current start visited = (False, visited)"
| "visit (Suc n) graph current start visited =
     (case hm_get graph current of
        None \<Rightarrow> (False, visited)
      | Some successors \<Rightarrow> visit_successors n graph successors start visited)"
| "visit_successors n graph [] start visited = (False, visited)"
| "visit_successors n graph (node # successors) start visited =
     (if node = start then (True, visited)
      else if node \<notin> set visited then
        (case visit n graph node start (insort_insert node visited) of
           (True, visited) \<Rightarrow> (True, visited)
         | (False, visited) \<Rightarrow> visit_successors n graph successors start visited)
      else visit_successors n graph successors start visited)"

definition on_cycle :: "'a::linorder wait_graph \<Rightarrow> 'a \<Rightarrow> bool" where
  "on_cycle graph start =
     fst (visit (Suc (length (concat (hm_values graph)))) graph start start [start])"

section \<open>Reachability\<close>

abbreviation successors_of :: "'a wait_graph \<Rightarrow> 'a \<Rightarrow> 'a list" where
  "successors_of g x \<equiv> get_default [] g x"

definition waits :: "'a wait_graph \<Rightarrow> ('a \<times> 'a) set" where
  "waits g = {(a, b). b \<in> set (successors_of g a)}"

definition targets :: "'a wait_graph \<Rightarrow> 'a set" where
  "targets g = set (concat (hm_values g))"

lemma finite_targets [simp]: "finite (targets g)"
  by (simp add: targets_def)

lemma get_targets: "hm_get g x = Some ys \<Longrightarrow> set ys \<subseteq> targets g"
  by (auto simp: targets_def dest!: map_of_SomeD)

lemma card_targets: "card (targets g) \<le> length (concat (hm_values g))"
  unfolding targets_def by (rule card_length)

lemma card_less_insert:
  "node \<in> targets g \<Longrightarrow> node \<notin> set v \<Longrightarrow>
     card (targets g - set (insort_insert node v)) < card (targets g - set v)"
  by (intro psubset_card_mono) (auto simp: set_insort_insert)

text \<open>A search that reports a cycle has found a path.\<close>

lemma visit_sound:
  "fst (visit n g cur start v) \<Longrightarrow> (cur, start) \<in> (waits g)\<^sup>+"
  "fst (visit_successors n g ys start v) \<Longrightarrow> \<exists>y \<in> set ys. (y, start) \<in> (waits g)\<^sup>*"
proof (induction n g cur start v and n g ys start v rule: visit_visit_successors.induct)
  case (2 n g cur start v)
  then obtain ys y where "hm_get g cur = Some ys" "y \<in> set ys" "(y, start) \<in> (waits g)\<^sup>*"
    by (auto split: option.splits)
  moreover from this have "(cur, y) \<in> waits g" by (simp add: waits_def get_default_def)
  ultimately show ?case by (rule_tac rtrancl_into_trancl2)
next
  case (4 n g y ys start v)
  then show ?case
    by (cases "visit n g y start (insort_insert y v)")
      (fastforce intro: trancl_into_rtrancl split: if_splits bool.splits)
qed simp_all

text \<open>
  A search that reports none has visited a set that is closed under the waits-for relation
  and from which \<open>start\<close> is not waited for.
\<close>

definition closed_new :: "'a wait_graph \<Rightarrow> 'a \<Rightarrow> 'a set \<Rightarrow> 'a set \<Rightarrow> bool" where
  "closed_new g start V V' \<longleftrightarrow> V \<subseteq> V' \<and>
     (\<forall>x \<in> V' - V. set (successors_of g x) \<subseteq> V' \<and> start \<notin> set (successors_of g x))"

lemma closed_new_trans:
  "closed_new g start V V' \<Longrightarrow> closed_new g start V' V'' \<Longrightarrow> closed_new g start V V''"
  unfolding closed_new_def by blast

lemma closed_new_refl [simp]: "closed_new g start V V"
  by (simp add: closed_new_def)

lemma closed_new_insert:
  "closed_new g start (insert y V) V' \<Longrightarrow> set (successors_of g y) \<subseteq> V' \<Longrightarrow>
     start \<notin> set (successors_of g y) \<Longrightarrow> closed_new g start V V'"
  unfolding closed_new_def by blast

lemma visit_complete:
  "visit n g cur start v = (False, v') \<Longrightarrow> card (targets g - set v) < n \<Longrightarrow>
     closed_new g start (set v) (set v') \<and> set (successors_of g cur) \<subseteq> set v'
     \<and> start \<notin> set (successors_of g cur)"
  "visit_successors n g ys start v = (False, v') \<Longrightarrow> card (targets g - set v) \<le> n \<Longrightarrow>
     set ys \<subseteq> targets g \<Longrightarrow>
     closed_new g start (set v) (set v') \<and> set ys \<subseteq> set v' \<and> start \<notin> set ys"
proof (induction n g cur start v and n g ys start v arbitrary: v' and v'
    rule: visit_visit_successors.induct)
  case (2 n g cur start v)
  then show ?case
    by (cases "hm_get g cur") (auto simp: get_default_def dest: get_targets)
next
  case (4 n g y ys start v)
  note prems = "4.prems"
  have y: "y \<noteq> start" using prems(1) by (auto split: if_splits)
  show ?case
  proof (cases "y \<in> set v")
    case True
    then have rest: "visit_successors n g ys start v = (False, v')" using prems(1) y by simp
    have "closed_new g start (set v) (set v') \<and> set ys \<subseteq> set v' \<and> start \<notin> set ys"
      using "4.IH"(3) y True rest prems by simp
    with True y show ?thesis by (auto simp: closed_new_def)
  next
    case False
    obtain b v1 where v1: "visit n g y start (insort_insert y v) = (b, v1)" by (cases "visit n g y start (insort_insert y v)")
    have b: "\<not> b" and rest: "visit_successors n g ys start v1 = (False, v')"
      using prems(1) y False v1 by (auto split: bool.splits)
    have "card (targets g - set (insort_insert y v)) < n"
      using card_less_insert [of y g v] False prems(2,3) by simp
    then have c1: "closed_new g start (insert y (set v)) (set v1)"
      and s1: "set (successors_of g y) \<subseteq> set v1" "start \<notin> set (successors_of g y)"
      using "4.IH"(1) [OF y False, of v1] v1 b by (simp_all add: set_insort_insert)
    then have c: "closed_new g start (set v) (set v1)" by (rule closed_new_insert)
    have "card (targets g - set v1) \<le> card (targets g - set v)"
      using c by (intro card_mono) (auto simp: closed_new_def)
    then have c2: "closed_new g start (set v1) (set v') \<and> set ys \<subseteq> set v' \<and> start \<notin> set ys"
      using "4.IH"(2) [OF y False v1 [symmetric]] b rest prems by simp
    then have "closed_new g start (set v) (set v')" using c by (blast intro: closed_new_trans)
    moreover have "y \<in> set v'" using c1 c2 by (auto simp: closed_new_def)
    ultimately show ?thesis using c2 y by simp
  qed
qed auto

text \<open>
  C6: the deadlock detector is exact. It reports a cycle for an owner exactly when that owner
  waits for itself through the wait-for graph, and it always answers: no deadlocked owner is
  missed and no owner outside a cycle is aborted.
\<close>

theorem on_cycle_iff_waits_for_itself:
  "on_cycle graph owner \<longleftrightarrow> (owner, owner) \<in> (waits graph)\<^sup>+"
proof
  assume "on_cycle graph owner"
  then show "(owner, owner) \<in> (waits graph)\<^sup>+" unfolding on_cycle_def by (rule visit_sound)
next
  assume cyc: "(owner, owner) \<in> (waits graph)\<^sup>+"
  show "on_cycle graph owner"
  proof (rule ccontr)
    assume no: "\<not> on_cycle graph owner"
    obtain v' where v': "visit (Suc (length (concat (hm_values graph)))) graph owner owner [owner] = (False, v')"
      using no by (cases "visit (Suc (length (concat (hm_values graph)))) graph owner owner [owner]")
        (auto simp: on_cycle_def)
    have "card (targets graph - set [owner]) < Suc (length (concat (hm_values graph)))"
      using card_targets [of graph] card_mono [of "targets graph" "targets graph - {owner}"]
      by (simp add: less_Suc_eq_le)
    from visit_complete(1) [OF v' this]
    have cl: "closed_new graph owner {owner} (set v')" "set (successors_of graph owner) \<subseteq> set v'"
      "owner \<notin> set (successors_of graph owner)" by simp_all
    have "y \<in> set v' \<and> y \<noteq> owner" if "(owner, y) \<in> (waits graph)\<^sup>+" for y
      using that
    proof (induction rule: trancl_induct)
      case (base y)
      with cl show ?case by (auto simp: waits_def)
    next
      case (step y z)
      with cl(1) show ?case by (fastforce simp: waits_def closed_new_def)
    qed
    with cyc show False by blast
  qed
qed

end
