(* ===== verification/Cancel.thy ===== *)
theory Cancel
  imports Prelude
begin

text \<open>
  Statement cancellation: crates/common/src/cancel.rs. The atomic byte is the state of the
  token; \<open>request\<close> is its compare-and-exchange.
\<close>

datatype cancel_reason = UserRequest | StatementTimeout

fun cancel_code :: "cancel_reason \<Rightarrow> u8" where
  "cancel_code UserRequest = 1"
| "cancel_code StatementTimeout = 2"

definition NOT_CANCELED :: u8 where "NOT_CANCELED = 0"

type_synonym query_cancel = u8

definition cancel_new :: query_cancel where "cancel_new = NOT_CANCELED"

definition cancel_request :: "cancel_reason \<Rightarrow> query_cancel \<Rightarrow> query_cancel" where
  "cancel_request r c = (if c = NOT_CANCELED then cancel_code r else c)"

definition cancel_reset :: "query_cancel \<Rightarrow> query_cancel" where
  "cancel_reset c = NOT_CANCELED"

definition cancel_reason_of :: "query_cancel \<Rightarrow> cancel_reason option" where
  "cancel_reason_of c =
     (if c = NOT_CANCELED then None
      else if c = cancel_code UserRequest then Some UserRequest
      else if c = cancel_code StatementTimeout then Some StatementTimeout
      else None)"

definition cancel_check :: "query_cancel \<Rightarrow> unit result" where
  "cancel_check c =
     (case cancel_reason_of c of
        None \<Rightarrow> Inr ()
      | Some UserRequest \<Rightarrow>
          Inl (db_execute QueryCanceled ''canceling statement due to user request'')
      | Some StatementTimeout \<Rightarrow>
          Inl (db_execute QueryCanceled ''canceling statement due to statement timeout''))"

lemma cancel_reason_request:
  "cancel_reason_of (cancel_request r cancel_new) = Some r"
  by (cases r) (simp_all add: cancel_reason_of_def cancel_request_def cancel_new_def NOT_CANCELED_def)

lemma cancel_check_reason: "cancel_check c = Inr () \<longleftrightarrow> cancel_reason_of c = None"
  by (simp add: cancel_check_def split: option.splits cancel_reason.splits)

text \<open>
  C34: the first cancellation wins until the token is reset. After a first request any sequence
  of further requests leaves its reason in place and the check failing; a reset clears it.
\<close>

theorem first_cancellation_wins:
  "cancel_reason_of (fold cancel_request rs (cancel_request r cancel_new)) = Some r
   \<and> cancel_check (fold cancel_request rs (cancel_request r cancel_new)) \<noteq> Inr ()
   \<and> cancel_check (cancel_reset c) = Inr ()"
proof -
  have stay: "fold cancel_request rs (cancel_code r) = cancel_code r" for rs r
    by (induction rs) (auto simp: cancel_request_def NOT_CANCELED_def elim: cancel_code.elims)
  have "cancel_request r cancel_new = cancel_code r"
    by (simp add: cancel_request_def cancel_new_def)
  then have "cancel_reason_of (fold cancel_request rs (cancel_request r cancel_new)) = Some r"
    using stay cancel_reason_request [of r] by simp
  then show ?thesis
    by (simp add: cancel_check_reason) (simp add: cancel_reset_def cancel_reason_of_def)
qed

end
