(* ===== verification/Lock_Manager.thy ===== *)
theory Lock_Manager
  imports Lock_Modes Wait_Graph Registry Cancel
begin

text \<open>
  The lock manager: \<open>LockManager\<close>, \<open>ObjectLockGuard\<close> and their trait implementations in
  crates/server/src/lock_manager.rs. Every section that holds the state mutex is one function.
  A blocking acquisition is split where the code releases the mutex: \<open>acquire_start\<close> runs up to
  the loop, \<open>acquire_poll\<close> is one iteration up to the wait on the condition variable, and
  \<open>acquire_detect\<close> is the deadlock check after a wait. A method that fails after it changed the
  state returns the changed state beside the error.
\<close>

section \<open>State\<close>

record queued_request =
  q_id :: u64
  q_owner :: lock_owner
  q_mode :: object_lock_mode

record 'k lock_state =
  active_owners :: "lock_owner list"
  waits_for :: "lock_owner wait_graph"
  grants :: "('k lock_resource, (lock_owner, object_lock_mode) btree_map) btree_map"
  queues :: "('k lock_resource, queued_request list) btree_map"
  tuple_grant_generations :: "('k lock_resource \<times> lock_owner, u64) btree_map"
  next_tuple_grant_generation :: u64

record 'k lock_manager =
  lm_id :: u64
  lm_state :: "'k lock_state"
  lm_next_guard_id :: u64
  lm_next_statement_owner :: u64
  lm_next_request_id :: u64

record object_lock_guard =
  guard_owner :: lock_owner
  guard_id :: u64

record 'k owner_grant_snapshot =
  ogs_manager_id :: u64
  ogs_guard_id :: u64
  ogs_owner :: lock_owner
  ogs_grants :: "('k lock_resource, object_lock_mode) btree_map"

record 'k tuple_lock_tag =
  tag_table :: u32
  tag_key :: 'k

record 'k tuple_grant_receipt =
  rc_manager_id :: u64
  rc_owner :: txn_id
  rc_tag :: "'k tuple_lock_tag"
  rc_previous :: "tuple_lock_mode option"
  rc_previous_generation :: "u64 option"
  rc_granted :: tuple_lock_mode
  rc_granted_generation :: u64

text \<open>A receipt is type-erased; \<open>None\<close> stands for a payload that is not the manager's.\<close>

type_synonym 'k tuple_lock_grant_change = "'k tuple_grant_receipt option"

datatype acquire_one =
    Acquired "object_lock_mode option" "u64 option" object_lock_mode "u64 option"
  | Skipped

datatype acquire_started =
    Covered acquire_one
  | Queued u64 "object_lock_mode option" "u64 option"

datatype acquire_poll_outcome = PollFailed db_error | PollDone acquire_one | PollWait

section \<open>Helpers on the state\<close>

definition next_id :: "u64 \<Rightarrow> string \<Rightarrow> (u64 \<times> u64) result" where
  "next_id counter name =
     (case checked_succ counter of
        None \<Rightarrow> Inl (db_internal (name @ '' id space exhausted''))
      | Some succ \<Rightarrow> Inr (counter, succ))"

definition held :: "'k lock_state \<Rightarrow> 'k lock_resource \<Rightarrow> lock_owner \<Rightarrow> object_lock_mode option" where
  "held st res owner =
     (case hm_get (grants st) res of None \<Rightarrow> None | Some owners \<Rightarrow> hm_get owners owner)"

definition generation_of :: "'k lock_state \<Rightarrow> 'k lock_resource \<Rightarrow> lock_owner \<Rightarrow> u64 option" where
  "generation_of st res owner = hm_get (tuple_grant_generations st) (res, owner)"

definition insert_grant ::
  "'k::linorder lock_resource \<Rightarrow> lock_owner \<Rightarrow> object_lock_mode \<Rightarrow> 'k lock_state \<Rightarrow> 'k lock_state" where
  "insert_grant res owner mode st =
     st\<lparr>grants := bt_upsert [] res (bt_insert owner mode) (grants st)\<rparr>"

definition remove_grant ::
  "'k::linorder lock_resource \<Rightarrow> lock_owner \<Rightarrow> 'k lock_state \<Rightarrow> 'k lock_state" where
  "remove_grant res owner st = st\<lparr>grants := bt_shrink [] res (hm_remove owner) (grants st)\<rparr>"

definition insert_generation ::
  "'k::linorder lock_resource \<Rightarrow> lock_owner \<Rightarrow> u64 \<Rightarrow> 'k lock_state \<Rightarrow> 'k lock_state" where
  "insert_generation res owner g st =
     st\<lparr>tuple_grant_generations := bt_insert (res, owner) g (tuple_grant_generations st)\<rparr>"

definition clear_wait :: "lock_owner \<Rightarrow> 'k lock_state \<Rightarrow> 'k lock_state" where
  "clear_wait owner st = st\<lparr>waits_for := hm_remove owner (waits_for st)\<rparr>"

definition drop_owner_grants :: "lock_owner \<Rightarrow> 'k lock_state \<Rightarrow> 'k lock_state" where
  "drop_owner_grants owner st =
     st\<lparr>grants := hm_retain (\<lambda>_ owners. owners \<noteq> []) (hm_map_values (hm_remove owner) (grants st)),
        tuple_grant_generations :=
          hm_retain (\<lambda>(_, grant_owner) _. grant_owner \<noteq> owner) (tuple_grant_generations st)\<rparr>"

definition remove_request ::
  "'k::linorder lock_resource \<Rightarrow> u64 \<Rightarrow> 'k lock_state \<Rightarrow> 'k lock_state" where
  "remove_request res request_id st =
     st\<lparr>queues := bt_shrink [] res (filter (\<lambda>q. q_id q \<noteq> request_id)) (queues st)\<rparr>"

definition holder_blockers ::
  "lock_owner \<Rightarrow> object_lock_mode \<Rightarrow> (lock_owner, object_lock_mode) btree_map \<Rightarrow> lock_owner list" where
  "holder_blockers owner mode owners =
     map fst (filter (\<lambda>(holder, m). holder \<noteq> owner \<and> \<not> compatible mode m) owners)"

definition queue_blockers ::
  "u64 \<Rightarrow> lock_owner \<Rightarrow> object_lock_mode \<Rightarrow> queued_request list \<Rightarrow> lock_owner list" where
  "queue_blockers request_id owner mode queue =
     map q_owner (filter (\<lambda>q. q_owner q \<noteq> owner \<and> \<not> compatible mode (q_mode q))
       (takeWhile (\<lambda>q. q_id q \<noteq> request_id) queue))"

definition request_blockers ::
  "'k lock_state \<Rightarrow> 'k lock_resource \<Rightarrow> u64 \<Rightarrow> lock_owner \<Rightarrow> object_lock_mode \<Rightarrow> lock_owner list" where
  "request_blockers st res request_id owner mode =
     (let blockers = (case hm_get (grants st) res of
                        None \<Rightarrow> []
                      | Some owners \<Rightarrow> fold insort_insert (holder_blockers owner mode owners) [])
      in case hm_get (queues st) res of
           None \<Rightarrow> blockers
         | Some queue \<Rightarrow> fold insort_insert (queue_blockers request_id owner mode queue) blockers)"

section \<open>Owners\<close>

definition lock_state_default :: "'k lock_state" where
  "lock_state_default = \<lparr>active_owners = [], waits_for = [], grants = [], queues = [],
     tuple_grant_generations = [], next_tuple_grant_generation = 0\<rparr>"

definition lock_manager_new :: "u64 \<Rightarrow> ('k lock_manager \<times> u64) result" where
  "lock_manager_new next_manager_id =
     and_then (next_id next_manager_id ''lock manager'') (\<lambda>(i, n).
       Inr (\<lparr>lm_id = i, lm_state = lock_state_default, lm_next_guard_id = 1,
             lm_next_statement_owner = 1, lm_next_request_id = 1\<rparr>, n))"

definition register_owner :: "lock_owner \<Rightarrow> 'k lock_state \<Rightarrow> 'k lock_state result" where
  "register_owner owner st =
     (if owner \<in> set (active_owners st)
      then Inl (db_internal ''lock owner already has a lifetime guard'')
      else Inr (st\<lparr>active_owners := insort_insert owner (active_owners st)\<rparr>))"

definition create_guard :: "lock_owner \<Rightarrow> 'k lock_manager \<Rightarrow> object_lock_guard result \<times> 'k lock_manager" where
  "create_guard owner lm =
     (case next_id (lm_next_guard_id lm) ''object lock guard'' of
        Inl e \<Rightarrow> (Inl e, lm)
      | Inr (gid, n) \<Rightarrow>
          let lm = lm\<lparr>lm_next_guard_id := n\<rparr>
          in case register_owner owner (lm_state lm) of
               Inl e \<Rightarrow> (Inl e, lm)
             | Inr st \<Rightarrow> (Inr \<lparr>guard_owner = owner, guard_id = gid\<rparr>, lm\<lparr>lm_state := st\<rparr>))"

definition statement_owner :: "'k lock_manager \<Rightarrow> object_lock_guard result \<times> 'k lock_manager" where
  "statement_owner lm =
     (case next_id (lm_next_statement_owner lm) ''statement lock owner'' of
        Inl e \<Rightarrow> (Inl e, lm)
      | Inr (i, n) \<Rightarrow> create_guard (Statement i) (lm\<lparr>lm_next_statement_owner := n\<rparr>))"

definition transaction_owner ::
  "registry \<Rightarrow> txn_id \<Rightarrow> 'k lock_manager \<Rightarrow> object_lock_guard result \<times> 'k lock_manager" where
  "transaction_owner reg xid lm = create_guard (Transaction (top_of reg xid)) lm"

definition waiting_owner_count :: "'k lock_manager \<Rightarrow> nat" where
  "waiting_owner_count lm = length (waits_for (lm_state lm))"

section \<open>Acquisition\<close>

definition acquire_start ::
  "lock_owner \<Rightarrow> 'k::linorder object_lock_request \<Rightarrow> 'k lock_manager \<Rightarrow>
   acquire_started result \<times> 'k lock_manager" where
  "acquire_start owner request lm =
     (let st = lm_state lm; res = req_resource request in
      case validate_request request of
        Inl e \<Rightarrow> (Inl e, lm)
      | Inr _ \<Rightarrow>
          if owner \<notin> set (active_owners st)
          then (Inl (db_internal ''lock owner has no lifetime guard''), lm)
          else
            let previous = held st res owner;
                previous_generation = generation_of st res owner
            in if (case previous of Some h \<Rightarrow> covers h (req_mode request) | None \<Rightarrow> False)
               then (Inr (Covered (Acquired previous previous_generation (the previous)
                                   previous_generation)), lm)
               else case next_id (lm_next_request_id lm) ''object lock request'' of
                      Inl e \<Rightarrow> (Inl e, lm)
                    | Inr (rid, n) \<Rightarrow>
                        (Inr (Queued rid previous previous_generation),
                         lm\<lparr>lm_next_request_id := n,
                            lm_state := st\<lparr>queues := bt_upsert [] res
                              (\<lambda>q. q @ [\<lparr>q_id = rid, q_owner = owner, q_mode = req_mode request\<rparr>])
                              (queues st)\<rparr>\<rparr>))"

definition withdraw ::
  "'k::linorder lock_resource \<Rightarrow> u64 \<Rightarrow> lock_owner \<Rightarrow> 'k lock_state \<Rightarrow> 'k lock_state" where
  "withdraw res rid owner st = clear_wait owner (remove_request res rid st)"

fun is_tuple_mode :: "object_lock_mode \<Rightarrow> bool" where
  "is_tuple_mode (TupleMode _) = True"
| "is_tuple_mode _ = False"

definition grant_request ::
  "lock_owner \<Rightarrow> 'k::linorder object_lock_request \<Rightarrow> u64 \<Rightarrow> object_lock_mode option \<Rightarrow> u64 option \<Rightarrow>
   'k lock_state \<Rightarrow> acquire_poll_outcome \<times> 'k lock_state" where
  "grant_request owner request rid previous previous_generation st =
     (let res = req_resource request; st = remove_request res rid st in
      case (case previous of Some h \<Rightarrow> strongest h (req_mode request) | None \<Rightarrow> Inr (req_mode request)) of
        Inl e \<Rightarrow> (PollFailed e, clear_wait owner st)
      | Inr granted \<Rightarrow>
          if is_tuple_mode (req_mode request) then
            (case checked_succ (next_tuple_grant_generation st) of
               None \<Rightarrow> (PollFailed (db_internal ''tuple grant generation exhausted''), clear_wait owner st)
             | Some g \<Rightarrow>
                 (PollDone (Acquired previous previous_generation granted (Some g)),
                  clear_wait owner (insert_grant res owner granted
                    (insert_generation res owner g (st\<lparr>next_tuple_grant_generation := g\<rparr>)))))
          else (PollDone (Acquired previous previous_generation granted None),
                clear_wait owner (insert_grant res owner granted st)))"

definition acquire_poll ::
  "query_cancel \<Rightarrow> tuple_lock_wait_policy \<Rightarrow> lock_owner \<Rightarrow> 'k::linorder object_lock_request \<Rightarrow> u64 \<Rightarrow>
   object_lock_mode option \<Rightarrow> u64 option \<Rightarrow> 'k lock_state \<Rightarrow> acquire_poll_outcome \<times> 'k lock_state" where
  "acquire_poll cancel wait_policy owner request rid previous previous_generation st =
     (let res = req_resource request in
      case cancel_check cancel of
        Inl e \<Rightarrow> (PollFailed e, withdraw res rid owner st)
      | Inr _ \<Rightarrow>
          let blockers = request_blockers st res rid owner (req_mode request)
          in if blockers = [] then grant_request owner request rid previous previous_generation st
             else case wait_policy of
               NoWait \<Rightarrow> (PollFailed (db_execute LockNotAvailable ''could not obtain tuple lock on row''),
                          withdraw res rid owner st)
             | SkipLocked \<Rightarrow> (PollDone Skipped, withdraw res rid owner st)
             | Block \<Rightarrow> (PollWait, st\<lparr>waits_for := hm_insert owner blockers (waits_for st)\<rparr>))"

definition deadlock_error :: db_error where
  "deadlock_error = db_execute DeadlockDetected ''deadlock detected''"

definition acquire_detect ::
  "bool \<Rightarrow> lock_owner \<Rightarrow> 'k::linorder object_lock_request \<Rightarrow> u64 \<Rightarrow> 'k lock_state \<Rightarrow>
   db_error option \<times> 'k lock_state" where
  "acquire_detect timeout_elapsed owner request rid st =
     (if timeout_elapsed \<and> on_cycle (waits_for st) owner
      then (Some deadlock_error, withdraw (req_resource request) rid owner st)
      else (None, st))"

section \<open>Restoring and releasing\<close>

fun simulate_restore ::
  "u64 \<Rightarrow> lock_owner \<Rightarrow> txn_id \<Rightarrow> 'k::linorder lock_state \<Rightarrow> 'k tuple_lock_grant_change list \<Rightarrow>
   ('k lock_resource, object_lock_mode option \<times> u64 option) btree_map \<Rightarrow>
   ('k lock_resource, object_lock_mode option \<times> u64 option) btree_map result" where
  "simulate_restore mid owner owner_xid st [] simulated = Inr simulated"
| "simulate_restore mid owner owner_xid st (change # changes) simulated =
     (case change of
        None \<Rightarrow> Inl (db_internal ''invalid tuple lock receipt payload'')
      | Some receipt \<Rightarrow>
          if rc_manager_id receipt \<noteq> mid \<or> rc_owner receipt \<noteq> owner_xid
          then Inl (db_internal ''tuple lock receipt belongs to a different manager or owner'')
          else
            let res = Tuple (tag_table (rc_tag receipt)) (tag_key (rc_tag receipt));
                current = (case hm_get simulated res of
                             Some c \<Rightarrow> c
                           | None \<Rightarrow> (held st res owner, generation_of st res owner))
            in if current \<noteq> (Some (TupleMode (rc_granted receipt)), Some (rc_granted_generation receipt))
               then Inl (db_internal ''tuple lock grant changed before acquisition rollback'')
               else simulate_restore mid owner owner_xid st changes
                      (bt_insert res (map_option TupleMode (rc_previous receipt),
                                      rc_previous_generation receipt) simulated))"

fun apply_restore ::
  "lock_owner \<Rightarrow> ('k::linorder lock_resource, object_lock_mode option \<times> u64 option) btree_map \<Rightarrow>
   'k lock_state \<Rightarrow> unit result \<times> 'k lock_state" where
  "apply_restore owner [] st = (Inr (), st)"
| "apply_restore owner ((res, restored, restored_generation) # rest) st =
     (case restored of
        Some mode \<Rightarrow>
          (let st = insert_grant res owner mode st in
           case restored_generation of
             None \<Rightarrow> (Inl (db_internal ''restored tuple grant has no generation''), st)
           | Some g \<Rightarrow> apply_restore owner rest (insert_generation res owner g st))
      | None \<Rightarrow>
          apply_restore owner rest
            ((remove_grant res owner st)\<lparr>tuple_grant_generations :=
               hm_remove (res, owner) (tuple_grant_generations st)\<rparr>))"

definition restore_tuple_changes ::
  "lock_owner \<Rightarrow> 'k::linorder tuple_lock_grant_change list \<Rightarrow> 'k lock_manager \<Rightarrow>
   unit result \<times> 'k lock_manager" where
  "restore_tuple_changes owner changes lm =
     (let st = lm_state lm in
      if owner \<notin> set (active_owners st)
      then (Inl (db_internal ''lock owner has no lifetime guard''), lm)
      else case owner of
        Statement _ \<Rightarrow> (Inl (db_internal ''statement owners cannot restore tuple lock grants''), lm)
      | Transaction owner_xid \<Rightarrow>
          (case simulate_restore (lm_id lm) owner owner_xid st (rev changes) [] of
             Inl e \<Rightarrow> (Inl e, lm)
           | Inr simulated \<Rightarrow>
               (case apply_restore owner simulated st of
                  (Inl e, st) \<Rightarrow> (Inl e, lm\<lparr>lm_state := st\<rparr>)
                | (Inr _, st) \<Rightarrow> (Inr (), lm\<lparr>lm_state := clear_wait owner st\<rparr>))))"

definition owner_snapshot :: "lock_owner \<Rightarrow> u64 \<Rightarrow> 'k lock_manager \<Rightarrow> 'k owner_grant_snapshot" where
  "owner_snapshot owner gid lm =
     \<lparr>ogs_manager_id = lm_id lm, ogs_guard_id = gid, ogs_owner = owner,
      ogs_grants = List.map_filter (\<lambda>(res, owners). map_option (\<lambda>m. (res, m)) (hm_get owners owner))
                     (grants (lm_state lm))\<rparr>"

fun number_grants ::
  "('k lock_resource, object_lock_mode) btree_map \<Rightarrow> u64 \<Rightarrow>
   (('k lock_resource \<times> object_lock_mode \<times> u64 option) list \<times> u64) result" where
  "number_grants [] n = Inr ([], n)"
| "number_grants ((res, mode) # rest) n =
     (if is_tuple_mode mode then
        (case checked_succ n of
           None \<Rightarrow> Inl (db_internal ''tuple grant generation exhausted'')
         | Some g \<Rightarrow> and_then (number_grants rest g) (\<lambda>(out, m). Inr ((res, mode, Some g) # out, m)))
      else and_then (number_grants rest n) (\<lambda>(out, m). Inr ((res, mode, None) # out, m)))"

definition regrant ::
  "lock_owner \<Rightarrow> 'k::linorder lock_resource \<times> object_lock_mode \<times> u64 option \<Rightarrow> 'k lock_state \<Rightarrow> 'k lock_state" where
  "regrant owner = (\<lambda>(res, mode, gen) st.
     let st = insert_grant res owner mode st
     in case gen of None \<Rightarrow> st | Some g \<Rightarrow> insert_generation res owner g st)"

definition restore_owner ::
  "lock_owner \<Rightarrow> u64 \<Rightarrow> 'k::linorder owner_grant_snapshot \<Rightarrow> 'k lock_manager \<Rightarrow>
   unit result \<times> 'k lock_manager" where
  "restore_owner owner gid snap lm =
     (let st = lm_state lm in
      if ogs_manager_id snap \<noteq> lm_id lm \<or> ogs_guard_id snap \<noteq> gid \<or> ogs_owner snap \<noteq> owner
      then (Inl (db_internal ''object lock snapshot belongs to a different lock owner''), lm)
      else if \<not> list_all (\<lambda>(res, mode). case held st res owner of
                              None \<Rightarrow> False | Some h \<Rightarrow> covers h mode) (ogs_grants snap)
      then (Inl (db_internal ''object lock snapshot is stale and cannot restore released grants''), lm)
      else case number_grants (ogs_grants snap) (next_tuple_grant_generation st) of
             Inl e \<Rightarrow> (Inl e, lm)
           | Inr (restored, n) \<Rightarrow>
               (Inr (), lm\<lparr>lm_state := clear_wait owner (fold (regrant owner) restored
                  ((drop_owner_grants owner st)\<lparr>next_tuple_grant_generation := n\<rparr>))\<rparr>))"

definition release_owner :: "lock_owner \<Rightarrow> 'k lock_manager \<Rightarrow> 'k lock_manager" where
  "release_owner owner lm =
     (let st = lm_state lm;
          st = st\<lparr>active_owners := removeAll owner (active_owners st)\<rparr>;
          st = drop_owner_grants owner st;
          st = st\<lparr>queues := hm_retain (\<lambda>_ q. q \<noteq> [])
                  (hm_map_values (filter (\<lambda>q. q_owner q \<noteq> owner)) (queues st))\<rparr>;
          st = clear_wait owner st;
          st = st\<lparr>waits_for := hm_retain (\<lambda>_ blockers. blockers \<noteq> [])
                  (hm_map_values (removeAll owner) (waits_for st))\<rparr>
      in lm\<lparr>lm_state := st\<rparr>)"

definition guard_covers ::
  "object_lock_guard \<Rightarrow> 'k::linorder object_lock_request list \<Rightarrow> 'k lock_manager \<Rightarrow> bool result" where
  "guard_covers g requests lm =
     (let gs = ogs_grants (owner_snapshot (guard_owner g) (guard_id g) lm) in
      and_then (normalize_requests requests) (\<lambda>rs.
        Inr (list_all (\<lambda>r. case hm_get gs (req_resource r) of
                             None \<Rightarrow> False | Some h \<Rightarrow> covers h (req_mode r)) rs)))"

section \<open>Waiting for a transaction\<close>

definition wait_for_start :: "registry \<Rightarrow> txn_id \<Rightarrow> txn_id \<Rightarrow> 'k lock_state \<Rightarrow> 'k lock_state" where
  "wait_for_start reg waiter_subxid blocker_subxid st =
     (let waiter = Transaction (top_of reg waiter_subxid);
          blocker = Transaction (top_of reg blocker_subxid)
      in st\<lparr>waits_for := hm_insert waiter [blocker] (waits_for st)\<rparr>)"

definition wait_for_poll ::
  "registry \<Rightarrow> query_cancel \<Rightarrow> txn_id \<Rightarrow> txn_id \<Rightarrow> 'k lock_state \<Rightarrow> unit result option \<times> 'k lock_state" where
  "wait_for_poll reg cancel waiter_top blocker_subxid st =
     (if \<not> is_active reg blocker_subxid then (Some (Inr ()), clear_wait (Transaction waiter_top) st)
      else case cancel_check cancel of
             Inl e \<Rightarrow> (Some (Inl e), clear_wait (Transaction waiter_top) st)
           | Inr _ \<Rightarrow> (None, st))"

definition wait_for_detect :: "bool \<Rightarrow> txn_id \<Rightarrow> 'k lock_state \<Rightarrow> db_error option \<times> 'k lock_state" where
  "wait_for_detect timeout_elapsed waiter_top st =
     (if timeout_elapsed \<and> on_cycle (waits_for st) (Transaction waiter_top)
      then (Some deadlock_error, clear_wait (Transaction waiter_top) st)
      else (None, st))"

section \<open>Tuple locks\<close>

definition tuple_request :: "'k tuple_lock_tag \<Rightarrow> tuple_lock_mode \<Rightarrow> 'k object_lock_request" where
  "tuple_request tag mode =
     \<lparr>req_resource = Tuple (tag_table tag) (tag_key tag), req_mode = TupleMode mode\<rparr>"

definition acquire_tuple_start ::
  "registry \<Rightarrow> txn_id \<Rightarrow> 'k::linorder tuple_lock_tag \<Rightarrow> tuple_lock_mode \<Rightarrow> 'k lock_manager \<Rightarrow>
   acquire_started result \<times> 'k lock_manager" where
  "acquire_tuple_start reg xid tag mode lm =
     (if \<not> is_active reg xid then (Inl (db_internal ''tuple lock xid is not active''), lm)
      else acquire_start (Transaction (top_of reg xid)) (tuple_request tag mode) lm)"

definition acquire_tuple_receipt ::
  "u64 \<Rightarrow> txn_id \<Rightarrow> 'k tuple_lock_tag \<Rightarrow> acquire_one \<Rightarrow> 'k tuple_lock_grant_change option result" where
  "acquire_tuple_receipt mid owner tag outcome =
     (case outcome of
        Skipped \<Rightarrow> Inr None
      | Acquired previous previous_generation granted granted_generation \<Rightarrow>
          and_then (case previous of
              None \<Rightarrow> Inr None
            | Some (TupleMode m) \<Rightarrow> Inr (Some m)
            | Some _ \<Rightarrow> Inl (db_internal ''tuple resource carried a non-tuple previous mode'')) (\<lambda>prev.
          and_then (case granted of
              TupleMode m \<Rightarrow> Inr m
            | _ \<Rightarrow> Inl (db_internal ''tuple resource carried a non-tuple granted mode'')) (\<lambda>m.
          and_then (ok_or (db_internal ''tuple grant has no generation'') granted_generation) (\<lambda>g.
            Inr (Some (Some \<lparr>rc_manager_id = mid, rc_owner = owner, rc_tag = tag, rc_previous = prev,
                       rc_previous_generation = previous_generation, rc_granted = m,
                       rc_granted_generation = g\<rparr>))))))"

definition restore_tuple_grants ::
  "registry \<Rightarrow> txn_id \<Rightarrow> 'k::linorder tuple_lock_grant_change list \<Rightarrow> 'k lock_manager \<Rightarrow>
   unit result \<times> 'k lock_manager" where
  "restore_tuple_grants reg xid changes lm =
     restore_tuple_changes (Transaction (top_of reg xid)) changes lm"

definition holds_tuple ::
  "registry \<Rightarrow> txn_id \<Rightarrow> 'k tuple_lock_tag \<Rightarrow> tuple_lock_mode \<Rightarrow> 'k lock_manager \<Rightarrow> bool" where
  "holds_tuple reg xid tag mode lm =
     (if \<not> is_active reg xid then False
      else case held (lm_state lm) (Tuple (tag_table tag) (tag_key tag)) (Transaction (top_of reg xid)) of
             None \<Rightarrow> False
           | Some h \<Rightarrow> covers h (TupleMode mode))"

section \<open>What each operation does to the grants\<close>

definition grants_wf :: "'k::linorder lock_state \<Rightarrow> bool" where
  "grants_wf st \<longleftrightarrow> bt_wf (grants st) \<and> bt_wf (tuple_grant_generations st)"

named_theorems lock_simps \<open>holders, generations and owners after an operation\<close>

lemma held_insert_grant [lock_simps]:
  "held (insert_grant res o' m st) r p = (if r = res \<and> p = o' then Some m else held st r p)"
  by (auto simp: held_def insert_grant_def bt.get_upsert get_default_def col_simps split: option.splits)

lemma held_remove_grant [lock_simps]:
  "held (remove_grant res o' st) r p = (if r = res \<and> p = o' then None else held st r p)"
proof (cases "r = res")
  case True
  have "get_default [] (grants (remove_grant res o' st)) res = hm_remove o' (get_default [] (grants st) res)"
    unfolding remove_grant_def by (simp add: bt.default_get_shrink)
  moreover have "held s q x = hm_get (get_default [] (grants s) q) x" for s :: "'a lock_state" and q x
    by (simp add: held_def get_default_def split: option.splits)
  ultimately show ?thesis using True by (simp add: col_simps)
next
  case False
  then show ?thesis by (simp add: held_def remove_grant_def bt.get_shrink_other)
qed

lemma remove_emptyD: "hm_remove k m = [] \<Longrightarrow> j \<noteq> k \<Longrightarrow> hm_get m j = None"
  using get_remove [of k m j] by simp

lemma held_drop_owner_grants [lock_simps]:
  "grants_wf st \<Longrightarrow> held (drop_owner_grants o' st) r p = (if p = o' then None else held st r p)"
  by (auto simp: held_def drop_owner_grants_def grants_wf_def col_simps bt_wf_map_wf remove_emptyD
      split: option.splits)

lemma held_frame [lock_simps]:
  "held (insert_generation res o' g st) = held st"
  "held (clear_wait o' st) = held st"
  "held (remove_request res i st) = held st"
  "held (withdraw res i o' st) = held st"
  "held (st\<lparr>next_tuple_grant_generation := g\<rparr>) = held st"
  "held (st\<lparr>waits_for := w\<rparr>) = held st"
  "held (st\<lparr>queues := q\<rparr>) = held st"
  "held (st\<lparr>active_owners := a\<rparr>) = held st"
  "held (st\<lparr>tuple_grant_generations := gs\<rparr>) = held st"
  by (auto simp: held_def insert_generation_def clear_wait_def remove_request_def withdraw_def
      intro!: ext)

lemma generation_insert [lock_simps]:
  "generation_of (insert_generation res o' g st) r p =
     (if r = res \<and> p = o' then Some g else generation_of st r p)"
  by (simp add: generation_of_def insert_generation_def col_simps)

lemma generation_remove [lock_simps]:
  "generation_of (st\<lparr>tuple_grant_generations := hm_remove (res, o') (tuple_grant_generations st')\<rparr>) r p =
     (if r = res \<and> p = o' then None else generation_of st' r p)"
  by (simp add: generation_of_def col_simps)

lemma generation_drop_owner_grants [lock_simps]:
  "grants_wf st \<Longrightarrow>
     generation_of (drop_owner_grants o' st) r p = (if p = o' then None else generation_of st r p)"
  by (auto simp: generation_of_def drop_owner_grants_def grants_wf_def get_retain bt_wf_map_wf
      split: option.splits)

lemma generation_frame [lock_simps]:
  "generation_of (insert_grant res o' m st) = generation_of st"
  "generation_of (remove_grant res o' st) = generation_of st"
  "generation_of (clear_wait o' st) = generation_of st"
  "generation_of (remove_request res i st) = generation_of st"
  "generation_of (withdraw res i o' st) = generation_of st"
  "generation_of (st\<lparr>next_tuple_grant_generation := g\<rparr>) = generation_of st"
  "generation_of (st\<lparr>waits_for := w\<rparr>) = generation_of st"
  "generation_of (st\<lparr>queues := q\<rparr>) = generation_of st"
  "generation_of (st\<lparr>active_owners := a\<rparr>) = generation_of st"
  by (auto simp: generation_of_def insert_grant_def remove_grant_def clear_wait_def
      remove_request_def withdraw_def intro!: ext)

lemma active_owners_frame [lock_simps]:
  "active_owners (insert_grant res o' m st) = active_owners st"
  "active_owners (remove_grant res o' st) = active_owners st"
  "active_owners (insert_generation res o' g st) = active_owners st"
  "active_owners (clear_wait o' st) = active_owners st"
  "active_owners (remove_request res i st) = active_owners st"
  "active_owners (withdraw res i o' st) = active_owners st"
  "active_owners (drop_owner_grants o' st) = active_owners st"
  by (simp_all add: insert_grant_def remove_grant_def insert_generation_def clear_wait_def
      remove_request_def withdraw_def drop_owner_grants_def)

lemma grants_wf_frame [lock_simps]:
  "grants_wf (clear_wait o' st) = grants_wf st"
  "grants_wf (remove_request res i st) = grants_wf st"
  "grants_wf (withdraw res i o' st) = grants_wf st"
  "grants_wf (st\<lparr>next_tuple_grant_generation := g\<rparr>) = grants_wf st"
  "grants_wf (st\<lparr>waits_for := w\<rparr>) = grants_wf st"
  "grants_wf (st\<lparr>queues := q\<rparr>) = grants_wf st"
  "grants_wf (st\<lparr>active_owners := a\<rparr>) = grants_wf st"
  by (simp_all add: grants_wf_def clear_wait_def remove_request_def withdraw_def)

lemma grants_wf_intros [lock_simps]:
  "grants_wf st \<Longrightarrow> grants_wf (insert_grant res o' m st)"
  "grants_wf st \<Longrightarrow> grants_wf (remove_grant res o' st)"
  "grants_wf st \<Longrightarrow> grants_wf (insert_generation res o' g st)"
  "grants_wf st \<Longrightarrow> grants_wf (drop_owner_grants o' st)"
  "grants_wf st \<Longrightarrow> grants_wf st' \<Longrightarrow>
     grants_wf (st\<lparr>tuple_grant_generations := hm_remove k (tuple_grant_generations st')\<rparr>)"
  by (simp_all add: grants_wf_def insert_grant_def remove_grant_def insert_generation_def
      drop_owner_grants_def)

end
