(* ===== verification/Lock_System.thy ===== *)
theory Lock_System
  imports Lock_Manager
begin

text \<open>
  The lock manager under concurrent sessions. A session runs one call at a time on behalf of
  its owner; a blocked acquisition is a pending call that is polled until it returns.
  \<open>lock_step\<close> interleaves the critical sections of all sessions. Tuple receipts are the ones the
  manager has issued, as the trait demands of its callers; grant snapshots may be any value.
\<close>

section \<open>Sessions\<close>

record 'k pending_call =
  pd_request :: "'k object_lock_request"
  pd_policy :: tuple_lock_wait_policy
  pd_id :: u64
  pd_previous :: "object_lock_mode option"
  pd_previous_generation :: "u64 option"

record 'k lock_system =
  sys_lm :: "'k lock_manager"
  sys_calls :: "(lock_owner, 'k pending_call) hash_map"
  sys_receipts :: "'k tuple_grant_receipt list"

definition receipts_of ::
  "u64 \<Rightarrow> lock_owner \<Rightarrow> 'k object_lock_request \<Rightarrow> acquire_one \<Rightarrow> 'k tuple_grant_receipt list" where
  "receipts_of mid owner request outcome =
     (case (owner, req_resource request) of
        (Transaction x, Tuple t k) \<Rightarrow>
          (case acquire_tuple_receipt mid x \<lparr>tag_table = t, tag_key = k\<rparr> outcome of
             Inr (Some (Some rc)) \<Rightarrow> [rc] | _ \<Rightarrow> [])
      | _ \<Rightarrow> [])"

definition begin_call ::
  "lock_owner \<Rightarrow> 'k::linorder object_lock_request \<Rightarrow> tuple_lock_wait_policy \<Rightarrow> 'k lock_system \<Rightarrow> 'k lock_system" where
  "begin_call owner request policy s =
     (case acquire_start owner request (sys_lm s) of
        (Inl e, lm) \<Rightarrow> s\<lparr>sys_lm := lm\<rparr>
      | (Inr (Covered outcome), lm) \<Rightarrow>
          s\<lparr>sys_lm := lm, sys_receipts := receipts_of (lm_id lm) owner request outcome @ sys_receipts s\<rparr>
      | (Inr (Queued rid previous gen), lm) \<Rightarrow>
          s\<lparr>sys_lm := lm, sys_calls := hm_insert owner
              \<lparr>pd_request = request, pd_policy = policy, pd_id = rid, pd_previous = previous,
               pd_previous_generation = gen\<rparr> (sys_calls s)\<rparr>)"

definition poll_call :: "query_cancel \<Rightarrow> lock_owner \<Rightarrow> 'k::linorder pending_call \<Rightarrow> 'k lock_system \<Rightarrow> 'k lock_system" where
  "poll_call cancel owner pc s =
     (let lm = sys_lm s in
      case acquire_poll cancel (pd_policy pc) owner (pd_request pc) (pd_id pc) (pd_previous pc)
             (pd_previous_generation pc) (lm_state lm) of
        (PollWait, st) \<Rightarrow> s\<lparr>sys_lm := lm\<lparr>lm_state := st\<rparr>\<rparr>
      | (PollFailed e, st) \<Rightarrow>
          s\<lparr>sys_lm := lm\<lparr>lm_state := st\<rparr>, sys_calls := hm_remove owner (sys_calls s)\<rparr>
      | (PollDone outcome, st) \<Rightarrow>
          s\<lparr>sys_lm := lm\<lparr>lm_state := st\<rparr>, sys_calls := hm_remove owner (sys_calls s),
             sys_receipts := receipts_of (lm_id lm) owner (pd_request pc) outcome @ sys_receipts s\<rparr>)"

definition detect_call :: "bool \<Rightarrow> lock_owner \<Rightarrow> 'k::linorder pending_call \<Rightarrow> 'k lock_system \<Rightarrow> 'k lock_system" where
  "detect_call elapsed owner pc s =
     (let lm = sys_lm s in
      case acquire_detect elapsed owner (pd_request pc) (pd_id pc) (lm_state lm) of
        (None, st) \<Rightarrow> s\<lparr>sys_lm := lm\<lparr>lm_state := st\<rparr>\<rparr>
      | (Some e, st) \<Rightarrow>
          s\<lparr>sys_lm := lm\<lparr>lm_state := st\<rparr>, sys_calls := hm_remove owner (sys_calls s)\<rparr>)"

abbreviation idle :: "lock_owner \<Rightarrow> 'k lock_system \<Rightarrow> bool" where
  "idle owner s \<equiv> hm_get (sys_calls s) owner = None"

inductive lock_step :: "'k::linorder lock_system \<Rightarrow> 'k lock_system \<Rightarrow> bool" where
  new_statement: "lock_step s (s\<lparr>sys_lm := snd (statement_owner (sys_lm s))\<rparr>)"
| new_transaction: "lock_step s (s\<lparr>sys_lm := snd (transaction_owner reg xid (sys_lm s))\<rparr>)"
| start_call: "idle owner s \<Longrightarrow> lock_step s (begin_call owner request policy s)"
| poll: "hm_get (sys_calls s) owner = Some pc \<Longrightarrow> lock_step s (poll_call cancel owner pc s)"
| detect: "hm_get (sys_calls s) owner = Some pc \<Longrightarrow> lock_step s (detect_call elapsed owner pc s)"
| undo_tuples: "idle owner s \<Longrightarrow> set receipts \<subseteq> set (sys_receipts s) \<Longrightarrow>
    lock_step s (s\<lparr>sys_lm := snd (restore_tuple_changes owner (map Some receipts) (sys_lm s))\<rparr>)"
| restore: "idle owner s \<Longrightarrow> lock_step s (s\<lparr>sys_lm := snd (restore_owner owner gid snap (sys_lm s))\<rparr>)"
| release: "idle owner s \<Longrightarrow> lock_step s (s\<lparr>sys_lm := release_owner owner (sys_lm s)\<rparr>)"
| row_wait: "lock_step s (s\<lparr>sys_lm := (sys_lm s)\<lparr>lm_state :=
    wait_for_start reg waiter blocker (lm_state (sys_lm s))\<rparr>\<rparr>)"
| row_poll: "lock_step s (s\<lparr>sys_lm := (sys_lm s)\<lparr>lm_state :=
    snd (wait_for_poll reg cancel waiter blocker (lm_state (sys_lm s)))\<rparr>\<rparr>)"
| row_detect: "lock_step s (s\<lparr>sys_lm := (sys_lm s)\<lparr>lm_state :=
    snd (wait_for_detect elapsed waiter (lm_state (sys_lm s)))\<rparr>\<rparr>)"

definition lock_init :: "u64 \<Rightarrow> 'k lock_system" where
  "lock_init i = \<lparr>sys_lm = \<lparr>lm_id = i, lm_state = lock_state_default, lm_next_guard_id = 1,
     lm_next_statement_owner = 1, lm_next_request_id = 1\<rparr>, sys_calls = [], sys_receipts = []\<rparr>"

inductive lock_reachable :: "'k::linorder lock_system \<Rightarrow> bool" where
  init: "lock_reachable (lock_init i)"
| step: "lock_reachable s \<Longrightarrow> lock_step s t \<Longrightarrow> lock_reachable t"

section \<open>Invariant of the lock table\<close>

definition lock_inv :: "'k::linorder lock_state \<Rightarrow> bool" where
  "lock_inv st \<longleftrightarrow> grants_wf st
     \<and> (\<forall>r p m. held st r p = Some m \<longrightarrow> mode_fits r m \<and> p \<in> set (active_owners st)
          \<and> (is_tuple_mode m \<longrightarrow> generation_of st r p \<noteq> None))
     \<and> (\<forall>r p. held st r p = None \<longrightarrow> generation_of st r p = None)
     \<and> (\<forall>r p q m n. held st r p = Some m \<longrightarrow> held st r q = Some n \<longrightarrow> p \<noteq> q \<longrightarrow> compatible m n)"

text \<open>A change confined to one owner's grants keeps the invariant if the new grants fit.\<close>

lemma lock_inv_owner_update:
  assumes inv: "lock_inv st" and wf: "grants_wf st'"
    and act: "set (active_owners st) - {owner} \<subseteq> set (active_owners st')"
    and other: "\<And>r p. p \<noteq> owner \<Longrightarrow> held st' r p = held st r p \<and> generation_of st' r p = generation_of st r p"
    and own: "\<And>r m. held st' r owner = Some m \<Longrightarrow> mode_fits r m \<and> owner \<in> set (active_owners st')
      \<and> (is_tuple_mode m \<longrightarrow> generation_of st' r owner \<noteq> None)
      \<and> (\<forall>p n. p \<noteq> owner \<longrightarrow> held st r p = Some n \<longrightarrow> compatible m n)"
    and none: "\<And>r. held st' r owner = None \<Longrightarrow> generation_of st' r owner = None"
  shows "lock_inv st'"
proof -
  have "mode_fits r m \<and> p \<in> set (active_owners st') \<and> (is_tuple_mode m \<longrightarrow> generation_of st' r p \<noteq> None)"
    if "held st' r p = Some m" for r p m
    using that inv other [of p r] own act by (cases "p = owner") (auto simp: lock_inv_def)
  moreover have "compatible m n"
    if "held st' r p = Some m" "held st' r q = Some n" "p \<noteq> q" for r p q m n
  proof -
    consider "p = owner" | "q = owner" | "p \<noteq> owner" "q \<noteq> owner" by blast
    then show ?thesis
    proof cases
      case 1
      with that own [of r m] other [of q r] show ?thesis by auto
    next
      case 2
      with that own [of r n] other [of p r] show ?thesis by (auto simp: modes.compat_sym [of m])
    next
      case 3
      with that other inv show ?thesis by (auto simp: lock_inv_def)
    qed
  qed
  moreover have "generation_of st' r p = None" if "held st' r p = None" for r p
    using that inv none other [of p r] by (cases "p = owner") (auto simp: lock_inv_def)
  ultimately show ?thesis using wf by (simp add: lock_inv_def)
qed

lemma lock_inv_frame:
  assumes "lock_inv st" and "held st' = held st" and "generation_of st' = generation_of st"
    and "grants_wf st'" and "set (active_owners st) \<subseteq> set (active_owners st')"
  shows "lock_inv st'"
  using assms(1,4) subsetD [OF assms(5)] by (auto simp: lock_inv_def assms(2,3))

lemma lock_inv_default [simp]: "lock_inv lock_state_default"
  by (simp add: lock_inv_def lock_state_default_def held_def generation_of_def grants_wf_def)

text \<open>A mode covered by what the owner already holds is compatible with the other holders.\<close>

lemma covered_compatible:
  assumes "lock_inv st" and "held st r owner = Some h" and "covers h m"
    and "p \<noteq> owner" and "held st r p = Some n"
  shows "compatible m n"
  using assms modes.compat_anti unfolding lock_inv_def by metis

lemma covers_fits: "covers h m \<Longrightarrow> mode_fits r h \<Longrightarrow> mode_fits r m"
  by (cases r; cases h; cases m) auto

lemma set_fold_insort: "set (fold insort_insert xs acc) = set xs \<union> set acc"
  by (induction xs arbitrary: acc) (auto simp: set_insort_insert)

lemma no_blockers_compatible:
  assumes "request_blockers st res rid owner mode = []" and "p \<noteq> owner" and "held st res p = Some n"
  shows "compatible mode n"
proof -
  obtain owners where o1: "hm_get (grants st) res = Some owners" "(p, n) \<in> set owners"
    using assms(3) by (auto simp: held_def dest: map_of_SomeD split: option.splits)
  have "set (holder_blockers owner mode owners) \<subseteq> set (request_blockers st res rid owner mode)"
    using o1(1) by (auto simp: request_blockers_def Let_def set_fold_insort split: option.splits)
  then have "p \<notin> set (holder_blockers owner mode owners)" using assms(1) by auto
  with o1(2) assms(2) show ?thesis by (force simp: holder_blockers_def)
qed

section \<open>Effect of the operations on the lock table\<close>

text \<open>\<open>confined owner st st'\<close>: only the grants, generations and liveness of \<open>owner\<close> may differ.\<close>

definition confined :: "lock_owner \<Rightarrow> 'k lock_state \<Rightarrow> 'k lock_state \<Rightarrow> bool" where
  "confined owner st st' \<longleftrightarrow>
     (\<forall>r p. p \<noteq> owner \<longrightarrow> held st' r p = held st r p \<and> generation_of st' r p = generation_of st r p)
     \<and> set (active_owners st) - {owner} \<subseteq> set (active_owners st')"

definition call_ok :: "'k lock_state \<Rightarrow> lock_owner \<Rightarrow> 'k pending_call \<Rightarrow> bool" where
  "call_ok st owner pc \<longleftrightarrow> mode_fits (req_resource (pd_request pc)) (req_mode (pd_request pc))
     \<and> owner \<in> set (active_owners st)
     \<and> pd_previous pc = held st (req_resource (pd_request pc)) owner
     \<and> pd_previous_generation pc = generation_of st (req_resource (pd_request pc)) owner"

lemma call_ok_confined:
  "call_ok st p pc \<Longrightarrow> confined owner st st' \<Longrightarrow> p \<noteq> owner \<Longrightarrow> call_ok st' p pc"
  by (auto simp: call_ok_def confined_def)

lemma confined_frame:
  "held st' = held st \<Longrightarrow> generation_of st' = generation_of st \<Longrightarrow>
   set (active_owners st) \<subseteq> set (active_owners st') \<Longrightarrow> confined owner st st'"
  by (auto simp: confined_def)

lemma strongest_ok:
  assumes "lock_inv st" and "mode_fits res mode" and "held st res owner = previous"
  obtains granted where
    "(case previous of Some h \<Rightarrow> strongest h mode | None \<Rightarrow> Inr mode) = Inr granted"
    and "mode_fits res granted" and "is_tuple_mode granted \<longleftrightarrow> is_tuple_mode mode"
    and "covers granted mode" and "\<And>h. previous = Some h \<Longrightarrow> covers granted h"
    and "\<And>n. compatible mode n \<Longrightarrow> (\<And>h. previous = Some h \<Longrightarrow> compatible h n) \<Longrightarrow> compatible granted n"
proof (cases previous)
  case None
  with assms(2) that show ?thesis by (auto simp: modes.cov_refl)
next
  case (Some h)
  with assms have "mode_fits res h" by (simp add: lock_inv_def)
  with assms(2) obtain c where c: "strongest h mode = Inr c" "mode_fits res c"
    using fits_strongest by blast
  moreover have "is_tuple_mode c \<longleftrightarrow> is_tuple_mode mode"
    using assms(2) c(2) by (cases res; cases c; cases mode) auto
  ultimately show ?thesis
    using Some that [of c] modes.join_upper [OF c(1)] modes.join_compat [OF c(1)] by simp
qed

lemma lock_inv_grant:
  assumes inv: "lock_inv st" and fits: "mode_fits res granted" and act: "owner \<in> set (active_owners st)"
    and compat: "\<And>p n. p \<noteq> owner \<Longrightarrow> held st res p = Some n \<Longrightarrow> compatible granted n"
    and st2: "held st2 = (\<lambda>r p. if r = res \<and> p = owner then Some granted else held st r p)"
      "grants_wf st2" "active_owners st2 = active_owners st"
      "\<And>r p. p \<noteq> owner \<Longrightarrow> generation_of st2 r p = generation_of st r p"
      "\<And>r. r \<noteq> res \<Longrightarrow> generation_of st2 r owner = generation_of st r owner"
      "is_tuple_mode granted \<longrightarrow> generation_of st2 res owner \<noteq> None"
  shows "lock_inv st2 \<and> confined owner st st2"
proof
  show "lock_inv st2"
  proof (rule lock_inv_owner_update [OF inv st2(2)])
    fix r m assume "held st2 r owner = Some m"
    then show "mode_fits r m \<and> owner \<in> set (active_owners st2)
        \<and> (is_tuple_mode m \<longrightarrow> generation_of st2 r owner \<noteq> None)
        \<and> (\<forall>p n. p \<noteq> owner \<longrightarrow> held st r p = Some n \<longrightarrow> compatible m n)"
      using st2 fits act compat inv by (cases "r = res") (auto simp: lock_inv_def)
  next
    fix r assume "held st2 r owner = None"
    then show "generation_of st2 r owner = None"
      using st2(1,5) inv by (cases "r = res") (auto simp: lock_inv_def)
  qed (use st2 in auto)
  show "confined owner st st2" using st2 by (simp add: confined_def)
qed

lemma grant_request_spec:
  assumes inv: "lock_inv st" and ok: "call_ok st owner pc"
    and free: "request_blockers st (req_resource (pd_request pc)) rid owner (req_mode (pd_request pc)) = []"
    and res: "grant_request owner (pd_request pc) (pd_id pc) (pd_previous pc) (pd_previous_generation pc) st
      = (out, st')"
  shows "lock_inv st' \<and> confined owner st st' \<and>
    (\<forall>prev pg g gg. out = PollDone (Acquired prev pg g gg) \<longrightarrow>
       prev = pd_previous pc \<and> pg = pd_previous_generation pc \<and> (\<forall>h. prev = Some h \<longrightarrow> covers g h))"
proof -
  let ?res = "req_resource (pd_request pc)" and ?mode = "req_mode (pd_request pc)"
  from ok have prev: "pd_previous pc = held st ?res owner" and fits: "mode_fits ?res ?mode"
    and act: "owner \<in> set (active_owners st)" by (simp_all add: call_ok_def)
  obtain granted where g: "(case pd_previous pc of Some h \<Rightarrow> strongest h ?mode | None \<Rightarrow> Inr ?mode) = Inr granted"
    "mode_fits ?res granted" "is_tuple_mode granted \<longleftrightarrow> is_tuple_mode ?mode" "covers granted ?mode"
    "\<And>h. pd_previous pc = Some h \<Longrightarrow> covers granted h"
    "\<And>n. compatible ?mode n \<Longrightarrow> (\<And>h. pd_previous pc = Some h \<Longrightarrow> compatible h n) \<Longrightarrow> compatible granted n"
    using strongest_ok [OF inv fits prev [symmetric]] by metis
  have compat: "compatible granted n" if "p \<noteq> owner" "held st ?res p = Some n" for p n
    using g(6) no_blockers_compatible [OF free that] inv that prev by (force simp: lock_inv_def)
  note upd = lock_inv_grant [OF inv g(2) act compat]
  have wf: "grants_wf st" using inv by (simp add: lock_inv_def)
  show ?thesis
  proof (cases "is_tuple_mode ?mode")
    case False
    then have st': "out = PollDone (Acquired (pd_previous pc) (pd_previous_generation pc) granted None)"
      "st' = clear_wait owner (insert_grant ?res owner granted (remove_request ?res (pd_id pc) st))"
      using res g(1) by (auto simp: grant_request_def Let_def)
    have "lock_inv st' \<and> confined owner st st'"
      by (rule upd) (use False g(3) wf in \<open>auto simp: st' lock_simps intro!: ext\<close>)
    with st'(1) g(5) show ?thesis by auto
  next
    case True
    show ?thesis
    proof (cases "checked_succ (next_tuple_grant_generation (remove_request ?res (pd_id pc) st))")
      case None
      then have "st' = clear_wait owner (remove_request ?res (pd_id pc) st)" "\<nexists>x. out = PollDone x"
        using res g(1) True by (auto simp: grant_request_def Let_def)
      then show ?thesis using inv wf
        by (auto simp: lock_simps intro!: lock_inv_frame [OF inv] confined_frame)
    next
      case (Some gen)
      then have st': "out = PollDone (Acquired (pd_previous pc) (pd_previous_generation pc) granted (Some gen))"
        "st' = clear_wait owner (insert_grant ?res owner granted (insert_generation ?res owner gen
           ((remove_request ?res (pd_id pc) st)\<lparr>next_tuple_grant_generation := gen\<rparr>)))"
        using res g(1) True by (auto simp: grant_request_def Let_def)
      have "lock_inv st' \<and> confined owner st st'"
        by (rule upd) (use wf in \<open>auto simp: st' lock_simps intro!: ext\<close>)
      with st'(1) g(5) show ?thesis by auto
    qed
  qed
qed

text \<open>An owner may give up or weaken what it holds.\<close>

lemma lock_inv_weaken:
  assumes inv: "lock_inv st" and wf: "grants_wf st'" and conf: "confined owner st st'"
    and own: "\<And>r m. held st' r owner = Some m \<Longrightarrow> owner \<in> set (active_owners st')
      \<and> (is_tuple_mode m \<longrightarrow> generation_of st' r owner \<noteq> None)
      \<and> (\<exists>h. held st r owner = Some h \<and> covers h m)"
    and none: "\<And>r. held st' r owner = None \<Longrightarrow> generation_of st' r owner = None"
  shows "lock_inv st'"
proof (rule lock_inv_owner_update [OF inv wf, of owner])
  fix r m assume h: "held st' r owner = Some m"
  then obtain h where "held st r owner = Some h" "covers h m" using own by blast
  moreover from this have "mode_fits r h" using inv by (auto simp: lock_inv_def)
  ultimately have "mode_fits r m" "held st r owner = Some h" "covers h m" by (simp_all add: covers_fits)
  then show "mode_fits r m \<and> owner \<in> set (active_owners st')
      \<and> (is_tuple_mode m \<longrightarrow> generation_of st' r owner \<noteq> None)
      \<and> (\<forall>p n. p \<noteq> owner \<longrightarrow> held st r p = Some n \<longrightarrow> compatible m n)"
    using own [OF h] covered_compatible [OF inv] by blast
qed (use conf none in \<open>auto simp: confined_def\<close>)

text \<open>Undoing tuple grants: the simulation only ever weakens what the owner holds.\<close>

definition receipt_ok :: "'k tuple_grant_receipt \<Rightarrow> bool" where
  "receipt_ok rc \<longleftrightarrow> (\<forall>p. rc_previous rc = Some p \<longrightarrow>
     tuple_rank p \<le> tuple_rank (rc_granted rc) \<and> rc_previous_generation rc \<noteq> None)"

definition weakening ::
  "'k lock_state \<Rightarrow> lock_owner \<Rightarrow> ('k lock_resource, object_lock_mode option \<times> u64 option) btree_map \<Rightarrow> bool" where
  "weakening st owner sim \<longleftrightarrow> (\<forall>res mo g m. hm_get sim res = Some (mo, g) \<longrightarrow> mo = Some m \<longrightarrow>
     is_tuple_mode m \<and> g \<noteq> None \<and> (\<exists>h. held st res owner = Some h \<and> covers h m))"

lemma simulate_restore_spec:
  assumes "simulate_restore mid owner x st (map Some rcs) sim = Inr sim'"
    and "\<forall>rc \<in> set rcs. receipt_ok rc" and "weakening st owner sim" and "bt_wf sim"
  shows "weakening st owner sim' \<and> bt_wf sim'"
  using assms
proof (induction rcs arbitrary: sim)
  case (Cons rc rcs)
  let ?res = "Tuple (tag_table (rc_tag rc)) (tag_key (rc_tag rc))"
  let ?new = "(map_option TupleMode (rc_previous rc), rc_previous_generation rc)"
  have cur: "(case hm_get sim ?res of Some c \<Rightarrow> c | None \<Rightarrow> (held st ?res owner, generation_of st ?res owner))
      = (Some (TupleMode (rc_granted rc)), Some (rc_granted_generation rc))"
    and rest: "simulate_restore mid owner x st (map Some rcs) (bt_insert ?res ?new sim) = Inr sim'"
    using Cons.prems(1) by (auto simp: Let_def split: if_splits)
  have "\<exists>h. held st ?res owner = Some h \<and> covers h (TupleMode (rc_granted rc))"
    using cur Cons.prems(3) modes.cov_refl by (fastforce simp: weakening_def split: option.splits)
  then obtain h where h: "held st ?res owner = Some h" "covers h (TupleMode (rc_granted rc))" by blast
  have rok: "receipt_ok rc" using Cons.prems(2) by simp
  have "covers h (TupleMode p)" if "rc_previous rc = Some p" for p
    using that rok h(2) modes.cov_trans [of h "TupleMode (rc_granted rc)" "TupleMode p"]
    by (simp add: receipt_ok_def)
  then have "weakening st owner (bt_insert ?res ?new sim)"
    using Cons.prems(3) rok h(1) by (auto simp: weakening_def receipt_ok_def col_simps)
  with rest Cons show ?case by simp
qed simp

lemma apply_restore_spec:
  assumes "distinct (map fst es)" and "\<forall>(res, mo, g) \<in> set es. mo \<noteq> None \<longrightarrow> g \<noteq> None"
    and "grants_wf st"
  shows "\<exists>st'. apply_restore owner es st = (Inr (), st') \<and> grants_wf st'
    \<and> active_owners st' = active_owners st
    \<and> (\<forall>r p. held st' r p = (if p = owner then (case map_of es r of None \<Rightarrow> held st r p | Some (mo, g) \<Rightarrow> mo)
                             else held st r p))
    \<and> (\<forall>r p. generation_of st' r p =
         (if p = owner then (case map_of es r of None \<Rightarrow> generation_of st r p
                             | Some (mo, g) \<Rightarrow> if mo = None then None else g)
          else generation_of st r p))"
  using assms
proof (induction es arbitrary: st)
  case (Cons e es)
  obtain res mo g where e: "e = (res, mo, g)" by (metis prod.collapse)
  have fresh: "map_of es res = None" using Cons.prems(1) e by (simp add: map_of_eq_None_iff)
  show ?case
  proof (cases mo)
    case None
    let ?st = "(remove_grant res owner st)\<lparr>tuple_grant_generations :=
      hm_remove (res, owner) (tuple_grant_generations st)\<rparr>"
    have wf: "grants_wf ?st" using Cons.prems(3) by (simp add: lock_simps)
    have eqs: "held ?st = (\<lambda>r p. if r = res \<and> p = owner then None else held st r p)"
      "generation_of ?st = (\<lambda>r p. if r = res \<and> p = owner then None else generation_of st r p)"
      by (auto simp: lock_simps intro!: ext)
    show ?thesis
      using Cons.IH [OF _ _ wf, unfolded eqs] Cons.prems None e fresh by (auto simp: lock_simps)
  next
    case (Some m)
    with Cons.prems(2) e obtain gg where gg: "g = Some gg" by auto
    let ?st = "insert_generation res owner gg (insert_grant res owner m st)"
    have wf: "grants_wf ?st" using Cons.prems(3) by (simp add: lock_simps)
    have eqs: "held ?st = (\<lambda>r p. if r = res \<and> p = owner then Some m else held st r p)"
      "generation_of ?st = (\<lambda>r p. if r = res \<and> p = owner then Some gg else generation_of st r p)"
      by (auto simp: lock_simps intro!: ext)
    show ?thesis
      using Cons.IH [OF _ _ wf, unfolded eqs] Cons.prems Some gg e fresh by (auto simp: lock_simps)
  qed
qed simp

lemma restore_tuple_changes_spec:
  assumes inv: "lock_inv (lm_state lm)" and ok: "\<forall>rc \<in> set rcs. receipt_ok rc"
    and res: "restore_tuple_changes owner (map Some rcs) lm = (out, lm')"
  shows "lock_inv (lm_state lm') \<and> confined owner (lm_state lm) (lm_state lm')"
proof -
  let ?st = "lm_state lm"
  have wf: "grants_wf ?st" using inv by (simp add: lock_inv_def)
  show ?thesis
  proof (cases "lm' = lm")
    case True
    then show ?thesis using inv by (simp add: confined_def)
  next
    case False
    then obtain x sim where act: "owner \<in> set (active_owners ?st)"
      and sim: "simulate_restore (lm_id lm) owner x ?st (map Some (rev rcs)) [] = Inr sim"
      and lm': "lm' = (case apply_restore owner sim ?st of
        (Inl e, st) \<Rightarrow> lm\<lparr>lm_state := st\<rparr> | (Inr _, st) \<Rightarrow> lm\<lparr>lm_state := clear_wait owner st\<rparr>)"
      using res by (auto simp: restore_tuple_changes_def Let_def rev_map split: if_splits lock_owner.splits
          sum.splits prod.splits)
    have weak: "weakening ?st owner sim" "bt_wf sim"
      using simulate_restore_spec [OF sim] ok by (simp_all add: weakening_def)
    have "distinct (map fst sim)" using weak(2) bt_wf_map_wf by (auto simp: map_wf_def)
    moreover have "\<forall>(res, mo, g) \<in> set sim. mo \<noteq> None \<longrightarrow> g \<noteq> None"
      using weak get_entries [OF bt_wf_map_wf [OF weak(2)]] by (auto simp: weakening_def)
    ultimately obtain st' where st': "apply_restore owner sim ?st = (Inr (), st')" "grants_wf st'"
      "active_owners st' = active_owners ?st"
      "\<forall>r p. held st' r p = (if p = owner then (case map_of sim r of None \<Rightarrow> held ?st r p | Some (mo, g) \<Rightarrow> mo)
                             else held ?st r p)"
      "\<forall>r p. generation_of st' r p =
         (if p = owner then (case map_of sim r of None \<Rightarrow> generation_of ?st r p
                             | Some (mo, g) \<Rightarrow> if mo = None then None else g)
          else generation_of ?st r p)"
      using apply_restore_spec [OF _ _ wf] by blast
    have conf: "confined owner ?st st'" using st' by (simp add: confined_def)
    have "lock_inv st'"
    proof (rule lock_inv_weaken [OF inv st'(2) conf])
      fix r m assume h: "held st' r owner = Some m"
      have "\<exists>h. held ?st r owner = Some h \<and> covers h m"
        using h st'(4) weak(1) modes.cov_refl by (fastforce simp: weakening_def split: option.splits)
      moreover have "is_tuple_mode m \<longrightarrow> generation_of st' r owner \<noteq> None"
        using h st'(4,5) weak(1) inv by (fastforce simp: weakening_def lock_inv_def split: option.splits)
      ultimately show "owner \<in> set (active_owners st')
          \<and> (is_tuple_mode m \<longrightarrow> generation_of st' r owner \<noteq> None)
          \<and> (\<exists>h. held ?st r owner = Some h \<and> covers h m)"
        using act st'(3) by simp
    next
      fix r assume "held st' r owner = None"
      then show "generation_of st' r owner = None"
        using st'(4,5) inv by (auto simp: lock_inv_def split: option.splits)
    qed
    with conf show ?thesis
      using lm' st'(1,2) by (auto simp: confined_def lock_simps intro: lock_inv_frame)
  qed
qed

text \<open>Restoring a grant snapshot.\<close>

lemma number_grants_spec:
  "number_grants gs n = Inr (out, n') \<Longrightarrow>
     map (\<lambda>(r, m, g). (r, m)) out = gs \<and> (\<forall>(r, m, g) \<in> set out. is_tuple_mode m \<longrightarrow> g \<noteq> None)"
proof (induction gs arbitrary: n out)
  case (Cons e gs)
  from Cons.prems show ?case
    by (cases e) (auto simp: and_then_Inr_iff split: if_splits option.splits dest!: Cons.IH)
qed simp

lemma case_option_ex: "(case v of None \<Rightarrow> False | Some h \<Rightarrow> P h) \<longleftrightarrow> (\<exists>h. v = Some h \<and> P h)"
  by (cases v) simp_all

lemma fold_regrant_frame:
  "grants_wf st \<Longrightarrow> grants_wf (fold (regrant owner) rs st)"
  "active_owners (fold (regrant owner) rs st) = active_owners st"
  "p \<noteq> owner \<Longrightarrow> held (fold (regrant owner) rs st) r p = held st r p
     \<and> generation_of (fold (regrant owner) rs st) r p = generation_of st r p"
  by (induction rs arbitrary: st)
    (auto simp: regrant_def Let_def lock_simps split: option.splits)

lemma fold_regrant_own:
  assumes "\<forall>(r, m, g) \<in> set rs. is_tuple_mode m \<longrightarrow> g \<noteq> None"
    and "\<forall>r m. held st r owner = Some m \<longrightarrow> P r m \<and> (is_tuple_mode m \<longrightarrow> generation_of st r owner \<noteq> None)"
    and "\<forall>(r, m, g) \<in> set rs. P r m"
    and "held (fold (regrant owner) rs st) r owner = Some m"
  shows "P r m \<and> (is_tuple_mode m \<longrightarrow> generation_of (fold (regrant owner) rs st) r owner \<noteq> None)"
  using assms
proof (induction rs arbitrary: st)
  case (Cons e rs)
  obtain r' m' g' where e: "e = (r', m', g')" by (metis prod.collapse)
  have "\<forall>r m. held (regrant owner e st) r owner = Some m \<longrightarrow>
      P r m \<and> (is_tuple_mode m \<longrightarrow> generation_of (regrant owner e st) r owner \<noteq> None)"
    using Cons.prems e by (auto simp: regrant_def Let_def lock_simps split: option.splits)
  with Cons show ?case by simp
qed simp

lemma fold_regrant_none:
  assumes "\<forall>r. held st r owner = None \<longrightarrow> generation_of st r owner = None"
    and "held (fold (regrant owner) rs st) r owner = None"
  shows "generation_of (fold (regrant owner) rs st) r owner = None"
  using assms
proof (induction rs arbitrary: st)
  case (Cons e rs)
  have "\<forall>r. held (regrant owner e st) r owner = None \<longrightarrow> generation_of (regrant owner e st) r owner = None"
    using Cons.prems(1) by (auto simp: regrant_def Let_def lock_simps split: option.splits prod.splits)
  with Cons show ?case by simp
qed simp

lemma restore_owner_spec:
  assumes inv: "lock_inv (lm_state lm)" and res: "restore_owner owner gid snap lm = (out, lm')"
  shows "lock_inv (lm_state lm') \<and> confined owner (lm_state lm) (lm_state lm')"
proof (cases "lm' = lm")
  case True
  then show ?thesis using inv by (simp add: confined_def)
next
  case False
  let ?st = "lm_state lm"
  obtain rs n where cov: "list_all (\<lambda>(r, m). \<exists>h. held ?st r owner = Some h \<and> covers h m) (ogs_grants snap)"
    and rs: "number_grants (ogs_grants snap) (next_tuple_grant_generation ?st) = Inr (rs, n)"
    and lm': "lm' = lm\<lparr>lm_state := clear_wait owner (fold (regrant owner) rs
        ((drop_owner_grants owner ?st)\<lparr>next_tuple_grant_generation := n\<rparr>))\<rparr>"
    using res False
    by (auto simp: restore_owner_def Let_def case_option_ex split: if_splits sum.splits)
  let ?cleared = "(drop_owner_grants owner ?st)\<lparr>next_tuple_grant_generation := n\<rparr>"
  have wf: "grants_wf ?st" using inv by (simp add: lock_inv_def)
  have wf0: "grants_wf ?cleared" using wf by (simp add: lock_simps)
  have num: "map (\<lambda>(r, m, g). (r, m)) rs = ogs_grants snap"
    "\<forall>(r, m, g) \<in> set rs. is_tuple_mode m \<longrightarrow> g \<noteq> None"
    using number_grants_spec [OF rs] by blast+
  have none: "held ?cleared r owner = None" for r using wf by (simp add: lock_simps)
  have st': "lm_state lm' = clear_wait owner (fold (regrant owner) rs ?cleared)" by (simp add: lm')
  have conf: "confined owner ?st (lm_state lm')"
    using wf by (auto simp: st' confined_def lock_simps fold_regrant_frame)
  have mem: "\<forall>(r, m, g) \<in> set rs. (r, m) \<in> set (ogs_grants snap)"
    unfolding num(1) [symmetric] by (auto intro: rev_image_eqI)
  show ?thesis
  proof (rule conjI [OF _ conf], rule lock_inv_weaken [OF inv _ conf])
    show "grants_wf (lm_state lm')" using wf0 by (simp add: st' lock_simps fold_regrant_frame)
    fix r m assume "held (lm_state lm') r owner = Some m"
    then have h: "held (fold (regrant owner) rs ?cleared) r owner = Some m" by (simp add: st' lock_simps)
    have "(r, m) \<in> set (ogs_grants snap)
        \<and> (is_tuple_mode m \<longrightarrow> generation_of (fold (regrant owner) rs ?cleared) r owner \<noteq> None)"
      by (rule fold_regrant_own [where P = "\<lambda>r m. (r, m) \<in> set (ogs_grants snap)", OF num(2) _ mem h])
        (simp add: none)
    moreover from this cov have "\<exists>h. held ?st r owner = Some h \<and> covers h m"
      by (auto simp: list_all_iff)
    moreover from this inv have "owner \<in> set (active_owners ?st)" by (auto simp: lock_inv_def)
    ultimately show "owner \<in> set (active_owners (lm_state lm'))
        \<and> (is_tuple_mode m \<longrightarrow> generation_of (lm_state lm') r owner \<noteq> None)
        \<and> (\<exists>h. held ?st r owner = Some h \<and> covers h m)"
      by (simp add: st' lock_simps fold_regrant_frame)
  next
    fix r assume "held (lm_state lm') r owner = None"
    then show "generation_of (lm_state lm') r owner = None"
      using wf by (auto simp: st' lock_simps intro!: fold_regrant_none)
  qed
qed

lemma release_owner_spec:
  assumes inv: "lock_inv (lm_state lm)"
  shows "lock_inv (lm_state (release_owner owner lm))
    \<and> confined owner (lm_state lm) (lm_state (release_owner owner lm))"
proof -
  let ?st' = "lm_state (release_owner owner lm)"
  have wf: "grants_wf (lm_state lm)" using inv by (simp add: lock_inv_def)
  have conf: "confined owner (lm_state lm) ?st'"
    using wf by (auto simp: confined_def release_owner_def Let_def lock_simps)
  moreover have "lock_inv ?st'"
    by (rule lock_inv_weaken [OF inv _ conf])
      (use wf in \<open>auto simp: release_owner_def Let_def lock_simps\<close>)
  ultimately show ?thesis by simp
qed

section \<open>Invariant of the system\<close>

definition sys_inv :: "'k::linorder lock_system \<Rightarrow> bool" where
  "sys_inv s \<longleftrightarrow> lock_inv (lm_state (sys_lm s))
     \<and> (\<forall>owner pc. hm_get (sys_calls s) owner = Some pc \<longrightarrow> call_ok (lm_state (sys_lm s)) owner pc)
     \<and> (\<forall>rc \<in> set (sys_receipts s). receipt_ok rc)"

abbreviation sys_state :: "'k lock_system \<Rightarrow> 'k lock_state" where
  "sys_state s \<equiv> lm_state (sys_lm s)"

text \<open>A step of \<open>owner\<close> that leaves no call of its own pending.\<close>

lemma sys_inv_confined:
  assumes "sys_inv s" and "lock_inv (sys_state s')" and "confined owner (sys_state s) (sys_state s')"
    and "\<And>p pc. hm_get (sys_calls s') p = Some pc \<Longrightarrow> p \<noteq> owner \<and> hm_get (sys_calls s) p = Some pc"
    and "\<And>rc. rc \<in> set (sys_receipts s') \<Longrightarrow> receipt_ok rc"
  shows "sys_inv s'"
  using assms call_ok_confined unfolding sys_inv_def by metis

text \<open>A step that changes neither grants nor owners.\<close>

lemma sys_inv_frame:
  assumes "sys_inv s" and "held (sys_state s') = held (sys_state s)"
    and "generation_of (sys_state s') = generation_of (sys_state s)"
    and "grants_wf (sys_state s')" and "set (active_owners (sys_state s)) \<subseteq> set (active_owners (sys_state s'))"
    and "\<And>p pc. hm_get (sys_calls s') p = Some pc \<Longrightarrow>
      hm_get (sys_calls s) p = Some pc \<or> call_ok (sys_state s) p pc"
    and "\<And>rc. rc \<in> set (sys_receipts s') \<Longrightarrow> receipt_ok rc"
  shows "sys_inv s'"
proof -
  have "call_ok (sys_state s) p pc" if "hm_get (sys_calls s') p = Some pc" for p pc
    using that assms(1,6) by (auto simp: sys_inv_def)
  then have "call_ok (sys_state s') p pc" if "hm_get (sys_calls s') p = Some pc" for p pc
    using that assms(2,3,5) by (auto simp: call_ok_def)
  moreover have "lock_inv (sys_state s')"
    using assms(1) lock_inv_frame [OF _ assms(2,3,4,5)] by (simp add: sys_inv_def)
  ultimately show ?thesis using assms(7) by (simp add: sys_inv_def)
qed

lemma receipts_of_ok:
  assumes "\<And>prev pg g gg h. outcome = Acquired prev pg g gg \<Longrightarrow> prev = Some h \<Longrightarrow>
      covers g h \<and> (is_tuple_mode h \<longrightarrow> pg \<noteq> None)"
    and "rc \<in> set (receipts_of mid owner request outcome)"
  shows "receipt_ok rc"
proof (cases outcome)
  case Skipped
  with assms(2) show ?thesis
    by (simp add: receipts_of_def acquire_tuple_receipt_def split: lock_owner.splits lock_resource.splits)
next
  case (Acquired prev pg g gg)
  with assms(2) obtain m where g: "g = TupleMode m" and rc: "rc_granted rc = m" "rc_previous_generation rc = pg"
    "prev = map_option TupleMode (rc_previous rc)"
    by (auto simp: receipts_of_def acquire_tuple_receipt_def and_then_def ok_or_def
        split: lock_owner.splits lock_resource.splits option.splits object_lock_mode.splits sum.splits)
  then show ?thesis using assms(1) [OF Acquired] by (auto simp: receipt_ok_def)
qed

lemma begin_call_cases:
  fixes s :: "'k::linorder lock_system"
  defines "st \<equiv> sys_state s"
  obtains (same) "begin_call owner request policy s = s"
  | (covered) h where "held st (req_resource request) owner = Some h"
      "begin_call owner request policy s = s\<lparr>sys_receipts := receipts_of (lm_id (sys_lm s)) owner request
         (Acquired (Some h) (generation_of st (req_resource request) owner) h
            (generation_of st (req_resource request) owner)) @ sys_receipts s\<rparr>"
  | (queued) rid n q where "mode_fits (req_resource request) (req_mode request)"
      "owner \<in> set (active_owners st)"
      "begin_call owner request policy s = s\<lparr>sys_lm := (sys_lm s)\<lparr>lm_next_request_id := n,
         lm_state := st\<lparr>queues := q\<rparr>\<rparr>,
        sys_calls := hm_insert owner \<lparr>pd_request = request, pd_policy = policy, pd_id = rid,
          pd_previous = held st (req_resource request) owner,
          pd_previous_generation = generation_of st (req_resource request) owner\<rparr> (sys_calls s)\<rparr>"
proof (cases "mode_fits (req_resource request) (req_mode request) \<and> owner \<in> set (active_owners st)")
  case False
  then have "begin_call owner request policy s = s"
    by (auto simp: begin_call_def acquire_start_def Let_def validate_request_def st_def)
  then show ?thesis by (rule same)
next
  case fits: True
  show ?thesis
  proof (cases "case held st (req_resource request) owner of Some h \<Rightarrow> covers h (req_mode request) | None \<Rightarrow> False")
    case True
    then obtain h where h: "held st (req_resource request) owner = Some h" "covers h (req_mode request)"
      by (auto split: option.splits)
    show ?thesis
      by (rule covered [OF h(1)])
        (use fits h in \<open>simp add: begin_call_def acquire_start_def Let_def validate_request_def st_def\<close>)
  next
    case False
    show ?thesis
    proof (cases "next_id (lm_next_request_id (sys_lm s)) ''object lock request''")
      case (Inl e)
      with fits False have "begin_call owner request policy s = s"
        by (simp add: begin_call_def acquire_start_def Let_def validate_request_def st_def)
      then show ?thesis by (rule same)
    next
      case (Inr p)
      obtain rid n where p: "p = (rid, n)" by fastforce
      show ?thesis
        by (rule queued [OF _ _ ])
          (use fits False Inr p in \<open>simp_all add: begin_call_def acquire_start_def Let_def
            validate_request_def st_def\<close>)
    qed
  qed
qed

lemma begin_call_inv:
  assumes inv: "sys_inv s" and idle: "idle owner s"
  shows "sys_inv (begin_call owner request policy s)"
proof -
  have li: "lock_inv (sys_state s)" and wf: "grants_wf (sys_state s)"
    using inv by (simp_all add: sys_inv_def lock_inv_def)
  show ?thesis
  proof (cases rule: begin_call_cases [of owner request policy s])
    case same
    with inv show ?thesis by simp
  next
    case (covered h)
    let ?g = "generation_of (sys_state s) (req_resource request) owner"
    have "receipt_ok rc" if "rc \<in> set (receipts_of (lm_id (sys_lm s)) owner request (Acquired (Some h) ?g h ?g))" for rc
      using covered(1) li by (intro receipts_of_ok [OF _ that]) (auto simp: modes.cov_refl lock_inv_def)
    with inv show ?thesis unfolding covered(2) by (auto simp: sys_inv_def)
  next
    case (queued rid n q)
    show ?thesis unfolding queued(3)
      by (rule sys_inv_frame [OF inv])
        (use queued(1,2) wf inv in \<open>auto simp: lock_simps col_simps call_ok_def sys_inv_def split: if_splits\<close>)
  qed
qed

lemma sys_inv_call_end:
  assumes "sys_inv s" and "lock_inv (sys_state s')" and "confined owner (sys_state s) (sys_state s')"
    and "sys_calls s' = hm_remove owner (sys_calls s)"
    and "\<And>rc. rc \<in> set (sys_receipts s') \<Longrightarrow> receipt_ok rc"
  shows "sys_inv s'"
  by (rule sys_inv_confined [OF assms(1,2,3)]) (use assms(4,5) in \<open>auto simp: col_simps split: if_splits\<close>)

lemma poll_call_inv:
  assumes inv: "sys_inv s" and pc: "hm_get (sys_calls s) owner = Some pc"
  shows "sys_inv (poll_call cancel owner pc s)"
proof -
  let ?st = "sys_state s" and ?req = "pd_request pc"
  have li: "lock_inv ?st" and ok: "call_ok ?st owner pc" and wf: "grants_wf ?st"
    using inv pc by (auto simp: sys_inv_def lock_inv_def)
  obtain out st' where poll: "acquire_poll cancel (pd_policy pc) owner ?req (pd_id pc) (pd_previous pc)
      (pd_previous_generation pc) ?st = (out, st')" by fastforce
  consider (wait) w where "out = PollWait" "st' = ?st\<lparr>waits_for := w\<rparr>"
    | (fail) "st' = withdraw (req_resource ?req) (pd_id pc) owner ?st" "(\<exists>e. out = PollFailed e) \<or> out = PollDone Skipped"
    | (grant) "request_blockers ?st (req_resource ?req) (pd_id pc) owner (req_mode ?req) = []"
      "grant_request owner ?req (pd_id pc) (pd_previous pc) (pd_previous_generation pc) ?st = (out, st')"
    using poll by (auto simp: acquire_poll_def Let_def split: sum.splits if_splits tuple_lock_wait_policy.splits)
  then show ?thesis
  proof cases
    case wait
    with poll have s': "poll_call cancel owner pc s = s\<lparr>sys_lm := (sys_lm s)\<lparr>lm_state := ?st\<lparr>waits_for := w\<rparr>\<rparr>\<rparr>"
      by (simp add: poll_call_def Let_def)
    show ?thesis unfolding s'
      by (rule sys_inv_frame [OF inv]) (use wf inv in \<open>auto simp: lock_simps sys_inv_def\<close>)
  next
    case fail
    have conf: "confined owner ?st st'" "lock_inv st'"
      using fail(1) wf by (auto intro!: confined_frame lock_inv_frame [OF li] simp: lock_simps)
    have none: "receipts_of mid owner ?req Skipped = []" for mid
      by (simp add: receipts_of_def acquire_tuple_receipt_def split: lock_owner.splits lock_resource.splits)
    have "sys_state (poll_call cancel owner pc s) = st'"
      "sys_calls (poll_call cancel owner pc s) = hm_remove owner (sys_calls s)"
      "sys_receipts (poll_call cancel owner pc s) = sys_receipts s"
      using fail(2) poll none by (auto simp: poll_call_def Let_def)
    with inv conf show ?thesis by (intro sys_inv_call_end [OF inv, of _ owner]) (simp_all add: sys_inv_def)
  next
    case grant
    have li': "lock_inv st'" and conf: "confined owner ?st st'"
      and out: "\<And>prev pg g gg h. out = PollDone (Acquired prev pg g gg) \<Longrightarrow>
        prev = pd_previous pc \<and> pg = pd_previous_generation pc \<and> (prev = Some h \<longrightarrow> covers g h)"
      using grant_request_spec [OF li ok grant] by simp_all
    have nw: "out \<noteq> PollWait"
      using grant(2) by (auto simp: grant_request_def Let_def split: sum.splits if_splits option.splits)
    have gen: "is_tuple_mode h \<longrightarrow> pd_previous_generation pc \<noteq> None" if "pd_previous pc = Some h" for h
    proof -
      have "held ?st (req_resource ?req) owner = Some h"
        "pd_previous_generation pc = generation_of ?st (req_resource ?req) owner"
        using that ok by (simp_all add: call_ok_def)
      with li show ?thesis by (simp add: lock_inv_def)
    qed
    have rc: "receipt_ok r" if "out = PollDone outcome" "r \<in> set (receipts_of mid owner ?req outcome)" for r outcome mid
    proof (rule receipts_of_ok [OF _ that(2)])
      fix prev pg g gg h assume o: "outcome = Acquired prev pg g gg" "prev = Some h"
      with that(1) have "out = PollDone (Acquired prev pg g gg)" by simp
      from out [OF this, of h] o(2) gen [of h]
      show "covers g h \<and> (is_tuple_mode h \<longrightarrow> pg \<noteq> None)" by simp
    qed
    have "sys_state (poll_call cancel owner pc s) = st'"
      "sys_calls (poll_call cancel owner pc s) = hm_remove owner (sys_calls s)"
      using poll nw by (cases out; simp add: poll_call_def Let_def)+
    moreover have "receipt_ok r" if "r \<in> set (sys_receipts (poll_call cancel owner pc s))" for r
      using that poll nw rc inv by (cases out) (auto simp: poll_call_def Let_def sys_inv_def)
    ultimately show ?thesis using conf li' by (intro sys_inv_call_end [OF inv, of _ owner]) simp_all
  qed
qed

lemma detect_call_inv:
  assumes inv: "sys_inv s" and pc: "hm_get (sys_calls s) owner = Some pc"
  shows "sys_inv (detect_call elapsed owner pc s)"
proof (cases "elapsed \<and> on_cycle (waits_for (sys_state s)) owner")
  case True
  then have s': "detect_call elapsed owner pc s = s\<lparr>sys_lm := (sys_lm s)\<lparr>lm_state :=
      withdraw (req_resource (pd_request pc)) (pd_id pc) owner (sys_state s)\<rparr>,
      sys_calls := hm_remove owner (sys_calls s)\<rparr>"
    by (simp add: detect_call_def acquire_detect_def Let_def)
  show ?thesis unfolding s'
    by (rule sys_inv_frame [OF inv])
      (use inv in \<open>auto simp: sys_inv_def lock_inv_def lock_simps col_simps split: if_splits\<close>)
next
  case False
  then have "acquire_detect elapsed owner (pd_request pc) (pd_id pc) (sys_state s) = (None, sys_state s)"
    by (auto simp: acquire_detect_def)
  then have "detect_call elapsed owner pc s = s" by (simp add: detect_call_def)
  with inv show ?thesis by simp
qed

lemma create_guard_frame:
  assumes "create_guard owner lm = (out, lm')"
  shows "held (lm_state lm') = held (lm_state lm)" "generation_of (lm_state lm') = generation_of (lm_state lm)"
    "grants_wf (lm_state lm') = grants_wf (lm_state lm)"
    "set (active_owners (lm_state lm)) \<subseteq> set (active_owners (lm_state lm'))"
  using assms
  by (auto simp: create_guard_def register_owner_def Let_def lock_simps set_insort_insert
      split: sum.splits if_splits)

lemma sys_inv_guard:
  assumes inv: "sys_inv s" and guard: "create_guard owner lm = (out, lm')" "lm_state lm = sys_state s"
  shows "sys_inv (s\<lparr>sys_lm := lm'\<rparr>)"
  by (rule sys_inv_frame [OF inv])
    (use create_guard_frame [OF guard(1)] guard(2) inv in \<open>auto simp: sys_inv_def lock_inv_def\<close>)

lemma sys_inv_waits:
  assumes "sys_inv s"
  shows "sys_inv (s\<lparr>sys_lm := (sys_lm s)\<lparr>lm_state := (sys_state s)\<lparr>waits_for := w\<rparr>\<rparr>\<rparr>)"
  by (rule sys_inv_frame [OF assms]) (use assms in \<open>auto simp: sys_inv_def lock_inv_def lock_simps\<close>)

lemma sys_inv_idle:
  assumes "sys_inv s" and "idle owner s"
    and "lock_inv (lm_state lm') \<and> confined owner (sys_state s) (lm_state lm')"
  shows "sys_inv (s\<lparr>sys_lm := lm'\<rparr>)"
  by (rule sys_inv_confined [OF assms(1), of _ owner]) (use assms in \<open>auto simp: sys_inv_def\<close>)

lemma lock_step_inv: "lock_step s t \<Longrightarrow> sys_inv s \<Longrightarrow> sys_inv t"
proof (induction rule: lock_step.induct)
  case (new_statement s)
  show ?case
  proof (cases "next_id (lm_next_statement_owner (sys_lm s)) ''statement lock owner''")
    case (Inl e)
    with new_statement show ?thesis by (simp add: statement_owner_def)
  next
    case (Inr p)
    obtain i n where p: "p = (i, n)" by fastforce
    show ?thesis
      using sys_inv_guard [OF new_statement, of "Statement i" "(sys_lm s)\<lparr>lm_next_statement_owner := n\<rparr>"]
        Inr p by (simp add: statement_owner_def prod_eq_iff)
  qed
next
  case (new_transaction s reg xid)
  then show ?case unfolding transaction_owner_def
    by (rule sys_inv_guard [OF _ surjective_pairing]) simp
next
  case (start_call owner s request policy)
  then show ?case by (simp add: begin_call_inv)
next
  case (poll s owner pc cancel)
  then show ?case by (simp add: poll_call_inv)
next
  case (detect s owner pc elapsed)
  then show ?case by (simp add: detect_call_inv)
next
  case (undo_tuples owner s receipts)
  then show ?case
    using restore_tuple_changes_spec [OF _ _ surjective_pairing, of "sys_lm s" receipts owner]
    by (intro sys_inv_idle [OF undo_tuples(3,1)]) (auto simp: sys_inv_def)
next
  case (restore owner s gid snap)
  then show ?case
    using restore_owner_spec [OF _ surjective_pairing, of "sys_lm s" owner gid snap]
    by (intro sys_inv_idle [OF restore(2,1)]) (auto simp: sys_inv_def)
next
  case (release owner s)
  then show ?case
    using release_owner_spec [of "sys_lm s" owner]
    by (intro sys_inv_idle [OF release(2,1)]) (auto simp: sys_inv_def)
next
  case (row_wait s reg waiter blocker)
  then show ?case by (simp add: wait_for_start_def Let_def sys_inv_waits)
next
  case (row_poll s reg cancel waiter blocker)
  then show ?case
    by (auto simp: wait_for_poll_def clear_wait_def sys_inv_waits split: sum.splits)
next
  case (row_detect s elapsed waiter)
  then show ?case by (simp add: wait_for_detect_def clear_wait_def sys_inv_waits)
qed

lemma lock_reachable_inv: "lock_reachable s \<Longrightarrow> sys_inv s"
proof (induction rule: lock_reachable.induct)
  case (init i)
  show ?case by (simp add: sys_inv_def lock_init_def)
qed (rule lock_step_inv)

section \<open>Properties\<close>

text \<open>
  C5: mutual exclusion. In every state the sessions can reach, two different owners hold
  modes on the same resource only if the modes are compatible; every granted mode fits its
  resource and belongs to an owner whose lifetime guard is alive.
\<close>

theorem no_conflicting_grants:
  assumes "lock_reachable s" and "held (sys_state s) r p = Some m"
  shows "(\<forall>q n. q \<noteq> p \<longrightarrow> held (sys_state s) r q = Some n \<longrightarrow> compatible m n)
    \<and> mode_fits r m \<and> p \<in> set (active_owners (sys_state s))"
  using lock_reachable_inv [OF assms(1)] assms(2) by (auto simp: sys_inv_def lock_inv_def)

text \<open>Two sessions, transactions 5 and 6, both holding table 7 in RowExclusive mode.\<close>

definition demo_owners :: "nat lock_system" where
  "demo_owners =
     (let s = lock_init 1; s = s\<lparr>sys_lm := snd (transaction_owner registry_new 5 (sys_lm s))\<rparr>
      in s\<lparr>sys_lm := snd (transaction_owner registry_new 6 (sys_lm s))\<rparr>)"

definition demo_acquire :: "lock_owner \<Rightarrow> nat object_lock_request \<Rightarrow> nat lock_system \<Rightarrow> nat lock_system" where
  "demo_acquire owner request s =
     (let s = begin_call owner request Block s in
      case hm_get (sys_calls s) owner of None \<Rightarrow> s | Some pc \<Rightarrow> poll_call cancel_new owner pc s)"

definition demo_grants :: "nat lock_system" where
  "demo_grants = demo_acquire (Transaction 6) (table_request 7 RowExclusive)
     (demo_acquire (Transaction 5) (table_request 7 RowExclusive) demo_owners)"

lemma demo_owners_reachable: "lock_reachable demo_owners"
  unfolding demo_owners_def Let_def
  by (intro lock_reachable.step [OF _ lock_step.new_transaction] lock_reachable.init)

lemma demo_acquire_reachable:
  "lock_reachable s \<Longrightarrow> idle owner s \<Longrightarrow> lock_reachable (demo_acquire owner request s)"
  unfolding demo_acquire_def Let_def
  by (auto split: option.splits intro: lock_reachable.step lock_step.start_call lock_step.poll)

lemma demo_grants_reachable: "lock_reachable demo_grants"
proof -
  have "idle (Transaction 5) demo_owners"
    "idle (Transaction 6) (demo_acquire (Transaction 5) (table_request 7 RowExclusive) demo_owners)"
    by code_simp+
  then show ?thesis
    unfolding demo_grants_def by (intro demo_acquire_reachable demo_owners_reachable)
qed

theorem no_conflicting_grants_witness:
  "held (sys_state demo_grants) (Table 7) (Transaction 5) = Some (RelationMode RowExclusive)
   \<and> held (sys_state demo_grants) (Table 7) (Transaction 6) = Some (RelationMode RowExclusive)
   \<and> compatible (RelationMode RowExclusive) (RelationMode RowExclusive)"
proof -
  have h: "held (sys_state demo_grants) (Table 7) (Transaction 5) = Some (RelationMode RowExclusive)"
    "held (sys_state demo_grants) (Table 7) (Transaction 6) = Some (RelationMode RowExclusive)"
    by code_simp+
  from no_conflicting_grants [OF demo_grants_reachable h(1)] h(2)
  have "compatible (RelationMode RowExclusive) (RelationMode RowExclusive)" by auto
  with h show ?thesis by blast
qed

text \<open>
  C25: releasing an owner leaves no trace of it. Its grants, generations, queued requests and
  waits are gone, nobody waits for it any more, no empty queue or wait entry remains, and no
  other owner's grant changes.
\<close>

theorem release_owner_complete:
  assumes "lock_reachable s"
    and st_def: "st = sys_state s" and st'_def: "st' = lm_state (release_owner owner (sys_lm s))"
  shows "owner \<notin> set (active_owners st')
    \<and> (\<forall>r p. held st' r p = (if p = owner then None else held st r p))
    \<and> (\<forall>r p. generation_of st' r p = (if p = owner then None else generation_of st r p))
    \<and> (\<forall>(r, q) \<in> set (queues st'). q \<noteq> [] \<and> (\<forall>x \<in> set q. q_owner x \<noteq> owner))
    \<and> (\<forall>(p, bs) \<in> set (waits_for st'). p \<noteq> owner \<and> owner \<notin> set bs \<and> bs \<noteq> [])
    \<and> \<not> on_cycle (waits_for st') owner"
proof -
  have wf: "grants_wf st"
    using lock_reachable_inv [OF assms(1)] by (simp add: st_def sys_inv_def lock_inv_def)
  have w: "\<forall>(p, bs) \<in> set (waits_for st'). p \<noteq> owner \<and> owner \<notin> set bs \<and> bs \<noteq> []"
    by (auto simp: st'_def release_owner_def Let_def clear_wait_def hm_retain_def hm_map_values_def
        AList.delete_eq)
  then have "hm_get (waits_for st') owner = None"
    by (cases "hm_get (waits_for st') owner") (auto dest: map_of_SomeD)
  then have c: "\<not> on_cycle (waits_for st') owner" by (simp add: on_cycle_def)
  have q: "\<forall>(r, q) \<in> set (queues st'). q \<noteq> [] \<and> (\<forall>x \<in> set q. q_owner x \<noteq> owner)"
    by (auto simp: st'_def release_owner_def Let_def clear_wait_def hm_retain_def hm_map_values_def)
  have a: "owner \<notin> set (active_owners st')"
    by (simp add: st'_def release_owner_def Let_def lock_simps)
  have h: "\<forall>r p. held st' r p = (if p = owner then None else held st r p)"
    "\<forall>r p. generation_of st' r p = (if p = owner then None else generation_of st r p)"
    using wf by (simp_all add: st'_def st_def release_owner_def Let_def lock_simps)
  show ?thesis by (intro conjI a h q w c)
qed

theorem release_owner_complete_witness:
  "held (lm_state (release_owner (Transaction 5) (sys_lm demo_grants))) (Table 7) (Transaction 5) = None
   \<and> held (lm_state (release_owner (Transaction 5) (sys_lm demo_grants))) (Table 7) (Transaction 6)
      = Some (RelationMode RowExclusive)"
proof -
  have "held (sys_state demo_grants) (Table 7) (Transaction 6) = Some (RelationMode RowExclusive)"
    by code_simp
  with release_owner_complete [OF demo_grants_reachable refl refl, of "Transaction 5"] show ?thesis by simp
qed

end
