(* ===== verification/Lock_Rollback.thy ===== *)
theory Lock_Rollback
  imports Lock_System
begin

text \<open>
  Rolling back acquisitions (crates/server/src/lock_manager.rs): the receipt of a tuple
  acquisition undoes exactly that acquisition, and a grant snapshot taken before a statement
  restores exactly the grants held then.
\<close>

section \<open>Tuple receipts\<close>

lemma grant_request_tuple:
  assumes "grant_request owner req rid prev pg st = (PollDone (Acquired prev' pg' g gg), st')"
    and "is_tuple_mode (req_mode req)" and "grants_wf st"
  obtains gen where "gg = Some gen" and "prev' = prev" and "pg' = pg" and "grants_wf st'"
    and "held st' = (\<lambda>r p. if r = req_resource req \<and> p = owner then Some g else held st r p)"
    and "generation_of st' = (\<lambda>r p. if r = req_resource req \<and> p = owner then Some gen else generation_of st r p)"
    and "active_owners st' = active_owners st"
proof -
  obtain gen where gen: "checked_succ (next_tuple_grant_generation (remove_request (req_resource req) rid st)) = Some gen"
    and eqs: "gg = Some gen" "prev' = prev" "pg' = pg"
      "st' = clear_wait owner (insert_grant (req_resource req) owner g
         (insert_generation (req_resource req) owner gen
           ((remove_request (req_resource req) rid st)\<lparr>next_tuple_grant_generation := gen\<rparr>)))"
    using assms(1,2) by (auto simp: grant_request_def Let_def split: sum.splits option.splits)
  show ?thesis
    by (rule that [OF eqs(1-3)]) (use assms(3) in \<open>auto simp: eqs(4) lock_simps intro!: ext\<close>)
qed

lemma lock_inv_generation:
  assumes "lock_inv st"
  shows "held st r p = Some (TupleMode m) \<Longrightarrow> generation_of st r p \<noteq> None"
    and "held st r p = None \<Longrightarrow> generation_of st r p = None"
proof -
  assume "held st r p = Some (TupleMode m)"
  with assms have "is_tuple_mode (TupleMode m) \<longrightarrow> generation_of st r p \<noteq> None"
    unfolding lock_inv_def by blast
  then show "generation_of st r p \<noteq> None" by simp
qed (use assms in \<open>simp add: lock_inv_def\<close>)

lemma acquire_tuple_receiptD:
  assumes "acquire_tuple_receipt mid x tag (Acquired prev pg g (Some gen)) = Inr (Some change)"
  shows "\<exists>pm m. map_option TupleMode pm = prev \<and> g = TupleMode m \<and>
    change = Some \<lparr>rc_manager_id = mid, rc_owner = x, rc_tag = tag, rc_previous = pm,
       rc_previous_generation = pg, rc_granted = m, rc_granted_generation = gen\<rparr>"
  using assms
  by (cases prev; cases g; cases "the prev") (auto simp: acquire_tuple_receipt_def)

lemma poll_grantedD:
  assumes "acquire_poll cancel policy owner req rid prev pg st = (PollDone (Acquired p' g' m' gg'), st')"
  shows "grant_request owner req rid prev pg st = (PollDone (Acquired p' g' m' gg'), st')
    \<and> request_blockers st (req_resource req) rid owner (req_mode req) = []"
  using assms by (auto simp: acquire_poll_def Let_def split: sum.splits if_splits tuple_lock_wait_policy.splits)

text \<open>
  C11: a tuple receipt undoes exactly its acquisition. When a pending tuple request is granted
  in a reachable state, restoring the receipt the manager returned succeeds and gives every
  owner the mode and the generation it had before the grant, on every resource.
\<close>

theorem tuple_rollback_exact:
  assumes reach: "lock_reachable s" and pc: "hm_get (sys_calls s) (Transaction x) = Some pc"
    and tup: "pd_request pc = tuple_request tag mode"
    and poll: "acquire_poll cancel (pd_policy pc) (Transaction x) (pd_request pc) (pd_id pc) (pd_previous pc)
      (pd_previous_generation pc) (sys_state s) = (PollDone (Acquired prev pg g gg), st1)"
    and rc: "acquire_tuple_receipt (lm_id (sys_lm s)) x tag (Acquired prev pg g gg) = Inr (Some change)"
    and restore: "restore_tuple_changes (Transaction x) [change] ((sys_lm s)\<lparr>lm_state := st1\<rparr>) = (out, lm2)"
  shows "out = Inr () \<and> held (lm_state lm2) = held (sys_state s)
    \<and> generation_of (lm_state lm2) = generation_of (sys_state s)"
proof -
  let ?o = "Transaction x" and ?res = "Tuple (tag_table tag) (tag_key tag)" and ?st = "sys_state s"
  have inv: "lock_inv ?st" and ok: "call_ok ?st ?o pc"
    using lock_reachable_inv [OF reach] pc by (simp_all add: sys_inv_def)
  have res: "req_resource (pd_request pc) = ?res" "is_tuple_mode (req_mode (pd_request pc))"
    by (simp_all add: tup tuple_request_def)
  have wf: "grants_wf ?st" using inv by (simp add: lock_inv_def)
  obtain gen where gg: "gg = Some gen" "prev = pd_previous pc" "pg = pd_previous_generation pc"
    and st1: "grants_wf st1"
      "held st1 = (\<lambda>r p. if r = ?res \<and> p = ?o then Some g else held ?st r p)"
      "generation_of st1 = (\<lambda>r p. if r = ?res \<and> p = ?o then Some gen else generation_of ?st r p)"
      "active_owners st1 = active_owners ?st"
    by (rule grant_request_tuple [OF conjunct1 [OF poll_grantedD [OF poll]] res(2) wf, unfolded res(1)])
  obtain pm m where pm: "map_option TupleMode pm = prev" "g = TupleMode m"
    and ch: "change = Some \<lparr>rc_manager_id = lm_id (sys_lm s), rc_owner = x, rc_tag = tag, rc_previous = pm,
       rc_previous_generation = pg, rc_granted = m, rc_granted_generation = gen\<rparr>"
    using acquire_tuple_receiptD [OF rc [unfolded gg(1)]] by blast
  have prev: "held ?st ?res ?o = map_option TupleMode pm" "generation_of ?st ?res ?o = pg"
    "?o \<in> set (active_owners ?st)"
    using ok gg pm(1) by (simp_all add: call_ok_def res(1))
  have gen: "pm \<noteq> None \<longrightarrow> pg \<noteq> None" and none: "pm = None \<longrightarrow> pg = None"
    using prev lock_inv_generation [OF inv, of ?res ?o] by (cases pm; simp)+
  let ?es = "[(?res, map_option TupleMode pm, pg)]"
  have "simulate_restore (lm_id (sys_lm s)) ?o x st1 (rev [change]) [] = Inr ?es"
    by (simp add: ch st1(2,3) pm(2) Let_def)
  moreover obtain st2 where st2: "apply_restore ?o ?es st1 = (Inr (), st2)"
    "\<forall>r p. held st2 r p = (if p = ?o then (case map_of ?es r of None \<Rightarrow> held st1 r p | Some (mo, g) \<Rightarrow> mo)
                           else held st1 r p)"
    "\<forall>r p. generation_of st2 r p =
       (if p = ?o then (case map_of ?es r of None \<Rightarrow> generation_of st1 r p
                        | Some (mo, g) \<Rightarrow> if mo = None then None else g)
        else generation_of st1 r p)"
    using apply_restore_spec [of ?es st1 ?o] gen st1(1) by auto
  ultimately have "out = Inr ()" "lm_state lm2 = clear_wait ?o st2"
    using restore prev(3) st1(4) by (auto simp: restore_tuple_changes_def Let_def)
  moreover have "held st2 = held ?st" "generation_of st2 = generation_of ?st"
    using st2(2,3) prev none by (auto simp: st1(2,3) fun_eq_iff)
  ultimately show ?thesis by (simp add: lock_simps)
qed

text \<open>Transaction 5 holds a row in KeyShare mode and has an Update request for it pending.\<close>

definition demo_tag :: "nat tuple_lock_tag" where
  "demo_tag = \<lparr>tag_table = 7, tag_key = 1\<rparr>"

definition demo_pending :: "nat lock_system" where
  "demo_pending = begin_call (Transaction 5) (tuple_request demo_tag Update) Block
     (demo_acquire (Transaction 5) (tuple_request demo_tag KeyShare) demo_owners)"

definition demo_poll :: "acquire_poll_outcome \<times> nat lock_state" where
  "demo_poll =
     (let pc = the (hm_get (sys_calls demo_pending) (Transaction 5)) in
      acquire_poll cancel_new (pd_policy pc) (Transaction 5) (pd_request pc) (pd_id pc) (pd_previous pc)
        (pd_previous_generation pc) (sys_state demo_pending))"

lemma demo_pending_reachable: "lock_reachable demo_pending"
proof -
  have "idle (Transaction 5) demo_owners"
    "idle (Transaction 5) (demo_acquire (Transaction 5) (tuple_request demo_tag KeyShare) demo_owners)"
    by code_simp+
  then show ?thesis unfolding demo_pending_def
    by (intro lock_reachable.step [OF _ lock_step.start_call] demo_acquire_reachable demo_owners_reachable)
qed

theorem tuple_rollback_exact_witness:
  "fst demo_poll = PollDone (Acquired (Some (TupleMode KeyShare)) (Some 1) (TupleMode Update) (Some 2))
   \<and> held (snd demo_poll) (Tuple 7 1) (Transaction 5) = Some (TupleMode Update)
   \<and> (let rc = \<lparr>rc_manager_id = 1, rc_owner = 5, rc_tag = demo_tag, rc_previous = Some KeyShare,
                rc_previous_generation = Some 1, rc_granted = Update, rc_granted_generation = 2\<rparr>;
          res = restore_tuple_changes (Transaction 5) [Some rc] ((sys_lm demo_pending)\<lparr>lm_state := snd demo_poll\<rparr>)
      in fst res = Inr () \<and> held (lm_state (snd res)) = held (sys_state demo_pending))"
proof -
  let ?pc = "the (hm_get (sys_calls demo_pending) (Transaction 5))"
  let ?rc = "\<lparr>rc_manager_id = 1, rc_owner = 5, rc_tag = demo_tag, rc_previous = Some KeyShare,
    rc_previous_generation = Some 1, rc_granted = Update, rc_granted_generation = 2\<rparr>"
  let ?res = "restore_tuple_changes (Transaction 5) [Some ?rc] ((sys_lm demo_pending)\<lparr>lm_state := snd demo_poll\<rparr>)"
  have pc: "hm_get (sys_calls demo_pending) (Transaction 5) = Some ?pc" by code_simp
  have tup: "pd_request ?pc = tuple_request demo_tag Update" by code_simp
  have out: "fst demo_poll = PollDone (Acquired (Some (TupleMode KeyShare)) (Some 1) (TupleMode Update) (Some 2))"
    by code_simp
  have up: "held (snd demo_poll) (Tuple 7 1) (Transaction 5) = Some (TupleMode Update)" by code_simp
  have rc: "acquire_tuple_receipt (lm_id (sys_lm demo_pending)) 5 demo_tag
      (Acquired (Some (TupleMode KeyShare)) (Some 1) (TupleMode Update) (Some 2)) = Inr (Some (Some ?rc))"
    by code_simp
  have poll: "acquire_poll cancel_new (pd_policy ?pc) (Transaction 5) (pd_request ?pc) (pd_id ?pc)
      (pd_previous ?pc) (pd_previous_generation ?pc) (sys_state demo_pending) =
      (PollDone (Acquired (Some (TupleMode KeyShare)) (Some 1) (TupleMode Update) (Some 2)), snd demo_poll)"
    using out by (metis demo_poll_def prod.collapse)
  have "fst ?res = Inr () \<and> held (lm_state (snd ?res)) = held (sys_state demo_pending)"
    using tuple_rollback_exact [OF demo_pending_reachable pc tup poll rc surjective_pairing] by blast
  with out up show ?thesis by (simp add: Let_def)
qed

section \<open>Grant snapshots\<close>

lemma owner_snapshot_get:
  assumes "map_wf gs"
  shows "hm_get (List.map_filter (\<lambda>(res, owners). map_option (\<lambda>m. (res, m)) (hm_get owners owner)) gs) r =
    (case hm_get gs r of None \<Rightarrow> None | Some owners \<Rightarrow> hm_get owners owner)"
  using assms
proof (induction gs)
  case (Cons e gs)
  obtain res owners where e: "e = (res, owners)" by fastforce
  from Cons.prems e have "hm_get gs res = None" "map_wf gs" by (auto simp: map_wf_def map_of_eq_None_iff)
  with Cons.IH e show ?case
    by (cases "hm_get owners owner") (auto simp: List.map_filter_simps split: option.splits)
qed (simp add: List.map_filter_simps)

lemma map_filter_keys:
  "sorted_wrt (<) (map fst gs) \<Longrightarrow>
   sorted_wrt (<) (map fst (List.map_filter (\<lambda>(res, owners). map_option (\<lambda>m. (res, m)) (f owners)) gs))"
proof (induction gs)
  case (Cons e gs)
  have "\<exists>w. (k, w) \<in> set gs"
    if "(k, v) \<in> set (List.map_filter (\<lambda>(res, owners). map_option (\<lambda>m. (res, m)) (f owners)) gs)" for k v
    using that by (auto simp: in_map_filter_iff)
  with Cons show ?case
    by (cases e; cases "f (snd e)") (fastforce simp: List.map_filter_simps)+
qed (simp add: List.map_filter_simps)

lemma fold_regrant_held:
  "distinct (map fst rs) \<Longrightarrow> held (fold (regrant owner) rs st) r owner =
     (case map_of (map (\<lambda>(r, m, g). (r, m)) rs) r of Some m \<Rightarrow> Some m | None \<Rightarrow> held st r owner)"
proof (induction rs arbitrary: st)
  case (Cons e rs)
  obtain r' m' g' where e: "e = (r', m', g')" by (metis prod.collapse)
  have "map_of (map (\<lambda>(r, m, g). (r, m)) rs) r' = None"
    using Cons.prems e by (force simp: map_of_eq_None_iff)
  moreover have "held (regrant owner e st) r owner = (if r = r' then Some m' else held st r owner)"
    by (auto simp: e regrant_def Let_def lock_simps split: option.splits)
  ultimately show ?case using Cons e by (auto split: option.splits)
qed simp

text \<open>
  C10: restoring a grant snapshot is exact. When a snapshot of an owner's grants, taken in one
  reachable state, is restored successfully in another, the owner holds exactly the modes it
  held when the snapshot was taken, no other owner's grant changes, and the result is again
  free of conflicts.
\<close>

theorem restore_snapshot_exact:
  assumes reach: "lock_reachable s" "lock_reachable s'"
    and snap: "snap = owner_snapshot owner gid (sys_lm s)"
    and restore: "restore_owner owner gid snap (sys_lm s') = (Inr (), lm2)"
  shows "(\<forall>r. held (lm_state lm2) r owner = held (sys_state s) r owner)
    \<and> (\<forall>r p. p \<noteq> owner \<longrightarrow> held (lm_state lm2) r p = held (sys_state s') r p)
    \<and> lock_inv (lm_state lm2)"
proof -
  have inv: "lock_inv (sys_state s)" "lock_inv (sys_state s')"
    using reach lock_reachable_inv by (auto simp: sys_inv_def)
  then have wf: "grants_wf (sys_state s)" "grants_wf (sys_state s')" by (simp_all add: lock_inv_def)
  have spec: "lock_inv (lm_state lm2)" "confined owner (sys_state s') (lm_state lm2)"
    using restore_owner_spec [OF inv(2) restore] by simp_all
  have get: "hm_get (ogs_grants snap) r = held (sys_state s) r owner" for r
    using wf(1) by (simp add: snap owner_snapshot_def held_def owner_snapshot_get grants_wf_def bt_wf_map_wf)
  have sorted: "sorted_wrt (<) (map fst (ogs_grants snap))"
    using wf(1) map_filter_keys [of "grants (sys_state s)"] by (simp add: snap owner_snapshot_def grants_wf_def bt_wf_def)
  obtain rs n where rs: "number_grants (ogs_grants snap) (next_tuple_grant_generation (sys_state s')) = Inr (rs, n)"
    and lm2: "lm_state lm2 = clear_wait owner (fold (regrant owner) rs
        ((drop_owner_grants owner (sys_state s'))\<lparr>next_tuple_grant_generation := n\<rparr>))"
    using restore by (auto simp: restore_owner_def Let_def split: if_splits sum.splits)
  have map: "map (\<lambda>(r, m, g). (r, m)) rs = ogs_grants snap" using number_grants_spec [OF rs] by blast
  have "map fst rs = map fst (ogs_grants snap)" unfolding map [symmetric] by (simp add: split_def)
  then have dist: "distinct (map fst rs)" using sorted by (simp add: strict_sorted_iff)
  have "held (lm_state lm2) r owner = held (sys_state s) r owner" for r
    using wf(2) get [of r]
    by (cases "held (sys_state s) r owner") (simp_all add: lm2 lock_simps fold_regrant_held [OF dist] map)
  with spec show ?thesis by (auto simp: confined_def)
qed

theorem restore_snapshot_exact_witness:
  "let snap = owner_snapshot (Transaction 5) 1 (sys_lm demo_owners);
       lm2 = snd (restore_owner (Transaction 5) 1 snap (sys_lm demo_grants))
   in fst (restore_owner (Transaction 5) 1 snap (sys_lm demo_grants)) = Inr ()
      \<and> held (lm_state lm2) (Table 7) (Transaction 5) = None
      \<and> held (lm_state lm2) (Table 7) (Transaction 6) = Some (RelationMode RowExclusive)"
proof -
  let ?snap = "owner_snapshot (Transaction 5) 1 (sys_lm demo_owners)"
  let ?res = "restore_owner (Transaction 5) 1 ?snap (sys_lm demo_grants)"
  have ok: "fst ?res = Inr ()" by code_simp
  then have res: "restore_owner (Transaction 5) 1 ?snap (sys_lm demo_grants) = (Inr (), snd ?res)"
    by (metis prod.collapse)
  have h: "held (sys_state demo_owners) (Table 7) (Transaction 5) = None"
    "held (sys_state demo_grants) (Table 7) (Transaction 6) = Some (RelationMode RowExclusive)"
    by code_simp+
  from restore_snapshot_exact [OF demo_owners_reachable demo_grants_reachable refl res] h ok
  show ?thesis by (simp add: Let_def)
qed

end
