(* ===== verification/Ssi.thy ===== *)
theory Ssi
  imports Registry
begin

text \<open>
  Serializable snapshot isolation: \<open>SerializableConflictManager\<close> of
  crates/server/src/ssi_manager.rs. The state has the read-lock (SIREAD) tables, the writer
  tables and one \<open>txn_ssi\<close> per tracked top-level transaction; a \<open>HashSet\<close> is a list without
  repetition. Every method runs under the manager's mutex and is one function on the state. A
  row key (\<open>common::Key\<close>) is a type parameter.
\<close>

section \<open>State\<close>

type_synonym table_id = u32

definition SSI_TUPLE_LOCK_CAP :: nat where "SSI_TUPLE_LOCK_CAP = 64"

record 'k txn_ssi =
  ssi_snapshot :: snapshot
  relation_locks :: "table_id list"
  tuple_locks :: "(table_id, 'k list) hash_map"
  relation_writes :: "table_id list"
  whole_relation_writes :: "table_id list"
  tuple_writes :: "(table_id, 'k list) hash_map"
  out_edges :: "txn_id list"
  in_edges :: "txn_id list"
  commit_seq :: "u64 option"
  ssi_finished :: bool

record 'k ssi_state =
  relation_readers :: "(table_id, txn_id list) hash_map"
  tuple_readers :: "(table_id \<times> 'k, txn_id list) hash_map"
  relation_writers :: "(table_id, txn_id list) hash_map"
  whole_relation_writers :: "(table_id, txn_id list) hash_map"
  tuple_writers :: "(table_id \<times> 'k, txn_id list) hash_map"
  promoted_tuple_writers :: "(table_id, txn_id list) hash_map"
  txns :: "(txn_id, 'k txn_ssi) hash_map"
  next_commit_seq :: u64

definition ssi_new :: "'k ssi_state" where
  "ssi_new = \<lparr>relation_readers = [], tuple_readers = [], relation_writers = [],
     whole_relation_writers = [], tuple_writers = [], promoted_tuple_writers = [], txns = [],
     next_commit_seq = 0\<rparr>"

text \<open>\<open>if let Some(txn) = st.txns.get_mut(&top)\<close> with an update of the entry.\<close>

definition update_txn :: "txn_id \<Rightarrow> ('k txn_ssi \<Rightarrow> 'k txn_ssi) \<Rightarrow> 'k ssi_state \<Rightarrow> 'k ssi_state" where
  "update_txn x f st =
     (case hm_get (txns st) x of None \<Rightarrow> st | Some t \<Rightarrow> st\<lparr>txns := hm_insert x (f t) (txns st)\<rparr>)"

definition tracked :: "'k ssi_state \<Rightarrow> txn_id \<Rightarrow> bool" where
  "tracked st x = hm_contains (txns st) x"

section \<open>Life of a tracked transaction\<close>

definition txn_ssi_new :: "snapshot \<Rightarrow> 'k txn_ssi" where
  "txn_ssi_new snap = \<lparr>ssi_snapshot = snap, relation_locks = [], tuple_locks = [], relation_writes = [],
     whole_relation_writes = [], tuple_writes = [], out_edges = [], in_edges = [], commit_seq = None,
     ssi_finished = False\<rparr>"

definition ssi_register :: "registry \<Rightarrow> txn_id \<Rightarrow> snapshot \<Rightarrow> 'k ssi_state \<Rightarrow> 'k ssi_state" where
  "ssi_register reg x snap st =
     (let top_xid = top_of reg x in
      if tracked st top_xid then st
      else st\<lparr>txns := hm_insert top_xid (txn_ssi_new snap) (txns st)\<rparr>)"

definition finished :: "txn_id \<Rightarrow> 'k ssi_state \<Rightarrow> 'k ssi_state" where
  "finished x = update_txn x (\<lambda>t. t\<lparr>ssi_finished := True\<rparr>)"

definition remove_reader :: "'i \<Rightarrow> txn_id \<Rightarrow> ('i, txn_id list) hash_map \<Rightarrow> ('i, txn_id list) hash_map" where
  "remove_reader key reader m = hm_shrink [] key (removeAll reader) m"

definition purge :: "txn_id \<Rightarrow> 'k txn_ssi \<Rightarrow> 'k ssi_state \<Rightarrow> 'k ssi_state" where
  "purge x t st =
     (let st = st\<lparr>relation_readers := fold (\<lambda>tb. remove_reader tb x) (relation_locks t) (relation_readers st)\<rparr>;
          st = st\<lparr>tuple_readers := fold (\<lambda>(tb, ks). fold (\<lambda>k. remove_reader (tb, k) x) ks)
                 (tuple_locks t) (tuple_readers st)\<rparr>;
          st = st\<lparr>relation_writers := fold (\<lambda>tb. remove_reader tb x) (relation_writes t) (relation_writers st)\<rparr>;
          st = st\<lparr>whole_relation_writers :=
                 fold (\<lambda>tb. remove_reader tb x) (whole_relation_writes t) (whole_relation_writers st)\<rparr>;
          st = st\<lparr>tuple_writers := fold (\<lambda>(tb, ks). fold (\<lambda>k. remove_reader (tb, k) x) ks)
                 (tuple_writes t) (tuple_writers st)\<rparr>;
          st = st\<lparr>promoted_tuple_writers := hm_retain (\<lambda>_ writers. writers \<noteq> [])
                 (hm_map_values (removeAll x) (promoted_tuple_writers st))\<rparr>;
          st = fold (\<lambda>w. update_txn w (\<lambda>wt. wt\<lparr>in_edges := removeAll x (in_edges wt)\<rparr>)) (out_edges t) st
      in fold (\<lambda>v. update_txn v (\<lambda>vt. vt\<lparr>out_edges := removeAll x (out_edges vt)\<rparr>)) (in_edges t) st)"

definition aborted :: "txn_id \<Rightarrow> 'k ssi_state \<Rightarrow> 'k ssi_state" where
  "aborted x st =
     (case hm_get (txns st) x of
        None \<Rightarrow> st
      | Some t \<Rightarrow> purge x t (st\<lparr>txns := hm_remove x (txns st)\<rparr>))"

definition releasable :: "txn_id \<Rightarrow> 'k txn_ssi \<Rightarrow> bool" where
  "releasable horizon t = (ssi_finished t \<and> snap_xmax (ssi_snapshot t) \<le> horizon)"

definition release_up_to :: "txn_id \<Rightarrow> 'k ssi_state \<Rightarrow> 'k ssi_state" where
  "release_up_to horizon st =
     fold aborted (map fst (filter (\<lambda>(_, t). releasable horizon t) (txns st))) st"

definition ssi_finish :: "txn_id \<Rightarrow> isolation_level \<Rightarrow> bool \<Rightarrow> txn_id \<Rightarrow> 'k ssi_state \<Rightarrow> 'k ssi_state" where
  "ssi_finish x isolation committed horizon st =
     (if isolation \<noteq> Serializable then st
      else if committed then release_up_to horizon (finished x st)
      else aborted x st)"

section \<open>Conflicts\<close>

definition concurrent :: "snapshot \<Rightarrow> txn_id \<Rightarrow> bool" where
  "concurrent s writer = (writer \<ge> snap_xmax s \<or> writer \<in> set (snap_xip s))"

definition form_rw_edge :: "txn_id \<Rightarrow> txn_id \<Rightarrow> 'k ssi_state \<Rightarrow> 'k ssi_state" where
  "form_rw_edge reader writer st =
     (if reader = writer \<or> \<not> tracked st writer then st
      else case hm_get (txns st) reader of
        None \<Rightarrow> st
      | Some rt \<Rightarrow>
          if \<not> concurrent (ssi_snapshot rt) writer then st
          else update_txn writer (\<lambda>t. t\<lparr>in_edges := List.insert reader (in_edges t)\<rparr>)
                (update_txn reader (\<lambda>t. t\<lparr>out_edges := List.insert writer (out_edges t)\<rparr>) st))"

definition is_doomed_pivot :: "'k ssi_state \<Rightarrow> txn_id \<Rightarrow> bool" where
  "is_doomed_pivot st x =
     (case hm_get (txns st) x of
        None \<Rightarrow> False
      | Some t \<Rightarrow>
          if in_edges t = [] \<or> out_edges t = [] then False
          else list_ex (\<lambda>w. case hm_get (txns st) w of None \<Rightarrow> False | Some wt \<Rightarrow> commit_seq wt \<noteq> None)
                 (out_edges t))"

definition serialization_failure :: db_error where
  "serialization_failure = db_execute SerializationFailure
     ''could not serialize access due to read/write dependencies among transactions''"

definition dooms_in_neighbor :: "'k ssi_state \<Rightarrow> 'k txn_ssi \<Rightarrow> bool" where
  "dooms_in_neighbor st t =
     list_ex (\<lambda>v. case hm_get (txns st) v of None \<Rightarrow> False
                  | Some vt \<Rightarrow> commit_seq vt = None \<and> in_edges vt \<noteq> []) (in_edges t)"

definition commit_check :: "txn_id \<Rightarrow> 'k ssi_state \<Rightarrow> unit result \<times> 'k ssi_state" where
  "commit_check x st =
     (case hm_get (txns st) x of
        None \<Rightarrow> (Inr (), st)
      | Some t \<Rightarrow>
          if is_doomed_pivot st x then (Inl serialization_failure, st)
          else if dooms_in_neighbor st t then (Inl serialization_failure, st)
          else case checked_succ (next_commit_seq st) of
            None \<Rightarrow> (Inl (db_internal ''SSI commit sequence exhausted''), st)
          | Some n \<Rightarrow>
              (Inr (), update_txn x (\<lambda>t. t\<lparr>commit_seq := Some (next_commit_seq st)\<rparr>)
                         (st\<lparr>next_commit_seq := n\<rparr>)))"

definition tracking_counts :: "'k ssi_state \<Rightarrow> nat \<times> nat \<times> nat" where
  "tracking_counts st =
     (length (txns st), sum_list (map length (hm_values (relation_readers st))),
      sum_list (map length (hm_values (tuple_readers st))))"

section \<open>Reads and writes\<close>

definition add_relation_lock :: "txn_id \<Rightarrow> table_id \<Rightarrow> 'k ssi_state \<Rightarrow> 'k ssi_state" where
  "add_relation_lock x tb st =
     (case hm_get (txns st) x of
        None \<Rightarrow> st
      | Some t \<Rightarrow>
          if tb \<in> set (relation_locks t) then st
          else (update_txn x (\<lambda>t. t\<lparr>relation_locks := List.insert tb (relation_locks t)\<rparr>) st)
                 \<lparr>relation_readers := hm_upsert [] tb (List.insert x) (relation_readers st)\<rparr>)"

definition tuple_read_writers :: "table_id \<Rightarrow> 'k \<Rightarrow> 'k ssi_state \<Rightarrow> txn_id list" where
  "tuple_read_writers tb k st =
     (let ws = get_default [] (tuple_writers st) (tb, k);
          ws = List.union (get_default [] (promoted_tuple_writers st) tb) ws
      in List.union (get_default [] (whole_relation_writers st) tb) ws)"

definition record_tuple_read :: "registry \<Rightarrow> txn_id \<Rightarrow> table_id \<Rightarrow> 'k \<Rightarrow> 'k ssi_state \<Rightarrow> 'k ssi_state" where
  "record_tuple_read reg reader tb key st =
     (let x = top_of reg reader in
      if \<not> tracked st x then st
      else
        let st = fold (form_rw_edge x) (tuple_read_writers tb key st) st
        in case hm_get (txns st) x of
             None \<Rightarrow> st
           | Some t \<Rightarrow>
               let keys = get_default [] (tuple_locks t) tb in
               if key \<in> set keys then st
               else let keys = List.insert key keys in
                 if length keys > SSI_TUPLE_LOCK_CAP then
                   let st = update_txn x (\<lambda>t. t\<lparr>tuple_locks := hm_remove tb (tuple_locks t)\<rparr>) st;
                       st = st\<lparr>tuple_readers := fold (\<lambda>k. remove_reader (tb, k) x) keys (tuple_readers st)\<rparr>
                   in add_relation_lock x tb st
                 else (update_txn x (\<lambda>t. t\<lparr>tuple_locks := hm_insert tb keys (tuple_locks t)\<rparr>) st)
                        \<lparr>tuple_readers := hm_upsert [] (tb, key) (List.insert x) (tuple_readers st)\<rparr>)"

definition record_relation_read :: "registry \<Rightarrow> txn_id \<Rightarrow> table_id \<Rightarrow> 'k ssi_state \<Rightarrow> 'k ssi_state" where
  "record_relation_read reg reader tb st =
     (let x = top_of reg reader in
      if \<not> tracked st x then st
      else add_relation_lock x tb
             (fold (form_rw_edge x) (get_default [] (relation_writers st) tb) st))"

definition note_write ::
  "registry \<Rightarrow> txn_id \<Rightarrow> table_id \<Rightarrow> 'k \<Rightarrow> 'k ssi_state \<Rightarrow> unit result \<times> 'k ssi_state" where
  "note_write reg writer tb key st =
     (let x = top_of reg writer in
      if \<not> tracked st x then (Inr (), st)
      else
        let readers = get_default [] (relation_readers st) tb @ get_default [] (tuple_readers st) (tb, key);
            st = fold (\<lambda>r. form_rw_edge r x) readers st
        in case hm_get (txns st) x of
             None \<Rightarrow> (Inl (db_internal ''SSI writer disappeared while recording tuple write''), st)
           | Some t \<Rightarrow>
               let st = update_txn x (\<lambda>t. t\<lparr>relation_writes := List.insert tb (relation_writes t),
                          tuple_writes := hm_upsert [] tb (List.insert key) (tuple_writes t)\<rparr>) st;
                   st = st\<lparr>relation_writers := hm_upsert [] tb (List.insert x) (relation_writers st),
                           tuple_writers := hm_upsert [] (tb, key) (List.insert x) (tuple_writers st)\<rparr>
               in if is_doomed_pivot st x then (Inl serialization_failure, st) else (Inr (), st))"

definition table_readers :: "table_id \<Rightarrow> 'k ssi_state \<Rightarrow> txn_id list" where
  "table_readers tb st =
     remdups (get_default [] (relation_readers st) tb
              @ concat (map snd (filter (\<lambda>((read_table, _), _). read_table = tb) (tuple_readers st))))"

definition note_relation_write ::
  "registry \<Rightarrow> txn_id \<Rightarrow> table_id \<Rightarrow> 'k ssi_state \<Rightarrow> unit result \<times> 'k ssi_state" where
  "note_relation_write reg writer tb st =
     (let x = top_of reg writer in
      if \<not> tracked st x then (Inr (), st)
      else
        let st = fold (\<lambda>r. form_rw_edge r x) (table_readers tb st) st
        in case hm_get (txns st) x of
             None \<Rightarrow> (Inl (db_internal ''SSI writer disappeared while recording relation write''), st)
           | Some t \<Rightarrow>
               let st = update_txn x (\<lambda>t. t\<lparr>relation_writes := List.insert tb (relation_writes t),
                          whole_relation_writes := List.insert tb (whole_relation_writes t)\<rparr>) st;
                   st = st\<lparr>relation_writers := hm_upsert [] tb (List.insert x) (relation_writers st),
                           whole_relation_writers := hm_upsert [] tb (List.insert x) (whole_relation_writers st)\<rparr>
               in if is_doomed_pivot st x then (Inl serialization_failure, st) else (Inr (), st))"

definition promote_reader :: "table_id \<Rightarrow> txn_id list \<Rightarrow> txn_id \<Rightarrow> 'k ssi_state \<Rightarrow> 'k ssi_state" where
  "promote_reader tb writers reader st =
     (let keys = (case hm_get (txns st) reader of None \<Rightarrow> [] | Some t \<Rightarrow> get_default [] (tuple_locks t) tb);
          st = update_txn reader (\<lambda>t. t\<lparr>tuple_locks := hm_remove tb (tuple_locks t)\<rparr>) st;
          st = st\<lparr>tuple_readers := fold (\<lambda>k. remove_reader (tb, k) reader) keys (tuple_readers st)\<rparr>;
          st = fold (form_rw_edge reader) writers st
      in add_relation_lock reader tb st)"

definition promote_table_identity_locks_to_relation :: "table_id \<Rightarrow> 'k ssi_state \<Rightarrow> 'k ssi_state" where
  "promote_table_identity_locks_to_relation tb st =
     (let readers = map fst (filter (\<lambda>(_, t). hm_contains (tuple_locks t) tb) (txns st));
          writers = get_default [] (relation_writers st) tb;
          st = (if writers = [] then st
                else st\<lparr>promoted_tuple_writers :=
                       hm_upsert [] tb (List.union writers) (promoted_tuple_writers st)\<rparr>)
      in fold (promote_reader tb writers) readers st)"

end
