(* ===== verification/Ssi_Inv.thy ===== *)
theory Ssi_Inv
  imports Ssi
begin

text \<open>
  The invariant of the serializability tracker: the reader and writer tables and the
  per-transaction reverse indexes agree, no table keeps an empty entry, the edges are recorded
  at both ends and only between distinct tracked transactions that are concurrent, and no
  transaction holds more tuple locks on a table than the cap. One lemma per primitive of the
  methods, then one per method.
\<close>

named_theorems ssi_simps \<open>effects of the tracker's primitives\<close>

section \<open>Views of the state\<close>

definition txn_get :: "'b \<Rightarrow> ('k txn_ssi \<Rightarrow> 'b) \<Rightarrow> 'k ssi_state \<Rightarrow> txn_id \<Rightarrow> 'b" where
  "txn_get d f st x = (case hm_get (txns st) x of None \<Rightarrow> d | Some t \<Rightarrow> f t)"

abbreviation snap_of :: "'k ssi_state \<Rightarrow> txn_id \<Rightarrow> snapshot option" where
  "snap_of \<equiv> txn_get None (\<lambda>t. Some (ssi_snapshot t))"

definition relevant :: "'k ssi_state \<Rightarrow> txn_id \<Rightarrow> txn_id \<Rightarrow> bool" where
  "relevant st r w = (r \<noteq> w \<and> tracked st w \<and> (case snap_of st r of None \<Rightarrow> False | Some s \<Rightarrow> concurrent s w))"

definition edge :: "'k ssi_state \<Rightarrow> txn_id \<Rightarrow> txn_id \<Rightarrow> bool" where
  "edge st r w = (w \<in> set (txn_get [] out_edges st r))"

definition edge_in :: "'k ssi_state \<Rightarrow> txn_id \<Rightarrow> txn_id \<Rightarrow> bool" where
  "edge_in st r w = (r \<in> set (txn_get [] in_edges st w))"

definition tuples :: "(table_id, 'k list) hash_map \<Rightarrow> (table_id \<times> 'k) set" where
  "tuples m = {(tb, k). k \<in> set (get_default [] m tb)}"

lemma tracked_iff: "tracked st x \<longleftrightarrow> hm_get (txns st) x \<noteq> None"
  by (simp add: tracked_def hm_contains_def)

lemma tuples_Nil: "tuples [] = {}"
  by (simp add: tuples_def get_default_def)

lemma trackedE: "tracked st x \<Longrightarrow> (\<And>t. hm_get (txns st) x = Some t \<Longrightarrow> P) \<Longrightarrow> P"
  by (auto simp: tracked_iff)

lemma tracked_snap: "tracked st x \<longleftrightarrow> snap_of st x \<noteq> None"
  by (auto simp: tracked_iff txn_get_def split: option.splits)

lemma txn_get_some: "hm_get (txns st) x = Some t \<Longrightarrow> txn_get d f st x = f t"
  by (simp add: txn_get_def)

lemma txn_get_cong: "txns st = txns st' \<Longrightarrow> txn_get d f st = txn_get d f st'"
  by (simp add: txn_get_def fun_eq_iff)

lemma txn_get_update:
  "txn_get d f (update_txn y g st) x =
    (if x = y \<and> tracked st y then f (g (the (hm_get (txns st) y))) else txn_get d f st x)"
  by (auto simp: txn_get_def update_txn_def tracked_iff col_simps split: option.splits)

lemma txn_get_update_same:
  assumes "\<And>t. f (g t) = f t"
  shows "txn_get d f (update_txn y g st) = txn_get d f st"
  using assms by (auto simp: fun_eq_iff txn_get_def update_txn_def col_simps split: option.splits)

lemma txn_get_update_map:
  assumes "\<And>t. f (g t) = h (f t)"
  shows "txn_get d f (update_txn y g st) x =
    (if x = y \<and> tracked st y then h (txn_get d f st x) else txn_get d f st x)"
  using assms by (auto simp: txn_get_def update_txn_def tracked_iff col_simps split: option.splits)

lemma tracked_update [simp]: "tracked (update_txn y g st) x = tracked st x"
  by (auto simp: tracked_def update_txn_def hm_contains_def col_simps split: option.splits)

lemma update_txn_tables [simp]:
  "relation_readers (update_txn y g st) = relation_readers st"
  "tuple_readers (update_txn y g st) = tuple_readers st"
  "relation_writers (update_txn y g st) = relation_writers st"
  "whole_relation_writers (update_txn y g st) = whole_relation_writers st"
  "tuple_writers (update_txn y g st) = tuple_writers st"
  "promoted_tuple_writers (update_txn y g st) = promoted_tuple_writers st"
  "next_commit_seq (update_txn y g st) = next_commit_seq st"
  by (auto simp: update_txn_def split: option.splits)

lemma update_txn_wf: "map_wf (txns st) \<Longrightarrow> map_wf (txns (update_txn y g st))"
  by (auto simp: update_txn_def split: option.splits)

section \<open>Tables and reverse indexes\<close>

definition idx :: "('i, txn_id list) hash_map \<Rightarrow> (txn_id \<Rightarrow> 'i set) \<Rightarrow> bool" where
  "idx m f = ((\<forall>i. map_of m i \<noteq> Some []) \<and> (\<forall>x i. x \<in> set (get_default [] m i) \<longleftrightarrow> i \<in> f x))"

lemma idx_mem: "idx m f \<Longrightarrow> x \<in> set (get_default [] m i) \<longleftrightarrow> i \<in> f x"
  by (simp add: idx_def)

lemma idx_add:
  assumes "idx m f" and "f' = (\<lambda>y. if y = x then insert i (f y) else f y)"
  shows "idx (hm_upsert [] i (List.insert x) m) f'"
proof -
  have "List.insert x v \<noteq> []" for v by (auto simp: List.insert_def)
  then show ?thesis
    using assms hm.upsert_no_default [of m "[]" "List.insert x" i]
    by (auto simp: idx_def hm.default_get_upsert)
qed

lemma remove_reader_get [ssi_simps]:
  "get_default [] (remove_reader i x m) j =
    (if j = i then removeAll x (get_default [] m i) else get_default [] m j)"
  by (simp add: remove_reader_def hm.default_get_shrink)

lemma remove_readers_get [ssi_simps]:
  "set (get_default [] (fold (\<lambda>i. remove_reader i x) js m) j) =
    set (get_default [] m j) - (if j \<in> set js then {x} else {})"
  by (induction js arbitrary: m) (auto simp: remove_reader_get)

lemma remove_readers_no_empty:
  assumes "\<And>i. map_of m i \<noteq> Some []"
  shows "map_of (fold (\<lambda>i. remove_reader i x) js m) j \<noteq> Some []"
  using assms
proof (induction js arbitrary: m)
  case (Cons i js)
  show ?case using Cons.IH [of "remove_reader i x m"] Cons.prems
    by (simp add: remove_reader_def hm.shrink_no_default)
qed simp

lemma idx_remove:
  assumes "idx m f" and "f' = (\<lambda>y. if y = x then f y - set js else f y)"
  shows "idx (fold (\<lambda>i. remove_reader i x) js m) f'"
  using assms remove_readers_no_empty [of m x js] by (auto simp: idx_def remove_readers_get)

lemma fold_tuples:
  "fold (\<lambda>(tb, ks). fold (\<lambda>k. remove_reader (tb, k) x) ks) ents m =
   fold (\<lambda>i. remove_reader i x) (concat (map (\<lambda>(tb, ks). map (Pair tb) ks) ents)) m"
  by (induction ents arbitrary: m) (auto simp: fold_map comp_def)

lemma tuples_subset: "tuples ents \<subseteq> set (concat (map (\<lambda>(tb, ks). map (Pair tb) ks) ents))"
proof
  fix i assume "i \<in> tuples ents"
  then obtain tb k ks where "i = (tb, k)" "map_of ents tb = Some ks" "k \<in> set ks"
    by (cases i; cases "map_of ents (fst i)") (auto simp: tuples_def get_default_def)
  then show "i \<in> set (concat (map (\<lambda>(tb, ks). map (Pair tb) ks) ents))"
    by (auto dest!: map_of_SomeD intro!: bexI [of _ "(tb, ks)"])
qed

section \<open>Edges\<close>

lemma form_rw_edge_eq:
  "form_rw_edge r w st =
    (if relevant st r w
     then update_txn w (\<lambda>t. t\<lparr>in_edges := List.insert r (in_edges t)\<rparr>)
            (update_txn r (\<lambda>t. t\<lparr>out_edges := List.insert w (out_edges t)\<rparr>) st)
     else st)"
  by (auto simp: form_rw_edge_def relevant_def txn_get_def split: option.splits)

lemma relevant_cong:
  "snap_of st = snap_of st' \<Longrightarrow> relevant st = relevant st'"
  by (auto simp: fun_eq_iff relevant_def tracked_snap)

lemma form_rw_edge_get [simp]:
  assumes "\<And>t a. f (t\<lparr>out_edges := a\<rparr>) = f t" "\<And>t a. f (t\<lparr>in_edges := a\<rparr>) = f t"
  shows "txn_get d f (form_rw_edge r w st) = txn_get d f st"
  using assms by (simp add: form_rw_edge_eq txn_get_update_same)

lemma form_rw_edge_tables [simp]:
  "relation_readers (form_rw_edge r w st) = relation_readers st"
  "tuple_readers (form_rw_edge r w st) = tuple_readers st"
  "relation_writers (form_rw_edge r w st) = relation_writers st"
  "whole_relation_writers (form_rw_edge r w st) = whole_relation_writers st"
  "tuple_writers (form_rw_edge r w st) = tuple_writers st"
  "promoted_tuple_writers (form_rw_edge r w st) = promoted_tuple_writers st"
  "tracked (form_rw_edge r w st) = tracked st"
  by (simp_all add: form_rw_edge_eq fun_eq_iff)

lemma relevant_form [simp]: "relevant (form_rw_edge r w st) = relevant st"
  by (rule relevant_cong) simp

lemma edge_form:
  "edge (form_rw_edge r w st) v x \<longleftrightarrow> edge st v x \<or> v = r \<and> x = w \<and> relevant st r w"
  "edge_in (form_rw_edge r w st) v x \<longleftrightarrow> edge_in st v x \<or> v = r \<and> x = w \<and> relevant st r w"
proof -
  have "relevant st r w \<Longrightarrow> tracked st r" by (auto simp: relevant_def tracked_snap split: option.splits)
  then show "edge (form_rw_edge r w st) v x \<longleftrightarrow> edge st v x \<or> v = r \<and> x = w \<and> relevant st r w"
    by (auto simp: edge_def form_rw_edge_eq txn_get_update_same
        txn_get_update_map [where h = "List.insert w"])
  show "edge_in (form_rw_edge r w st) v x \<longleftrightarrow> edge_in st v x \<or> v = r \<and> x = w \<and> relevant st r w"
    by (auto simp: edge_in_def form_rw_edge_eq relevant_def txn_get_update_same
        txn_get_update_map [where h = "List.insert r"])
qed

text \<open>A batch of edges, for the loops over readers and over writers.\<close>

abbreviation form_all :: "(txn_id \<times> txn_id) list \<Rightarrow> 'k ssi_state \<Rightarrow> 'k ssi_state" where
  "form_all ps st \<equiv> fold (\<lambda>(r, w). form_rw_edge r w) ps st"

lemma form_to: "fold (form_rw_edge r) ws st = form_all (map (Pair r) ws) st"
  by (induction ws arbitrary: st) simp_all

lemma form_from: "fold (\<lambda>r. form_rw_edge r w) rs st = form_all (map (\<lambda>r. (r, w)) rs) st"
  by (induction rs arbitrary: st) simp_all

lemma form_all_get [simp]:
  assumes "\<And>t a. f (t\<lparr>out_edges := a\<rparr>) = f t" "\<And>t a. f (t\<lparr>in_edges := a\<rparr>) = f t"
  shows "txn_get d f (form_all ps st) = txn_get d f st"
  using assms by (induction ps arbitrary: st) auto

lemma form_all_tables [simp]:
  "relation_readers (form_all ps st) = relation_readers st"
  "tuple_readers (form_all ps st) = tuple_readers st"
  "relation_writers (form_all ps st) = relation_writers st"
  "whole_relation_writers (form_all ps st) = whole_relation_writers st"
  "tuple_writers (form_all ps st) = tuple_writers st"
  "promoted_tuple_writers (form_all ps st) = promoted_tuple_writers st"
  "tracked (form_all ps st) = tracked st" "relevant (form_all ps st) = relevant st"
  by (induction ps arbitrary: st) auto

lemma form_all_wf: "map_wf (txns st) \<Longrightarrow> map_wf (txns (form_all ps st))"
  by (induction ps arbitrary: st) (auto simp: form_rw_edge_eq update_txn_wf)

lemma edge_form_all:
  "edge (form_all ps st) v x \<longleftrightarrow> edge st v x \<or> (v, x) \<in> set ps \<and> relevant st v x"
  "edge_in (form_all ps st) v x \<longleftrightarrow> edge_in st v x \<or> (v, x) \<in> set ps \<and> relevant st v x"
  by (induction ps arbitrary: st) (auto simp: edge_form)

section \<open>The invariant\<close>

abbreviation rlocks :: "'k ssi_state \<Rightarrow> txn_id \<Rightarrow> table_id set" where
  "rlocks st x \<equiv> set (txn_get [] relation_locks st x)"

abbreviation tlocks :: "'k ssi_state \<Rightarrow> txn_id \<Rightarrow> (table_id \<times> 'k) set" where
  "tlocks st x \<equiv> tuples (txn_get [] tuple_locks st x)"

abbreviation rwrites :: "'k ssi_state \<Rightarrow> txn_id \<Rightarrow> table_id set" where
  "rwrites st x \<equiv> set (txn_get [] relation_writes st x)"

abbreviation wwrites :: "'k ssi_state \<Rightarrow> txn_id \<Rightarrow> table_id set" where
  "wwrites st x \<equiv> set (txn_get [] whole_relation_writes st x)"

abbreviation twrites :: "'k ssi_state \<Rightarrow> txn_id \<Rightarrow> (table_id \<times> 'k) set" where
  "twrites st x \<equiv> tuples (txn_get [] tuple_writes st x)"

definition indexed :: "'k ssi_state \<Rightarrow> bool" where
  "indexed st = (idx (relation_readers st) (rlocks st) \<and> idx (tuple_readers st) (tlocks st)
     \<and> idx (relation_writers st) (rwrites st) \<and> idx (whole_relation_writers st) (wwrites st)
     \<and> idx (tuple_writers st) (twrites st))"

definition promoted_ok :: "'k ssi_state \<Rightarrow> bool" where
  "promoted_ok st = (map_wf (promoted_tuple_writers st) \<and> (\<forall>tb. map_of (promoted_tuple_writers st) tb \<noteq> Some [])
     \<and> (\<forall>tb. set (get_default [] (promoted_tuple_writers st) tb) \<subseteq> set (get_default [] (relation_writers st) tb)))"

definition edges_ok :: "'k ssi_state \<Rightarrow> bool" where
  "edges_ok st = (\<forall>r w. edge st r w = edge_in st r w \<and> (edge st r w \<longrightarrow> relevant st r w))"

definition capped :: "'k ssi_state \<Rightarrow> bool" where
  "capped st = (\<forall>x tb. length (get_default [] (txn_get [] tuple_locks st x) tb) \<le> SSI_TUPLE_LOCK_CAP)"

definition ssi_inv :: "'k ssi_state \<Rightarrow> bool" where
  "ssi_inv st = (map_wf (txns st) \<and> indexed st \<and> promoted_ok st \<and> edges_ok st \<and> capped st)"

lemma relevant_tracked: "relevant st r w \<Longrightarrow> tracked st r \<and> tracked st w \<and> r \<noteq> w"
  by (auto simp: relevant_def tracked_snap split: option.splits)

lemma relevant_update [simp]:
  assumes "\<And>t. ssi_snapshot (g t) = ssi_snapshot t"
  shows "relevant (update_txn y g st) = relevant st"
  using assms by (intro relevant_cong txn_get_update_same) simp

lemma ssi_inv_new: "ssi_inv ssi_new"
  by (simp add: ssi_inv_def ssi_new_def indexed_def idx_def promoted_ok_def edges_ok_def capped_def
      txn_get_def get_default_def edge_def edge_in_def tuples_def)

subsection \<open>Primitives\<close>

lemma edges_ok_cong:
  assumes "edges_ok st" "txn_get [] out_edges st' = txn_get [] out_edges st"
    "txn_get [] in_edges st' = txn_get [] in_edges st" "snap_of st' = snap_of st"
  shows "edges_ok st'"
  using assms relevant_cong [of st' st] by (simp add: edges_ok_def edge_def edge_in_def)

lemma ssi_inv_form_all:
  assumes "ssi_inv st"
  shows "ssi_inv (form_all ps st)"
  using assms
  by (auto simp: ssi_inv_def indexed_def promoted_ok_def edges_ok_def capped_def form_all_wf edge_form_all)

lemma add_relation_lock_eq:
  "add_relation_lock x tb st =
    (if tracked st x \<and> tb \<notin> rlocks st x
     then (update_txn x (\<lambda>t. t\<lparr>relation_locks := List.insert tb (relation_locks t)\<rparr>) st)
            \<lparr>relation_readers := hm_upsert [] tb (List.insert x) (relation_readers st)\<rparr>
     else st)"
  by (auto simp: add_relation_lock_def tracked_iff txn_get_def split: option.splits)

text \<open>Fields outside \<open>txns\<close> are read through \<open>txn_get\<close> unchanged.\<close>

lemma txn_get_tables [simp]:
  "txn_get d f (st\<lparr>relation_readers := a\<rparr>) = txn_get d f st"
  "txn_get d f (st\<lparr>tuple_readers := b\<rparr>) = txn_get d f st"
  "txn_get d f (st\<lparr>relation_writers := a\<rparr>) = txn_get d f st"
  "txn_get d f (st\<lparr>whole_relation_writers := a\<rparr>) = txn_get d f st"
  "txn_get d f (st\<lparr>tuple_writers := b\<rparr>) = txn_get d f st"
  "txn_get d f (st\<lparr>promoted_tuple_writers := a\<rparr>) = txn_get d f st"
  "txn_get d f (st\<lparr>next_commit_seq := n\<rparr>) = txn_get d f st"
  by (simp_all add: txn_get_def fun_eq_iff)

lemma tracked_tables [simp]:
  "tracked (st\<lparr>relation_readers := a\<rparr>) = tracked st"
  "tracked (st\<lparr>tuple_readers := b\<rparr>) = tracked st"
  "tracked (st\<lparr>relation_writers := a\<rparr>) = tracked st"
  "tracked (st\<lparr>whole_relation_writers := a\<rparr>) = tracked st"
  "tracked (st\<lparr>tuple_writers := b\<rparr>) = tracked st"
  "tracked (st\<lparr>promoted_tuple_writers := a\<rparr>) = tracked st"
  "tracked (st\<lparr>next_commit_seq := n\<rparr>) = tracked st"
  by (simp_all add: tracked_def fun_eq_iff)

lemma relevant_tables [simp]:
  "relevant (st\<lparr>relation_readers := a\<rparr>) = relevant st"
  "relevant (st\<lparr>tuple_readers := b\<rparr>) = relevant st"
  "relevant (st\<lparr>relation_writers := a\<rparr>) = relevant st"
  "relevant (st\<lparr>whole_relation_writers := a\<rparr>) = relevant st"
  "relevant (st\<lparr>tuple_writers := b\<rparr>) = relevant st"
  "relevant (st\<lparr>promoted_tuple_writers := a\<rparr>) = relevant st"
  "relevant (st\<lparr>next_commit_seq := n\<rparr>) = relevant st"
  by (simp_all add: relevant_def fun_eq_iff)

lemma ssi_inv_add_relation_lock:
  assumes "ssi_inv st"
  shows "ssi_inv (add_relation_lock x tb st)"
proof (cases "tracked st x \<and> tb \<notin> rlocks st x")
  case True
  let ?st = "add_relation_lock x tb st"
  have st: "?st = (update_txn x (\<lambda>t. t\<lparr>relation_locks := List.insert tb (relation_locks t)\<rparr>) st)
            \<lparr>relation_readers := hm_upsert [] tb (List.insert x) (relation_readers st)\<rparr>"
    using True by (simp add: add_relation_lock_eq)
  have "rlocks ?st = (\<lambda>y. if y = x then insert tb (rlocks st y) else rlocks st y)"
    using True by (auto simp: st fun_eq_iff txn_get_update_map [where h = "List.insert tb"])
  then have "idx (relation_readers ?st) (rlocks ?st)"
    using assms by (auto simp: st ssi_inv_def indexed_def intro!: idx_add)
  then show ?thesis using assms
    by (auto simp: ssi_inv_def indexed_def promoted_ok_def capped_def st txn_get_update_same update_txn_wf
        intro: edges_ok_cong [of st])
qed (use assms in \<open>auto simp: add_relation_lock_eq\<close>)

lemma get_default_remove: "get_default d (AList.delete k m) j = (if j = k then d else get_default d m j)"
  by (simp add: get_default_def col_simps)

lemma tuples_remove: "tuples (AList.delete tb m) = {(tb', k) \<in> tuples m. tb' \<noteq> tb}"
  by (auto simp: tuples_def get_default_remove split: if_splits)

lemma tuples_upsert:
  "tuples (hm_upsert [] tb (List.insert k) m) = insert (tb, k) (tuples m)"
  by (auto simp: tuples_def hm.default_get_upsert split: if_splits)

definition drop_tuple_locks :: "txn_id \<Rightarrow> table_id \<Rightarrow> 'k list \<Rightarrow> 'k ssi_state \<Rightarrow> 'k ssi_state" where
  "drop_tuple_locks x tb keys st =
     (update_txn x (\<lambda>t. t\<lparr>tuple_locks := hm_remove tb (tuple_locks t)\<rparr>) st)
       \<lparr>tuple_readers := fold (\<lambda>k. remove_reader (tb, k) x) keys (tuple_readers st)\<rparr>"

definition add_tuple_lock :: "txn_id \<Rightarrow> table_id \<Rightarrow> 'k \<Rightarrow> 'k ssi_state \<Rightarrow> 'k ssi_state" where
  "add_tuple_lock x tb key st =
     (update_txn x (\<lambda>t. t\<lparr>tuple_locks := hm_upsert [] tb (List.insert key) (tuple_locks t)\<rparr>) st)
       \<lparr>tuple_readers := hm_upsert [] (tb, key) (List.insert x) (tuple_readers st)\<rparr>"

lemma ssi_inv_drop_tuple_locks:
  assumes "ssi_inv st" and keys: "set (get_default [] (txn_get [] tuple_locks st x) tb) \<subseteq> set keys"
    and "tracked st x"
  shows "ssi_inv (drop_tuple_locks x tb keys st)"
proof -
  let ?st = "drop_tuple_locks x tb keys st"
  have get: "txn_get [] tuple_locks ?st y =
      (if y = x then hm_remove tb (txn_get [] tuple_locks st y) else txn_get [] tuple_locks st y)" for y
    using assms(3) by (simp add: drop_tuple_locks_def txn_get_update_map [where h = "hm_remove tb"])
  have "tlocks ?st = (\<lambda>y. if y = x then tlocks st y - set (map (Pair tb) keys) else tlocks st y)"
    using keys by (auto simp: fun_eq_iff get tuples_remove) (auto simp: tuples_def)
  then have "idx (tuple_readers ?st) (tlocks ?st)"
    using assms(1) idx_remove [of "tuple_readers st" "tlocks st" "tlocks ?st" x "map (Pair tb) keys"]
    by (simp add: ssi_inv_def indexed_def drop_tuple_locks_def fold_map comp_def)
  moreover have "capped ?st"
    using assms(1) by (simp add: ssi_inv_def capped_def get get_default_remove)
  ultimately show ?thesis using assms(1)
    by (auto simp: ssi_inv_def indexed_def promoted_ok_def drop_tuple_locks_def txn_get_update_same
        update_txn_wf intro: edges_ok_cong [of st])
qed

lemma ssi_inv_add_tuple_lock:
  assumes "ssi_inv st" and "tracked st x"
    and room: "length (List.insert key (get_default [] (txn_get [] tuple_locks st x) tb)) \<le> SSI_TUPLE_LOCK_CAP"
  shows "ssi_inv (add_tuple_lock x tb key st)"
proof -
  let ?st = "add_tuple_lock x tb key st"
  have get: "txn_get [] tuple_locks ?st y = (if y = x
      then hm_upsert [] tb (List.insert key) (txn_get [] tuple_locks st y) else txn_get [] tuple_locks st y)" for y
    using assms(2)
    by (simp add: add_tuple_lock_def txn_get_update_map [where h = "hm_upsert [] tb (List.insert key)"])
  then have "tlocks ?st = (\<lambda>y. if y = x then insert (tb, key) (tlocks st y) else tlocks st y)"
    by (auto simp: fun_eq_iff tuples_upsert)
  then have "idx (tuple_readers ?st) (tlocks ?st)"
    using assms(1) idx_add [of "tuple_readers st" "tlocks st" "tlocks ?st" x "(tb, key)"]
    by (simp add: ssi_inv_def indexed_def add_tuple_lock_def)
  moreover have "capped ?st"
    using assms(1) room by (simp add: ssi_inv_def capped_def get hm.default_get_upsert)
  ultimately show ?thesis using assms(1)
    by (auto simp: ssi_inv_def indexed_def promoted_ok_def add_tuple_lock_def txn_get_update_same
        update_txn_wf intro: edges_ok_cong [of st])
qed

text \<open>What a write records, at both granularities.\<close>

definition add_write :: "txn_id \<Rightarrow> table_id \<Rightarrow> 'k \<Rightarrow> 'k ssi_state \<Rightarrow> 'k ssi_state" where
  "add_write x tb key st =
     (update_txn x (\<lambda>t. t\<lparr>relation_writes := List.insert tb (relation_writes t),
        tuple_writes := hm_upsert [] tb (List.insert key) (tuple_writes t)\<rparr>) st)
       \<lparr>relation_writers := hm_upsert [] tb (List.insert x) (relation_writers st),
        tuple_writers := hm_upsert [] (tb, key) (List.insert x) (tuple_writers st)\<rparr>"

definition add_relation_write :: "txn_id \<Rightarrow> table_id \<Rightarrow> 'k ssi_state \<Rightarrow> 'k ssi_state" where
  "add_relation_write x tb st =
     (update_txn x (\<lambda>t. t\<lparr>relation_writes := List.insert tb (relation_writes t),
        whole_relation_writes := List.insert tb (whole_relation_writes t)\<rparr>) st)
       \<lparr>relation_writers := hm_upsert [] tb (List.insert x) (relation_writers st),
        whole_relation_writers := hm_upsert [] tb (List.insert x) (whole_relation_writers st)\<rparr>"

lemma promoted_ok_writers:
  assumes "promoted_ok st" "promoted_tuple_writers st' = promoted_tuple_writers st"
    "relation_writers st' = hm_upsert [] tb (List.insert x) (relation_writers st)"
  shows "promoted_ok st'"
  using assms by (auto simp: promoted_ok_def hm.default_get_upsert)

lemma ssi_inv_add_write:
  assumes "ssi_inv st" and "tracked st x"
  shows "ssi_inv (add_write x tb key st)"
proof -
  let ?st = "add_write x tb key st"
  have "rwrites ?st = (\<lambda>y. if y = x then insert tb (rwrites st y) else rwrites st y)"
    using assms(2)
    by (auto simp: add_write_def fun_eq_iff txn_get_update_map [where h = "List.insert tb"])
  then have "idx (relation_writers ?st) (rwrites ?st)"
    using assms(1) idx_add [of "relation_writers st" "rwrites st" "rwrites ?st" x tb]
    by (simp add: ssi_inv_def indexed_def add_write_def)
  moreover have "twrites ?st = (\<lambda>y. if y = x then insert (tb, key) (twrites st y) else twrites st y)"
    using assms(2)
    by (auto simp: add_write_def fun_eq_iff tuples_upsert
        txn_get_update_map [where h = "hm_upsert [] tb (List.insert key)"])
  then have "idx (tuple_writers ?st) (twrites ?st)"
    using assms(1) idx_add [of "tuple_writers st" "twrites st" "twrites ?st" x "(tb, key)"]
    by (simp add: ssi_inv_def indexed_def add_write_def)
  moreover have "promoted_ok ?st"
    using assms(1) by (auto simp: ssi_inv_def add_write_def intro: promoted_ok_writers [of st])
  ultimately show ?thesis using assms(1)
    by (auto simp: ssi_inv_def indexed_def capped_def add_write_def txn_get_update_same
        update_txn_wf intro: edges_ok_cong [of st])
qed

lemma ssi_inv_add_relation_write:
  assumes "ssi_inv st" and "tracked st x"
  shows "ssi_inv (add_relation_write x tb st)"
proof -
  let ?st = "add_relation_write x tb st"
  have "rwrites ?st = (\<lambda>y. if y = x then insert tb (rwrites st y) else rwrites st y)"
    using assms(2)
    by (auto simp: add_relation_write_def fun_eq_iff txn_get_update_map [where h = "List.insert tb"])
  then have "idx (relation_writers ?st) (rwrites ?st)"
    using assms(1) idx_add [of "relation_writers st" "rwrites st" "rwrites ?st" x tb]
    by (simp add: ssi_inv_def indexed_def add_relation_write_def)
  moreover have "wwrites ?st = (\<lambda>y. if y = x then insert tb (wwrites st y) else wwrites st y)"
    using assms(2)
    by (auto simp: add_relation_write_def fun_eq_iff txn_get_update_map [where h = "List.insert tb"])
  then have "idx (whole_relation_writers ?st) (wwrites ?st)"
    using assms(1) idx_add [of "whole_relation_writers st" "wwrites st" "wwrites ?st" x tb]
    by (simp add: ssi_inv_def indexed_def add_relation_write_def)
  moreover have "promoted_ok ?st"
    using assms(1) by (auto simp: ssi_inv_def add_relation_write_def intro: promoted_ok_writers [of st])
  ultimately show ?thesis using assms(1)
    by (auto simp: ssi_inv_def indexed_def capped_def add_relation_write_def txn_get_update_same
        update_txn_wf intro: edges_ok_cong [of st])
qed

subsection \<open>Removing a transaction\<close>

abbreviation update_all :: "txn_id list \<Rightarrow> ('k txn_ssi \<Rightarrow> 'k txn_ssi) \<Rightarrow> 'k ssi_state \<Rightarrow> 'k ssi_state" where
  "update_all ws g st \<equiv> fold (\<lambda>w. update_txn w g) ws st"

lemma update_all_tables [simp]:
  "relation_readers (update_all ws g st) = relation_readers st"
  "tuple_readers (update_all ws g st) = tuple_readers st"
  "relation_writers (update_all ws g st) = relation_writers st"
  "whole_relation_writers (update_all ws g st) = whole_relation_writers st"
  "tuple_writers (update_all ws g st) = tuple_writers st"
  "promoted_tuple_writers (update_all ws g st) = promoted_tuple_writers st"
  "tracked (update_all ws g st) = tracked st"
  by (induction ws arbitrary: st) (auto simp: fun_eq_iff)

lemma update_all_wf: "map_wf (txns st) \<Longrightarrow> map_wf (txns (update_all ws g st))"
  by (induction ws arbitrary: st) (auto simp: update_txn_wf)

lemma update_all_same:
  assumes "\<And>t. f (g t) = f t"
  shows "txn_get d f (update_all ws g st) = txn_get d f st"
  using assms by (induction ws arbitrary: st) (auto simp: txn_get_update_same)

lemma update_all_remove:
  assumes "\<And>t. f (g t) = removeAll x (f t)"
  shows "txn_get [] f (update_all ws g st) y =
    (if y \<in> set ws then removeAll x (txn_get [] f st y) else txn_get [] f st y)"
proof -
  have "\<not> tracked st y \<Longrightarrow> txn_get [] f st y = []" for st
    by (auto simp: txn_get_def tracked_iff)
  then show ?thesis
    using assms
    by (induction ws arbitrary: st) (auto simp: txn_get_update_map [where h = "removeAll x"])
qed

text \<open>The effect of removing a transaction, on every view.\<close>

definition forgets :: "txn_id \<Rightarrow> 'k ssi_state \<Rightarrow> 'k ssi_state \<Rightarrow> bool" where
  "forgets x st st' = (map_wf (txns st') \<and>
     (\<forall>y. tracked st' y = (y \<noteq> x \<and> tracked st y)) \<and>
     (\<forall>y. snap_of st' y = (if y = x then None else snap_of st y)) \<and>
     (\<forall>v w. edge st' v w = (v \<noteq> x \<and> w \<noteq> x \<and> edge st v w)) \<and>
     (\<forall>v w. edge_in st' v w = (v \<noteq> x \<and> w \<noteq> x \<and> edge_in st v w)) \<and>
     (\<forall>tb. set (get_default [] (relation_readers st') tb) = set (get_default [] (relation_readers st) tb) - {x}) \<and>
     (\<forall>i. set (get_default [] (tuple_readers st') i) = set (get_default [] (tuple_readers st) i) - {x}) \<and>
     (\<forall>tb. set (get_default [] (relation_writers st') tb) = set (get_default [] (relation_writers st) tb) - {x}) \<and>
     (\<forall>tb. set (get_default [] (whole_relation_writers st') tb) = set (get_default [] (whole_relation_writers st) tb) - {x}) \<and>
     (\<forall>i. set (get_default [] (tuple_writers st') i) = set (get_default [] (tuple_writers st) i) - {x}) \<and>
     (\<forall>tb. set (get_default [] (promoted_tuple_writers st') tb) = set (get_default [] (promoted_tuple_writers st) tb) - {x}))"

lemma promoted_purge:
  assumes "map_wf m"
  shows "get_default [] (hm_retain (\<lambda>_ ws. ws \<noteq> []) (hm_map_values (removeAll x) m)) tb =
    removeAll x (get_default [] m tb)"
    and "map_of (hm_retain (\<lambda>_ ws. ws \<noteq> []) (hm_map_values (removeAll x) m)) tb \<noteq> Some []"
  using assms by (auto simp: get_default_def col_simps split: option.splits)

lemma txn_get_removed [simp]:
  "txn_get d f (st\<lparr>txns := AList.delete x (txns st)\<rparr>) y = (if y = x then d else txn_get d f st y)"
  by (simp add: txn_get_def col_simps)

lemma purge_get_same:
  assumes "\<And>t a. f (t\<lparr>out_edges := a\<rparr>) = f t" "\<And>t a. f (t\<lparr>in_edges := a\<rparr>) = f t"
  shows "txn_get d f (purge x t st) y = txn_get d f st y"
  using assms by (simp add: purge_def Let_def update_all_same)

lemma purge_edges:
  "txn_get [] out_edges (purge x t st) v =
    (if v \<in> set (in_edges t) then removeAll x (txn_get [] out_edges st v) else txn_get [] out_edges st v)"
  "txn_get [] in_edges (purge x t st) v =
    (if v \<in> set (out_edges t) then removeAll x (txn_get [] in_edges st v) else txn_get [] in_edges st v)"
  by (simp_all add: purge_def Let_def update_all_same update_all_remove)

lemma purge_wf: "map_wf (txns st) \<Longrightarrow> map_wf (txns (purge x t st))"
  by (simp add: purge_def Let_def update_all_wf)

lemma tracked_purge [simp]: "tracked (purge x t st) = tracked st"
  by (simp add: purge_def Let_def)

lemma idx_forget:
  assumes "idx m f" and "f x \<subseteq> set js" and "f' = (\<lambda>y. if y = x then {} else f y)"
  shows "idx (fold (\<lambda>i. remove_reader i x) js m) f'"
proof -
  have "f' = (\<lambda>y. if y = x then f y - set js else f y)" using assms(2,3) by (auto simp: fun_eq_iff)
  with assms(1) show ?thesis by (rule idx_remove)
qed

lemma idx_without:
  "idx m f \<Longrightarrow> idx m' (\<lambda>y. if y = x then {} else f y) \<Longrightarrow>
   set (get_default [] m' i) = set (get_default [] m i) - {x}"
  by (auto simp: idx_def split: if_splits)

lemma indexed_purge:
  assumes ix: "indexed st" and t: "hm_get (txns st) x = Some t"
    and st': "st' = purge x t (st\<lparr>txns := hm_remove x (txns st)\<rparr>)"
  shows "idx (relation_readers st') (\<lambda>y. if y = x then {} else rlocks st y)"
    "idx (tuple_readers st') (\<lambda>y. if y = x then {} else tlocks st y)"
    "idx (relation_writers st') (\<lambda>y. if y = x then {} else rwrites st y)"
    "idx (whole_relation_writers st') (\<lambda>y. if y = x then {} else wwrites st y)"
    "idx (tuple_writers st') (\<lambda>y. if y = x then {} else twrites st y)"
proof -
  note unf = st' purge_def Let_def fold_tuples
  show "idx (relation_readers st') (\<lambda>y. if y = x then {} else rlocks st y)"
    "idx (relation_writers st') (\<lambda>y. if y = x then {} else rwrites st y)"
    "idx (whole_relation_writers st') (\<lambda>y. if y = x then {} else wwrites st y)"
    using ix by (simp_all add: unf indexed_def idx_forget [OF _ _ refl] txn_get_some [OF t])
  show "idx (tuple_readers st') (\<lambda>y. if y = x then {} else tlocks st y)"
    "idx (tuple_writers st') (\<lambda>y. if y = x then {} else twrites st y)"
    using ix tuples_subset [of "tuple_locks t"] tuples_subset [of "tuple_writes t"]
    by (simp_all add: unf indexed_def idx_forget [OF _ _ refl] txn_get_some [OF t])
qed

lemma aborted_forgets:
  assumes inv: "ssi_inv st" and tr: "tracked st x"
  shows "forgets x st (aborted x st) \<and> ssi_inv (aborted x st)"
proof -
  obtain t where t: "hm_get (txns st) x = Some t" using tr by (auto simp: tracked_iff)
  let ?st = "purge x t (st\<lparr>txns := hm_remove x (txns st)\<rparr>)"
  have st': "aborted x st = ?st" by (simp add: aborted_def t)
  have ix: "indexed st" and wf: "map_wf (promoted_tuple_writers st)" and e: "edges_ok st"
    using inv by (simp_all add: ssi_inv_def promoted_ok_def)
  note tabs = indexed_purge [OF ix t refl]
  have get: "txn_get d f ?st y = (if y = x then d else txn_get d f st y)"
    if "\<And>t a. f (t\<lparr>out_edges := a\<rparr>) = f t" "\<And>t a. f (t\<lparr>in_edges := a\<rparr>) = f t" for d y and f :: "'a txn_ssi \<Rightarrow> 'c"
    using that by (simp add: purge_get_same)
  have out: "edge ?st v w = (v \<noteq> x \<and> w \<noteq> x \<and> edge st v w)" for v w
  proof -
    have "edge st v x \<longleftrightarrow> v \<in> set (in_edges t)"
      using e by (simp add: edges_ok_def) (simp add: edge_in_def txn_get_some [OF t])
    then show ?thesis by (auto simp: edge_def purge_edges)
  qed
  have inn: "edge_in ?st v w = (v \<noteq> x \<and> w \<noteq> x \<and> edge_in st v w)" for v w
  proof -
    have "edge_in st x w \<longleftrightarrow> edge st x w" using e by (simp add: edges_ok_def)
    also have "\<dots> \<longleftrightarrow> w \<in> set (out_edges t)" by (simp add: edge_def txn_get_some [OF t])
    finally show ?thesis by (auto simp: edge_in_def purge_edges)
  qed
  have promoted: "get_default [] (promoted_tuple_writers ?st) tb = removeAll x (get_default [] (promoted_tuple_writers st) tb)"
    "map_of (promoted_tuple_writers ?st) tb \<noteq> Some []" "map_wf (promoted_tuple_writers ?st)" for tb
    using promoted_purge [OF wf] wf by (simp_all add: purge_def Let_def)
  have trk: "tracked (st\<lparr>txns := hm_remove x (txns st)\<rparr>) y = (y \<noteq> x \<and> tracked st y)" for y
    by (simp add: tracked_def col_simps)
  have without: "set (get_default [] (relation_readers ?st) tb) = set (get_default [] (relation_readers st) tb) - {x}"
    "set (get_default [] (tuple_readers ?st) i) = set (get_default [] (tuple_readers st) i) - {x}"
    "set (get_default [] (relation_writers ?st) tb) = set (get_default [] (relation_writers st) tb) - {x}"
    "set (get_default [] (whole_relation_writers ?st) tb) = set (get_default [] (whole_relation_writers st) tb) - {x}"
    "set (get_default [] (tuple_writers ?st) i) = set (get_default [] (tuple_writers st) i) - {x}" for tb i
    using ix tabs [THEN idx_without [rotated]] by (simp_all add: indexed_def)
  have f: "forgets x st ?st"
    using inv by (simp add: forgets_def out inn get trk promoted purge_wf ssi_inv_def without)
  have "relevant ?st v w = (v \<noteq> x \<and> w \<noteq> x \<and> relevant st v w)" for v w
    by (auto simp: relevant_def trk get)
  then have "edges_ok ?st" using e by (simp add: edges_ok_def out inn)
  moreover have "capped ?st" using inv by (simp add: ssi_inv_def capped_def get get_default_def)
  moreover have "promoted_ok ?st"
  proof -
    have sub: "set (get_default [] (promoted_tuple_writers st) tb) \<subseteq> set (get_default [] (relation_writers st) tb)" for tb
      using inv by (simp add: ssi_inv_def promoted_ok_def)
    show ?thesis unfolding promoted_ok_def promoted(1) without(3) using promoted(2,3) sub by auto
  qed
  moreover have "indexed ?st" using tabs
    by (simp add: indexed_def get tuples_Nil if_distrib [of set] if_distrib [of tuples] cong: if_cong)
  ultimately show ?thesis using f by (simp add: st' ssi_inv_def forgets_def)
qed

section \<open>Methods\<close>

lemma ssi_inv_register:
  assumes "ssi_inv st"
  shows "ssi_inv (ssi_register reg y snap st)"
proof (cases "tracked st (top_of reg y)")
  case False
  let ?x = "top_of reg y" and ?st = "ssi_register reg y snap st"
  have st: "?st = st\<lparr>txns := hm_insert ?x (txn_ssi_new snap) (txns st)\<rparr>"
    using False by (simp add: ssi_register_def)
  have none: "txn_get d f st ?x = d" for d and f :: "'a txn_ssi \<Rightarrow> 'b" using False by (simp add: txn_get_def tracked_iff)
  have get: "txn_get [] f ?st = txn_get [] f st" if "f (txn_ssi_new snap) = []" for f :: "'a txn_ssi \<Rightarrow> 'c list"
    using that False by (auto simp: st fun_eq_iff txn_get_def col_simps tracked_iff)
  have "relevant st v w \<Longrightarrow> relevant ?st v w" for v w
    using False by (auto simp: relevant_def st txn_get_def tracked_iff col_simps split: option.splits)
  then have "edges_ok ?st" using assms by (simp add: ssi_inv_def edges_ok_def edge_def edge_in_def get txn_ssi_new_def)
  then show ?thesis using assms
    by (simp add: ssi_inv_def indexed_def promoted_ok_def capped_def get txn_ssi_new_def) (simp add: st)
qed (use assms in \<open>simp add: ssi_register_def\<close>)

lemma ssi_inv_update:
  assumes "ssi_inv st"
    and "\<And>t. ssi_snapshot (g t) = ssi_snapshot t" "\<And>t. relation_locks (g t) = relation_locks t"
    "\<And>t. tuple_locks (g t) = tuple_locks t" "\<And>t. relation_writes (g t) = relation_writes t"
    "\<And>t. whole_relation_writes (g t) = whole_relation_writes t" "\<And>t. tuple_writes (g t) = tuple_writes t"
    "\<And>t. out_edges (g t) = out_edges t" "\<And>t. in_edges (g t) = in_edges t"
  shows "ssi_inv (update_txn x g st)"
  using assms by (auto simp: ssi_inv_def indexed_def promoted_ok_def capped_def txn_get_update_same
      update_txn_wf intro: edges_ok_cong [of st])

lemma ssi_inv_finished: "ssi_inv st \<Longrightarrow> ssi_inv (finished x st)"
  unfolding finished_def by (rule ssi_inv_update) simp_all

lemma ssi_inv_seq: "ssi_inv (st\<lparr>next_commit_seq := n\<rparr>) = ssi_inv st"
proof -
  have "edge (st\<lparr>next_commit_seq := n\<rparr>) = edge st" "edge_in (st\<lparr>next_commit_seq := n\<rparr>) = edge_in st"
    by (simp_all add: fun_eq_iff edge_def edge_in_def)
  then show ?thesis by (simp add: ssi_inv_def indexed_def promoted_ok_def capped_def edges_ok_def)
qed

lemma ssi_inv_commit_check: "ssi_inv st \<Longrightarrow> ssi_inv (snd (commit_check x st))"
  by (auto simp: commit_check_def ssi_inv_seq intro!: ssi_inv_update split: option.splits)

lemma ssi_inv_aborted: "ssi_inv st \<Longrightarrow> ssi_inv (aborted x st)"
  using aborted_forgets [of st x] by (cases "tracked st x") (auto simp: aborted_def tracked_iff)

lemma ssi_inv_release: "ssi_inv st \<Longrightarrow> ssi_inv (release_up_to h st)"
proof -
  have "ssi_inv st \<Longrightarrow> ssi_inv (fold aborted xs st)" for xs
    by (induction xs arbitrary: st) (auto simp: ssi_inv_aborted)
  then show "ssi_inv st \<Longrightarrow> ssi_inv (release_up_to h st)" by (simp add: release_up_to_def)
qed

lemma update_txn_cong:
  "(\<And>t. hm_get (txns st) x = Some t \<Longrightarrow> g t = g' t) \<Longrightarrow> update_txn x g st = update_txn x g' st"
  by (auto simp: update_txn_def split: option.splits)

abbreviation held_keys :: "'k ssi_state \<Rightarrow> txn_id \<Rightarrow> table_id \<Rightarrow> 'k list" where
  "held_keys st x tb \<equiv> get_default [] (txn_get [] tuple_locks st x) tb"

lemma record_tuple_read_eq:
  assumes "x = top_of reg r"
  shows "record_tuple_read reg r tb key st =
    (if \<not> tracked st x then st
     else let keys = held_keys st x tb;
              st' = form_all (map (Pair x) (tuple_read_writers tb key st)) st
       in if key \<in> set keys then st'
          else if length (List.insert key keys) > SSI_TUPLE_LOCK_CAP
          then add_relation_lock x tb (drop_tuple_locks x tb (List.insert key keys) st')
          else add_tuple_lock x tb key st')"
proof (cases "tracked st x")
  case True
  let ?st' = "form_all (map (Pair x) (tuple_read_writers tb key st)) st"
  have "tracked ?st' x" using True by simp
  then obtain t where t: "hm_get (txns ?st') x = Some t" by (rule trackedE)
  have k: "get_default [] (tuple_locks t) tb = held_keys st x tb"
    using txn_get_some [OF t, of "[]" tuple_locks] by simp
  have "update_txn x (\<lambda>t. t\<lparr>tuple_locks := hm_insert tb (List.insert key (held_keys st x tb)) (tuple_locks t)\<rparr>) ?st'
    = update_txn x (\<lambda>t. t\<lparr>tuple_locks := hm_upsert [] tb (List.insert key) (tuple_locks t)\<rparr>) ?st'"
    by (rule update_txn_cong) (simp add: t hm_upsert_def flip: k)
  then show ?thesis
    using True t
    by (simp add: record_tuple_read_def Let_def form_to k add_tuple_lock_def drop_tuple_locks_def
        flip: assms del: in_set_insert not_in_set_insert)
qed (simp add: record_tuple_read_def flip: assms)

lemma ssi_inv_record_tuple_read:
  assumes "ssi_inv st"
  shows "ssi_inv (record_tuple_read reg r tb key st)"
  using assms
  by (auto simp: record_tuple_read_eq [OF refl] Let_def
      intro!: ssi_inv_form_all ssi_inv_add_relation_lock ssi_inv_drop_tuple_locks ssi_inv_add_tuple_lock)

lemma ssi_inv_record_relation_read:
  assumes "ssi_inv st"
  shows "ssi_inv (record_relation_read reg r tb st)"
  using assms
  by (auto simp: record_relation_read_def Let_def form_to intro!: ssi_inv_form_all ssi_inv_add_relation_lock)

lemma note_write_eq:
  assumes "x = top_of reg w"
  shows "note_write reg w tb key st =
    (if \<not> tracked st x then (Inr (), st)
     else let st' = add_write x tb key (form_all (map (\<lambda>r. (r, x))
                (get_default [] (relation_readers st) tb @ get_default [] (tuple_readers st) (tb, key))) st)
       in (if is_doomed_pivot st' x then Inl serialization_failure else Inr (), st'))"
proof (cases "tracked st x")
  case True
  let ?st' = "form_all (map (\<lambda>r. (r, x))
     (get_default [] (relation_readers st) tb @ get_default [] (tuple_readers st) (tb, key))) st"
  have "tracked ?st' x" using True by simp
  then obtain t where t: "hm_get (txns ?st') x = Some t" by (rule trackedE)
  show ?thesis
    using True t
    by (simp add: note_write_def Let_def form_from add_write_def flip: assms del: map_append fold_append)
qed (simp add: note_write_def flip: assms)

lemma note_relation_write_eq:
  assumes "x = top_of reg w"
  shows "note_relation_write reg w tb st =
    (if \<not> tracked st x then (Inr (), st)
     else let st' = add_relation_write x tb (form_all (map (\<lambda>r. (r, x)) (table_readers tb st)) st)
       in (if is_doomed_pivot st' x then Inl serialization_failure else Inr (), st'))"
proof (cases "tracked st x")
  case True
  let ?st' = "form_all (map (\<lambda>r. (r, x)) (table_readers tb st)) st"
  have "tracked ?st' x" using True by simp
  then obtain t where t: "hm_get (txns ?st') x = Some t" by (rule trackedE)
  show ?thesis
    using True t
    by (simp add: note_relation_write_def Let_def form_from add_relation_write_def flip: assms)
qed (simp add: note_relation_write_def flip: assms)

lemma ssi_inv_note_write: "ssi_inv st \<Longrightarrow> ssi_inv (snd (note_write reg w tb key st))"
  by (auto simp: note_write_eq [OF refl] Let_def simp del: map_append fold_append
      intro!: ssi_inv_add_write ssi_inv_form_all)

lemma ssi_inv_note_relation_write: "ssi_inv st \<Longrightarrow> ssi_inv (snd (note_relation_write reg w tb st))"
  by (auto simp: note_relation_write_eq [OF refl] Let_def intro!: ssi_inv_add_relation_write ssi_inv_form_all)

lemma promote_reader_eq:
  "promote_reader tb ws r st =
    add_relation_lock r tb (form_all (map (Pair r) ws) (drop_tuple_locks r tb (held_keys st r tb) st))"
proof -
  have "(case hm_get (txns st) r of None \<Rightarrow> [] | Some t \<Rightarrow> get_default [] (tuple_locks t) tb) = held_keys st r tb"
    by (auto simp: txn_get_def get_default_def split: option.splits)
  then show ?thesis by (simp add: promote_reader_def Let_def form_to drop_tuple_locks_def)
qed

lemma add_relation_lock_untracked: "\<not> tracked st x \<Longrightarrow> add_relation_lock x tb st = st"
  by (simp add: add_relation_lock_eq)

lemma promote_reader_untracked: "\<not> tracked st r \<Longrightarrow> promote_reader tb ws r st = st"
proof -
  assume u: "\<not> tracked st r"
  have "form_all (map (Pair r) ws) st = st" for ws
    using u by (induction ws) (auto simp: form_rw_edge_eq dest: relevant_tracked)
  moreover have "drop_tuple_locks r tb (held_keys st r tb) st = st"
    using u by (auto simp: drop_tuple_locks_def update_txn_def tracked_iff txn_get_def get_default_def)
  ultimately show ?thesis using u by (simp add: promote_reader_eq add_relation_lock_untracked)
qed

lemma ssi_inv_promote_reader: "ssi_inv st \<Longrightarrow> ssi_inv (promote_reader tb ws r st)"
  by (cases "tracked st r")
    (simp_all add: promote_reader_untracked, simp add: promote_reader_eq ssi_inv_add_relation_lock
      ssi_inv_form_all ssi_inv_drop_tuple_locks)

lemma ssi_inv_promote_readers: "ssi_inv st \<Longrightarrow> ssi_inv (fold (promote_reader tb ws) rs st)"
  by (induction rs arbitrary: st) (auto simp: ssi_inv_promote_reader)

definition promote_writers :: "table_id \<Rightarrow> 'k ssi_state \<Rightarrow> 'k ssi_state" where
  "promote_writers tb st =
     (let ws = get_default [] (relation_writers st) tb in
      if ws = [] then st
      else st\<lparr>promoted_tuple_writers := hm_upsert [] tb (List.union ws) (promoted_tuple_writers st)\<rparr>)"

lemma union_Nil: "List.union xs ys = [] \<longleftrightarrow> xs = [] \<and> ys = []"
  by (metis List.set_union Un_empty set_empty)

lemma ssi_inv_promote_writers:
  assumes "ssi_inv st"
  shows "ssi_inv (promote_writers tb st)"
proof (cases "get_default [] (relation_writers st) tb = []")
  case False
  let ?st = "promote_writers tb st"
  have st: "?st = st\<lparr>promoted_tuple_writers := hm_upsert [] tb
      (List.union (get_default [] (relation_writers st) tb)) (promoted_tuple_writers st)\<rparr>"
    using False by (simp add: promote_writers_def Let_def)
  have "promoted_ok ?st"
    using assms False
    by (auto simp: st ssi_inv_def promoted_ok_def hm.default_get_upsert union_Nil hm.get_upsert
        split: if_splits)
  moreover have "edges_ok ?st" using assms by (auto simp: ssi_inv_def st intro: edges_ok_cong [of st])
  ultimately show ?thesis using assms by (simp add: ssi_inv_def indexed_def capped_def) (simp add: st)
qed (use assms in \<open>simp add: promote_writers_def\<close>)

definition tuple_lock_holders :: "table_id \<Rightarrow> 'k ssi_state \<Rightarrow> txn_id list" where
  "tuple_lock_holders tb st = map fst (filter (\<lambda>(_, t). hm_contains (tuple_locks t) tb) (txns st))"

lemma promote_eq:
  "promote_table_identity_locks_to_relation tb st =
    fold (promote_reader tb (get_default [] (relation_writers st) tb)) (tuple_lock_holders tb st)
      (promote_writers tb st)"
  by (simp add: promote_table_identity_locks_to_relation_def promote_writers_def tuple_lock_holders_def Let_def)

lemma ssi_inv_promote: "ssi_inv st \<Longrightarrow> ssi_inv (promote_table_identity_locks_to_relation tb st)"
  by (simp add: promote_eq ssi_inv_promote_readers ssi_inv_promote_writers)

lemmas ssi_inv_methods = ssi_inv_new ssi_inv_register ssi_inv_finished ssi_inv_aborted ssi_inv_release
  ssi_inv_commit_check ssi_inv_record_tuple_read ssi_inv_record_relation_read ssi_inv_note_write
  ssi_inv_note_relation_write ssi_inv_promote

end
