(* ===== verification/Ssi_System.thy ===== *)
theory Ssi_System
  imports Ssi_Inv
begin

text \<open>
  Histories of the serializability tracker. \<open>ssi_step\<close> runs its methods in any order, as the
  sessions of the server interleave them, and keeps beside the state the accesses of the
  tracked transactions: who read or wrote which row (or a whole relation) and in which
  identity epoch of the table, an epoch ending when primary-key DDL rewrites the row keys.
\<close>

section \<open>Histories\<close>

type_synonym 'k access = "txn_id \<times> table_id \<times> 'k option \<times> nat"

record 'k ssi_sys =
  sy_st :: "'k ssi_state"
  sy_epoch :: "table_id \<Rightarrow> nat"
  sy_reads :: "'k access list"
  sy_writes :: "'k access list"

definition may_conflict :: "'k access \<Rightarrow> 'k access \<Rightarrow> bool" where
  "may_conflict = (\<lambda>(r, tb, ko, e) (w, tb', ko', e').
     tb = tb' \<and> (ko = None \<or> ko' = None \<or> ko = ko' \<or> e \<noteq> e'))"

definition settle :: "'k ssi_state \<Rightarrow> 'k ssi_sys \<Rightarrow> 'k ssi_sys" where
  "settle st s = s\<lparr>sy_st := st, sy_reads := filter (\<lambda>(x, _). tracked st x) (sy_reads s),
     sy_writes := filter (\<lambda>(x, _). tracked st x) (sy_writes s)\<rparr>"

definition log_read :: "txn_id \<Rightarrow> table_id \<Rightarrow> 'k option \<Rightarrow> 'k ssi_sys \<Rightarrow> 'k ssi_sys" where
  "log_read x tb ko s = s\<lparr>sy_reads := (x, tb, ko, sy_epoch s tb) # sy_reads s\<rparr>"

definition log_write :: "txn_id \<Rightarrow> table_id \<Rightarrow> 'k option \<Rightarrow> 'k ssi_sys \<Rightarrow> 'k ssi_sys" where
  "log_write x tb ko s = s\<lparr>sy_writes := (x, tb, ko, sy_epoch s tb) # sy_writes s\<rparr>"

inductive ssi_step :: "'k ssi_sys \<Rightarrow> 'k ssi_sys \<Rightarrow> bool" where
  track: "ssi_step s (settle (ssi_register reg x snap (sy_st s)) s)"
| finish: "ssi_step s (settle (ssi_finish x isolation committed horizon (sy_st s)) s)"
| check: "ssi_step s (settle (snd (commit_check x (sy_st s))) s)"
| read_tuple: "ssi_step s (settle (record_tuple_read reg x tb k (sy_st s))
    (log_read (top_of reg x) tb (Some k) s))"
| read_relation: "ssi_step s (settle (record_relation_read reg x tb (sy_st s))
    (log_read (top_of reg x) tb None s))"
| write_tuple: "ssi_step s (settle (snd (note_write reg x tb k (sy_st s)))
    (log_write (top_of reg x) tb (Some k) s))"
| write_relation: "ssi_step s (settle (snd (note_relation_write reg x tb (sy_st s)))
    (log_write (top_of reg x) tb None s))"
| rewrite_identity: "ssi_step s (settle (promote_table_identity_locks_to_relation tb (sy_st s))
    (s\<lparr>sy_epoch := (sy_epoch s)(tb := Suc (sy_epoch s tb))\<rparr>))"

definition ssi_init :: "'k ssi_sys" where
  "ssi_init = \<lparr>sy_st = ssi_new, sy_epoch = (\<lambda>_. 0), sy_reads = [], sy_writes = []\<rparr>"

inductive ssi_reachable :: "'k ssi_sys \<Rightarrow> bool" where
  start: "ssi_reachable ssi_init"
| step: "ssi_reachable s \<Longrightarrow> ssi_step s t \<Longrightarrow> ssi_reachable t"

section \<open>Every access is covered by a lock or a writer entry\<close>

definition read_covered :: "'k ssi_state \<Rightarrow> (table_id \<Rightarrow> nat) \<Rightarrow> 'k access \<Rightarrow> bool" where
  "read_covered st ep = (\<lambda>(x, tb, ko, e). x \<in> set (get_default [] (relation_readers st) tb)
     \<or> (e = ep tb \<and> (\<exists>k. ko = Some k \<and> x \<in> set (get_default [] (tuple_readers st) (tb, k)))))"

definition write_covered :: "'k ssi_state \<Rightarrow> (table_id \<Rightarrow> nat) \<Rightarrow> 'k access \<Rightarrow> bool" where
  "write_covered st ep = (\<lambda>(x, tb, ko, e). x \<in> set (get_default [] (relation_writers st) tb)
     \<and> (case ko of None \<Rightarrow> x \<in> set (get_default [] (whole_relation_writers st) tb)
        | Some k \<Rightarrow> x \<in> set (get_default [] (tuple_writers st) (tb, k)))
     \<and> (e \<noteq> ep tb \<longrightarrow> x \<in> set (get_default [] (promoted_tuple_writers st) tb)))"

definition connected :: "'k ssi_state \<Rightarrow> 'k access \<Rightarrow> 'k access \<Rightarrow> bool" where
  "connected st r w = (may_conflict r w \<longrightarrow> relevant st (fst r) (fst w) \<longrightarrow> edge st (fst r) (fst w))"

definition sys_ok :: "'k ssi_sys \<Rightarrow> bool" where
  "sys_ok s = (ssi_inv (sy_st s)
     \<and> (\<forall>a \<in> set (sy_reads s). read_covered (sy_st s) (sy_epoch s) a)
     \<and> (\<forall>a \<in> set (sy_writes s). write_covered (sy_st s) (sy_epoch s) a)
     \<and> (\<forall>r \<in> set (sy_reads s). \<forall>w \<in> set (sy_writes s). connected (sy_st s) r w))"

text \<open>
  What a method must keep for the transactions that stay tracked: their entries in the tables
  (a tuple lock may turn into a relation lock) and the edges between them.
\<close>

definition grows :: "'k ssi_state \<Rightarrow> 'k ssi_state \<Rightarrow> bool" where
  "grows st st' = (\<forall>x. tracked st' x \<longrightarrow>
     (\<forall>tb. (x \<in> set (get_default [] (relation_readers st) tb) \<longrightarrow> x \<in> set (get_default [] (relation_readers st') tb))
       \<and> (\<forall>k. x \<in> set (get_default [] (tuple_readers st) (tb, k)) \<longrightarrow>
            x \<in> set (get_default [] (tuple_readers st') (tb, k)) \<or> x \<in> set (get_default [] (relation_readers st') tb))
       \<and> (x \<in> set (get_default [] (relation_writers st) tb) \<longrightarrow> x \<in> set (get_default [] (relation_writers st') tb))
       \<and> (x \<in> set (get_default [] (whole_relation_writers st) tb) \<longrightarrow> x \<in> set (get_default [] (whole_relation_writers st') tb))
       \<and> (\<forall>k. x \<in> set (get_default [] (tuple_writers st) (tb, k)) \<longrightarrow> x \<in> set (get_default [] (tuple_writers st') (tb, k)))
       \<and> (x \<in> set (get_default [] (promoted_tuple_writers st) tb) \<longrightarrow> x \<in> set (get_default [] (promoted_tuple_writers st') tb)))
     \<and> (\<forall>y. tracked st' y \<longrightarrow> tracked st x \<longrightarrow> tracked st y \<longrightarrow>
          (relevant st' x y \<longrightarrow> relevant st x y) \<and> (edge st x y \<longrightarrow> edge st' x y)))"

lemma grows_refl: "grows st st"
  by (simp add: grows_def)

lemma grows_trans:
  assumes "grows st st'" "grows st' st''" and "\<And>x. tracked st'' x \<Longrightarrow> tracked st' x"
  shows "grows st st''"
  using assms unfolding grows_def by meson

lemma growsD:
  assumes "grows st st'" "tracked st' x"
  shows "x \<in> set (get_default [] (relation_readers st) tb) \<Longrightarrow> x \<in> set (get_default [] (relation_readers st') tb)"
    "x \<in> set (get_default [] (tuple_readers st) (tb, k)) \<Longrightarrow>
     x \<in> set (get_default [] (tuple_readers st') (tb, k)) \<or> x \<in> set (get_default [] (relation_readers st') tb)"
    "x \<in> set (get_default [] (relation_writers st) tb) \<Longrightarrow> x \<in> set (get_default [] (relation_writers st') tb)"
    "x \<in> set (get_default [] (whole_relation_writers st) tb) \<Longrightarrow> x \<in> set (get_default [] (whole_relation_writers st') tb)"
    "x \<in> set (get_default [] (tuple_writers st) (tb, k)) \<Longrightarrow> x \<in> set (get_default [] (tuple_writers st') (tb, k))"
    "x \<in> set (get_default [] (promoted_tuple_writers st) tb) \<Longrightarrow> x \<in> set (get_default [] (promoted_tuple_writers st') tb)"
    "tracked st' y \<Longrightarrow> tracked st x \<Longrightarrow> tracked st y \<Longrightarrow> relevant st' x y \<Longrightarrow> relevant st x y"
    "tracked st' y \<Longrightarrow> tracked st x \<Longrightarrow> tracked st y \<Longrightarrow> edge st x y \<Longrightarrow> edge st' x y"
  using assms unfolding grows_def by blast+

lemma grows_covered:
  assumes "grows st st'" "tracked st' (fst a)"
  shows "read_covered st ep a \<Longrightarrow> read_covered st' ep a"
    and "write_covered st ep a \<Longrightarrow> write_covered st' ep a"
proof -
  show "read_covered st ep a \<Longrightarrow> read_covered st' ep a"
    using growsD(1,2) [OF assms] by (cases a) (auto simp: read_covered_def)
  show "write_covered st ep a \<Longrightarrow> write_covered st' ep a"
    using growsD(3-6) [OF assms] by (cases a) (auto simp: write_covered_def split: option.splits)
qed

lemma txn_get_untracked: "\<not> tracked st x \<Longrightarrow> txn_get d f st x = d"
  by (simp add: tracked_iff txn_get_def)

lemma covered_tracked:
  assumes "ssi_inv st"
  shows "read_covered st ep a \<Longrightarrow> tracked st (fst a)" "write_covered st ep a \<Longrightarrow> tracked st (fst a)"
proof -
  have ix: "idx (relation_readers st) (rlocks st)" "idx (tuple_readers st) (tlocks st)"
    "idx (relation_writers st) (rwrites st)"
    using assms by (simp_all add: ssi_inv_def indexed_def)
  have r: "x \<in> set (get_default [] (relation_readers st) tb) \<Longrightarrow> tracked st x" for x tb
    by (rule ccontr) (simp add: idx_mem [OF ix(1)] txn_get_untracked)
  have t: "x \<in> set (get_default [] (tuple_readers st) i) \<Longrightarrow> tracked st x" for x i
    by (rule ccontr) (simp add: idx_mem [OF ix(2)] txn_get_untracked tuples_Nil)
  have w: "x \<in> set (get_default [] (relation_writers st) tb) \<Longrightarrow> tracked st x" for x tb
    by (rule ccontr) (simp add: idx_mem [OF ix(3)] txn_get_untracked)
  show "read_covered st ep a \<Longrightarrow> tracked st (fst a)" "write_covered st ep a \<Longrightarrow> tracked st (fst a)"
    by (cases a; auto simp: read_covered_def write_covered_def intro: r t w)+
qed

lemma grows_connected:
  assumes "grows st st'" "ssi_inv st" "tracked st' (fst r)" "tracked st' (fst w)"
    "read_covered st ep r" "write_covered st ep w" "connected st r w"
  shows "connected st' r w"
  using assms covered_tracked(1) [of st ep r] covered_tracked(2) [of st ep w]
    growsD(7,8) [OF assms(1,3,4)]
  by (simp add: connected_def)

lemma settle_simps [simp]:
  "sy_st (settle st s) = st" "sy_epoch (settle st s) = sy_epoch s"
  "sy_st (log_read x tb ko s) = sy_st s" "sy_epoch (log_read x tb ko s) = sy_epoch s"
  "sy_st (log_write x tb ko s) = sy_st s" "sy_epoch (log_write x tb ko s) = sy_epoch s"
  "sy_writes (log_read x tb ko s) = sy_writes s" "sy_reads (log_write x tb ko s) = sy_reads s"
  by (simp_all add: settle_def log_read_def log_write_def)

lemma sys_ok_settle:
  assumes "sys_ok s" "ssi_inv st'" "grows (sy_st s) st'"
  shows "sys_ok (settle st' s)"
  using assms grows_covered [OF assms(3)] grows_connected [OF assms(3)]
  by (auto simp: sys_ok_def settle_def)

lemma sys_ok_read:
  assumes "sys_ok s" "ssi_inv st'" "grows (sy_st s) st'"
    and new: "tracked st' x \<Longrightarrow> read_covered st' (sy_epoch s) (x, tb, ko, sy_epoch s tb)"
    and conn: "\<And>w. tracked st' x \<Longrightarrow> write_covered (sy_st s) (sy_epoch s) w \<Longrightarrow> tracked st' (fst w) \<Longrightarrow>
      connected st' (x, tb, ko, sy_epoch s tb) w"
  shows "sys_ok (settle st' (log_read x tb ko s))"
  using assms(1,2) grows_covered [OF assms(3)] grows_connected [OF assms(3)] new conn
  by (auto simp: sys_ok_def settle_def log_read_def)

lemma sys_ok_write:
  assumes "sys_ok s" "ssi_inv st'" "grows (sy_st s) st'"
    and new: "tracked st' x \<Longrightarrow> write_covered st' (sy_epoch s) (x, tb, ko, sy_epoch s tb)"
    and conn: "\<And>r. tracked st' x \<Longrightarrow> read_covered (sy_st s) (sy_epoch s) r \<Longrightarrow> tracked st' (fst r) \<Longrightarrow>
      connected st' r (x, tb, ko, sy_epoch s tb)"
  shows "sys_ok (settle st' (log_write x tb ko s))"
  using assms(1,2) grows_covered [OF assms(3)] grows_connected [OF assms(3)] new conn
  by (auto simp: sys_ok_def settle_def log_write_def)

section \<open>Methods\<close>

lemma growsI:
  assumes "\<And>x tb. tracked st' x \<Longrightarrow> x \<in> set (get_default [] (relation_readers st) tb) \<Longrightarrow>
      x \<in> set (get_default [] (relation_readers st') tb)"
    "\<And>x tb k. tracked st' x \<Longrightarrow> x \<in> set (get_default [] (tuple_readers st) (tb, k)) \<Longrightarrow>
      x \<in> set (get_default [] (tuple_readers st') (tb, k)) \<or> x \<in> set (get_default [] (relation_readers st') tb)"
    "\<And>x tb. tracked st' x \<Longrightarrow> x \<in> set (get_default [] (relation_writers st) tb) \<Longrightarrow>
      x \<in> set (get_default [] (relation_writers st') tb)"
    "\<And>x tb. tracked st' x \<Longrightarrow> x \<in> set (get_default [] (whole_relation_writers st) tb) \<Longrightarrow>
      x \<in> set (get_default [] (whole_relation_writers st') tb)"
    "\<And>x tb k. tracked st' x \<Longrightarrow> x \<in> set (get_default [] (tuple_writers st) (tb, k)) \<Longrightarrow>
      x \<in> set (get_default [] (tuple_writers st') (tb, k))"
    "\<And>x tb. tracked st' x \<Longrightarrow> x \<in> set (get_default [] (promoted_tuple_writers st) tb) \<Longrightarrow>
      x \<in> set (get_default [] (promoted_tuple_writers st') tb)"
    "\<And>x y. tracked st' x \<Longrightarrow> tracked st' y \<Longrightarrow> tracked st x \<Longrightarrow> tracked st y \<Longrightarrow> relevant st' x y \<Longrightarrow> relevant st x y"
    "\<And>x y. tracked st' x \<Longrightarrow> tracked st' y \<Longrightarrow> edge st x y \<Longrightarrow> edge st' x y"
  shows "grows st st'"
  unfolding grows_def using assms by blast

lemma edge_cong: "txn_get [] out_edges st' = txn_get [] out_edges st \<Longrightarrow> edge st' = edge st"
  by (simp add: edge_def fun_eq_iff)

lemma grows_tables_only:
  assumes "relation_readers st' = relation_readers st" "tuple_readers st' = tuple_readers st"
    "relation_writers st' = relation_writers st" "whole_relation_writers st' = whole_relation_writers st"
    "tuple_writers st' = tuple_writers st" "promoted_tuple_writers st' = promoted_tuple_writers st"
    "\<And>x y. tracked st x \<Longrightarrow> tracked st y \<Longrightarrow> relevant st' x y \<Longrightarrow> relevant st x y"
    "\<And>x y. edge st x y \<Longrightarrow> edge st' x y"
  shows "grows st st'"
  using assms by (intro growsI) simp_all

lemma grows_form_all: "grows st (form_all ps st)"
  by (rule grows_tables_only) (simp_all add: edge_form_all)

lemma grows_update:
  assumes "\<And>t. ssi_snapshot (g t) = ssi_snapshot t" "\<And>t. out_edges (g t) = out_edges t"
  shows "grows st (update_txn x g st)"
  using assms by (intro grows_tables_only) (simp_all add: edge_def txn_get_update_same)

lemma grows_register: "grows st (ssi_register reg y snap st)"
proof (cases "tracked st (top_of reg y)")
  case False
  let ?st = "ssi_register reg y snap st"
  have st: "?st = st\<lparr>txns := hm_insert (top_of reg y) (txn_ssi_new snap) (txns st)\<rparr>"
    using False by (simp add: ssi_register_def)
  have "txn_get d f ?st x = txn_get d f st x" if "tracked st x" for d x and f :: "'a txn_ssi \<Rightarrow> snapshot option"
    using that False by (auto simp: st txn_get_def tracked_iff col_simps)
  moreover have "edge st v w \<Longrightarrow> edge ?st v w" for v w
    using False by (auto simp: st edge_def txn_get_def tracked_iff col_simps split: option.splits)
  ultimately show ?thesis by (intro grows_tables_only) (simp_all add: relevant_def, simp_all add: st)
qed (simp add: ssi_register_def grows_refl)

lemma grows_commit_check: "grows st (snd (commit_check x st))"
proof -
  have "grows st (st\<lparr>next_commit_seq := n\<rparr>)" for n
    by (rule grows_tables_only) (simp_all add: edge_def)
  then have "grows st (update_txn x g (st\<lparr>next_commit_seq := n\<rparr>))"
    if "\<And>t. ssi_snapshot (g t) = ssi_snapshot t" "\<And>t. out_edges (g t) = out_edges t" for g n
    using grows_update [OF that] by (rule grows_trans) simp
  then show ?thesis by (auto simp: commit_check_def grows_refl split: option.splits)
qed

lemma grows_aborted:
  assumes "ssi_inv st"
  shows "grows st (aborted x st)"
proof (cases "tracked st x")
  case True
  then have f: "forgets x st (aborted x st)" using aborted_forgets [OF assms] by blast
  then show ?thesis
    by (intro growsI) (auto simp: forgets_def relevant_def split: if_splits)
qed (auto simp: aborted_def tracked_iff grows_refl)

lemma tracked_aborted: "ssi_inv st \<Longrightarrow> tracked (aborted x st) y \<longleftrightarrow> tracked st y \<and> y \<noteq> x"
  using aborted_forgets [of st x] by (cases "tracked st x") (auto simp: forgets_def aborted_def tracked_iff)

lemma fold_aborted_ok:
  assumes "ssi_inv st"
  shows "grows st (fold aborted xs st) \<and> (\<forall>y. tracked (fold aborted xs st) y \<longrightarrow> tracked st y)"
  using assms
proof (induction xs arbitrary: st)
  case (Cons x xs)
  have "ssi_inv (aborted x st)" using Cons.prems by (rule ssi_inv_aborted)
  note IH = Cons.IH [OF this]
  with grows_aborted [OF Cons.prems] have "grows st (fold aborted xs (aborted x st))"
    by (blast intro: grows_trans)
  then show ?case using IH tracked_aborted [OF Cons.prems] by auto
qed (simp add: grows_refl)

lemma ssi_finish_ok:
  assumes "ssi_inv st"
  shows "ssi_inv (ssi_finish x lvl c h st) \<and> grows st (ssi_finish x lvl c h st)"
proof -
  have "grows st (finished x st)" by (simp add: finished_def grows_update)
  moreover have "grows (finished x st) (release_up_to h (finished x st))"
    "\<forall>y. tracked (release_up_to h (finished x st)) y \<longrightarrow> tracked (finished x st) y"
    using fold_aborted_ok [OF ssi_inv_finished [OF assms]] by (simp_all add: release_up_to_def)
  ultimately have "grows st (release_up_to h (finished x st))" by (blast intro: grows_trans)
  then show ?thesis
    using assms by (simp add: ssi_finish_def grows_refl grows_aborted ssi_inv_methods)
qed

lemma lock_edges [simp]:
  "edge (add_relation_lock x tb st) = edge st" "relevant (add_relation_lock x tb st) = relevant st"
  "tracked (add_relation_lock x tb st) = tracked st"
  "edge (add_tuple_lock x tb key st) = edge st" "relevant (add_tuple_lock x tb key st) = relevant st"
  "tracked (add_tuple_lock x tb key st) = tracked st"
  "edge (drop_tuple_locks x tb keys st) = edge st" "relevant (drop_tuple_locks x tb keys st) = relevant st"
  "tracked (drop_tuple_locks x tb keys st) = tracked st"
  "edge (add_write x tb key st) = edge st" "relevant (add_write x tb key st) = relevant st"
  "tracked (add_write x tb key st) = tracked st"
  "edge (add_relation_write x tb st) = edge st" "relevant (add_relation_write x tb st) = relevant st"
  "tracked (add_relation_write x tb st) = tracked st"
  by (simp_all add: add_relation_lock_eq add_tuple_lock_def drop_tuple_locks_def add_write_def
      add_relation_write_def edge_def fun_eq_iff txn_get_update_same)

lemma relation_readers_add:
  assumes "ssi_inv st" "tracked st x"
  shows "set (get_default [] (relation_readers (add_relation_lock x tb st)) tb') =
    set (get_default [] (relation_readers st) tb') \<union> (if tb' = tb then {x} else {})"
proof (cases "tb \<in> rlocks st x")
  case True
  then have "x \<in> set (get_default [] (relation_readers st) tb)"
    using assms(1) by (simp add: ssi_inv_def indexed_def idx_def)
  then show ?thesis using True by (auto simp: add_relation_lock_eq)
qed (use assms(2) in \<open>simp add: add_relation_lock_eq hm.default_get_upsert\<close>)

lemma add_relation_lock_others [simp]:
  "tuple_readers (add_relation_lock x tb st) = tuple_readers st"
  "relation_writers (add_relation_lock x tb st) = relation_writers st"
  "whole_relation_writers (add_relation_lock x tb st) = whole_relation_writers st"
  "tuple_writers (add_relation_lock x tb st) = tuple_writers st"
  "promoted_tuple_writers (add_relation_lock x tb st) = promoted_tuple_writers st"
  by (simp_all add: add_relation_lock_eq)

lemma drop_tuple_locks_tables [simp]:
  "relation_readers (drop_tuple_locks x tb keys st) = relation_readers st"
  "set (get_default [] (tuple_readers (drop_tuple_locks x tb keys st)) (tb', k)) =
     set (get_default [] (tuple_readers st) (tb', k)) - (if tb' = tb \<and> k \<in> set keys then {x} else {})"
  "relation_writers (drop_tuple_locks x tb keys st) = relation_writers st"
  "whole_relation_writers (drop_tuple_locks x tb keys st) = whole_relation_writers st"
  "tuple_writers (drop_tuple_locks x tb keys st) = tuple_writers st"
  "promoted_tuple_writers (drop_tuple_locks x tb keys st) = promoted_tuple_writers st"
  using remove_readers_get [of x "map (Pair tb) keys" "tuple_readers st" "(tb', k)"]
  by (auto simp: drop_tuple_locks_def fold_map comp_def)

text \<open>Replacing the tuple locks on a table by the relation lock.\<close>

lemma grows_coarsen:
  assumes "ssi_inv st" "tracked st x" "set (held_keys st x tb) \<subseteq> set keys"
  shows "grows st (add_relation_lock x tb (form_all ps (drop_tuple_locks x tb keys st)))"
proof -
  let ?st = "form_all ps (drop_tuple_locks x tb keys st)"
  have "ssi_inv ?st" using assms by (intro ssi_inv_form_all ssi_inv_drop_tuple_locks)
  then have r: "set (get_default [] (relation_readers (add_relation_lock x tb ?st)) tb') =
      set (get_default [] (relation_readers st) tb') \<union> (if tb' = tb then {x} else {})" for tb'
    using assms(2) by (simp add: relation_readers_add)
  show ?thesis by (rule growsI) (auto simp: r edge_form_all)
qed

lemma grows_add_relation_lock:
  assumes "ssi_inv st" "tracked st x"
  shows "grows st (add_relation_lock x tb st)"
  by (rule growsI) (auto simp: relation_readers_add [OF assms])

lemma add_tables [simp]:
  "relation_readers (add_tuple_lock x tb key st) = relation_readers st"
  "tuple_readers (add_tuple_lock x tb key st) = hm_upsert [] (tb, key) (List.insert x) (tuple_readers st)"
  "relation_writers (add_tuple_lock x tb key st) = relation_writers st"
  "whole_relation_writers (add_tuple_lock x tb key st) = whole_relation_writers st"
  "tuple_writers (add_tuple_lock x tb key st) = tuple_writers st"
  "promoted_tuple_writers (add_tuple_lock x tb key st) = promoted_tuple_writers st"
  "relation_readers (add_write x tb key st) = relation_readers st"
  "tuple_readers (add_write x tb key st) = tuple_readers st"
  "relation_writers (add_write x tb key st) = hm_upsert [] tb (List.insert x) (relation_writers st)"
  "whole_relation_writers (add_write x tb key st) = whole_relation_writers st"
  "tuple_writers (add_write x tb key st) = hm_upsert [] (tb, key) (List.insert x) (tuple_writers st)"
  "promoted_tuple_writers (add_write x tb key st) = promoted_tuple_writers st"
  "relation_readers (add_relation_write x tb st) = relation_readers st"
  "tuple_readers (add_relation_write x tb st) = tuple_readers st"
  "relation_writers (add_relation_write x tb st) = hm_upsert [] tb (List.insert x) (relation_writers st)"
  "whole_relation_writers (add_relation_write x tb st) = hm_upsert [] tb (List.insert x) (whole_relation_writers st)"
  "tuple_writers (add_relation_write x tb st) = tuple_writers st"
  "promoted_tuple_writers (add_relation_write x tb st) = promoted_tuple_writers st"
  by (simp_all add: add_tuple_lock_def add_write_def add_relation_write_def)

lemma grows_add_tuple_lock: "grows st (add_tuple_lock x tb key st)"
  by (rule growsI) (auto simp: hm.default_get_upsert)

lemma grows_add_write: "grows st (add_write x tb key st)"
  by (rule growsI) (auto simp: hm.default_get_upsert)

lemma grows_add_relation_write: "grows st (add_relation_write x tb st)"
  by (rule growsI) (auto simp: hm.default_get_upsert)

lemma write_covered_writers:
  assumes "write_covered st ep w" "may_conflict (x, tb, Some key, ep tb) w"
  shows "fst w \<in> set (tuple_read_writers tb key st)"
  using assms
  by (cases w) (auto simp: write_covered_def may_conflict_def tuple_read_writers_def Let_def split: option.splits)

lemma read_covered_readers:
  assumes "read_covered st ep r" "may_conflict r (x, tb, Some key, ep tb)"
  shows "fst r \<in> set (get_default [] (relation_readers st) tb @ get_default [] (tuple_readers st) (tb, key))"
  using assms by (cases r) (auto simp: read_covered_def may_conflict_def)

lemma read_covered_table:
  assumes "read_covered st ep r" "may_conflict r (x, tb, ko, e)"
  shows "fst r \<in> set (table_readers tb st)"
proof -
  have "y \<in> set (get_default [] (tuple_readers st) (tb, k)) \<Longrightarrow> \<exists>l. ((tb, k), l) \<in> set (tuple_readers st) \<and> y \<in> set l" for y k
    by (cases "map_of (tuple_readers st) (tb, k)") (auto simp: get_default_def dest: map_of_SomeD)
  then show ?thesis
    using assms by (cases r) (fastforce simp: read_covered_def may_conflict_def table_readers_def)
qed

lemma sys_ok_record_tuple_read:
  assumes ok: "sys_ok s" and st': "st' = record_tuple_read reg r tb key (sy_st s)" and x: "x = top_of reg r"
  shows "sys_ok (settle st' (log_read x tb (Some key) s))"
proof (cases "tracked (sy_st s) x")
  case True
  let ?st = "sy_st s" and ?keys = "held_keys (sy_st s) x tb"
  let ?st1 = "form_all (map (Pair x) (tuple_read_writers tb key ?st)) ?st"
  have inv: "ssi_inv ?st" "ssi_inv ?st1" using ok by (simp_all add: sys_ok_def ssi_inv_form_all)
  have st'_eq: "st' = (if key \<in> set ?keys then ?st1
      else if length (List.insert key ?keys) > SSI_TUPLE_LOCK_CAP
      then add_relation_lock x tb (drop_tuple_locks x tb (List.insert key ?keys) ?st1)
      else add_tuple_lock x tb key ?st1)"
    using True unfolding st' record_tuple_read_eq [OF x] by (simp only: Let_def not_True_eq_False if_False)
  have e: "edge st' = edge ?st1" "relevant st' = relevant ?st" "tracked st' = tracked ?st"
    by (simp_all add: st'_eq)
  have inv': "ssi_inv (drop_tuple_locks x tb (List.insert key ?keys) ?st1)"
    using inv(2) True by (intro ssi_inv_drop_tuple_locks) auto
  have "grows ?st1 st'"
    using grows_coarsen [OF inv(2), of x tb "List.insert key ?keys" "[]"] True
    by (auto simp: st'_eq grows_refl grows_add_tuple_lock simp del: in_set_insert not_in_set_insert)
  then have g: "grows ?st st'" by (rule grows_trans [OF grows_form_all]) (simp add: e)
  have "read_covered st' (sy_epoch s) (x, tb, Some key, sy_epoch s tb)"
  proof -
    have "key \<in> set ?keys \<Longrightarrow> x \<in> set (get_default [] (tuple_readers ?st) (tb, key))"
      using inv(1) by (simp add: ssi_inv_def indexed_def idx_def tuples_def)
    then show ?thesis
      using relation_readers_add [OF inv'] True
      by (simp add: st'_eq read_covered_def add_tuple_lock_def hm.default_get_upsert
          del: in_set_insert not_in_set_insert)
  qed
  moreover have "connected st' (x, tb, Some key, sy_epoch s tb) w"
    if "write_covered ?st (sy_epoch s) w" for w
    using write_covered_writers [OF that] by (auto simp: connected_def e edge_form_all)
  ultimately show ?thesis using ok g inv(1) ssi_inv_record_tuple_read st' by (intro sys_ok_read) auto
next
  case False
  then have "st' = sy_st s" by (simp add: st' record_tuple_read_eq [OF x])
  then show ?thesis using ok False by (intro sys_ok_read) (auto simp: grows_refl sys_ok_def)
qed

lemma sys_ok_record_relation_read:
  assumes ok: "sys_ok s" and st': "st' = record_relation_read reg r tb (sy_st s)" and x: "x = top_of reg r"
  shows "sys_ok (settle st' (log_read x tb None s))"
proof (cases "tracked (sy_st s) x")
  case True
  let ?st = "sy_st s"
  let ?st1 = "form_all (map (Pair x) (get_default [] (relation_writers ?st) tb)) ?st"
  have inv: "ssi_inv ?st" "ssi_inv ?st1" using ok by (simp_all add: sys_ok_def ssi_inv_form_all)
  have st'_eq: "st' = add_relation_lock x tb ?st1"
    using True by (simp add: st' record_relation_read_def form_to flip: x)
  have g: "grows ?st st'"
    unfolding st'_eq using True inv by (intro grows_trans [OF grows_form_all grows_add_relation_lock]) simp_all
  have "read_covered st' (sy_epoch s) (x, tb, None, sy_epoch s tb)"
    using relation_readers_add [OF inv(2)] True by (simp add: st'_eq read_covered_def)
  moreover have "connected st' (x, tb, None, sy_epoch s tb) w" if "write_covered ?st (sy_epoch s) w" for w
    using that by (cases w) (auto simp: connected_def st'_eq edge_form_all may_conflict_def write_covered_def)
  ultimately show ?thesis using ok g inv(1) ssi_inv_record_relation_read st' by (intro sys_ok_read) auto
next
  case False
  then have "st' = sy_st s" by (simp add: st' record_relation_read_def flip: x)
  then show ?thesis using ok False by (intro sys_ok_read) (auto simp: grows_refl sys_ok_def)
qed

lemma sys_ok_note_write:
  assumes ok: "sys_ok s" and st': "st' = snd (note_write reg w tb key (sy_st s))" and x: "x = top_of reg w"
  shows "sys_ok (settle st' (log_write x tb (Some key) s))"
proof (cases "tracked (sy_st s) x")
  case True
  let ?st = "sy_st s"
  let ?ps = "map (\<lambda>r. (r, x)) (get_default [] (relation_readers ?st) tb @ get_default [] (tuple_readers ?st) (tb, key))"
  have st'_eq: "st' = add_write x tb key (form_all ?ps ?st)"
    using True by (simp add: st' note_write_eq [OF x] Let_def)
  have g: "grows ?st st'" unfolding st'_eq by (rule grows_trans [OF grows_form_all grows_add_write]) simp
  have "write_covered st' (sy_epoch s) (x, tb, Some key, sy_epoch s tb)"
    by (simp add: st'_eq write_covered_def hm.default_get_upsert)
  moreover have "connected st' r (x, tb, Some key, sy_epoch s tb)" if "read_covered ?st (sy_epoch s) r" for r
    using read_covered_readers [OF that] by (auto simp: connected_def st'_eq edge_form_all simp del: fold_append map_append)
  ultimately show ?thesis
    using ok g ssi_inv_note_write st' by (intro sys_ok_write) (auto simp: sys_ok_def)
next
  case False
  then have "st' = sy_st s" by (simp add: st' note_write_eq [OF x])
  then show ?thesis using ok False by (intro sys_ok_write) (auto simp: grows_refl sys_ok_def)
qed

lemma sys_ok_note_relation_write:
  assumes ok: "sys_ok s" and st': "st' = snd (note_relation_write reg w tb (sy_st s))" and x: "x = top_of reg w"
  shows "sys_ok (settle st' (log_write x tb None s))"
proof (cases "tracked (sy_st s) x")
  case True
  let ?st = "sy_st s" and ?ps = "map (\<lambda>r. (r, x)) (table_readers tb (sy_st s))"
  have st'_eq: "st' = add_relation_write x tb (form_all ?ps ?st)"
    using True by (simp add: st' note_relation_write_eq [OF x] Let_def)
  have g: "grows ?st st'" unfolding st'_eq by (rule grows_trans [OF grows_form_all grows_add_relation_write]) simp
  have "write_covered st' (sy_epoch s) (x, tb, None, sy_epoch s tb)"
    by (simp add: st'_eq write_covered_def hm.default_get_upsert)
  moreover have "connected st' r (x, tb, None, sy_epoch s tb)" if "read_covered ?st (sy_epoch s) r" for r
    using read_covered_table [OF that] by (auto simp: connected_def st'_eq edge_form_all)
  ultimately show ?thesis
    using ok g ssi_inv_note_relation_write st' by (intro sys_ok_write) (auto simp: sys_ok_def)
next
  case False
  then have "st' = sy_st s" by (simp add: st' note_relation_write_eq [OF x])
  then show ?thesis using ok False by (intro sys_ok_write) (auto simp: grows_refl sys_ok_def)
qed

lemma promote_reader_ok:
  assumes "ssi_inv st"
  shows "grows st (promote_reader tb ws r st) \<and> tracked (promote_reader tb ws r st) = tracked st
    \<and> (tracked st r \<longrightarrow> r \<in> set (get_default [] (relation_readers (promote_reader tb ws r st)) tb))"
proof (cases "tracked st r")
  case True
  have "ssi_inv (form_all (map (Pair r) ws) (drop_tuple_locks r tb (held_keys st r tb) st))"
    using assms True by (intro ssi_inv_form_all ssi_inv_drop_tuple_locks) simp_all
  then show ?thesis
    using grows_coarsen [OF assms True] True by (simp add: promote_reader_eq relation_readers_add)
qed (simp add: promote_reader_untracked grows_refl)

lemma promote_readers_ok:
  assumes "ssi_inv st"
  shows "grows st (fold (promote_reader tb ws) rs st) \<and> tracked (fold (promote_reader tb ws) rs st) = tracked st
    \<and> (\<forall>r \<in> set rs. tracked st r \<longrightarrow>
         r \<in> set (get_default [] (relation_readers (fold (promote_reader tb ws) rs st)) tb))"
  using assms
proof (induction rs arbitrary: st)
  case (Cons r rs)
  let ?st = "promote_reader tb ws r st"
  note p = promote_reader_ok [OF Cons.prems, of tb ws r]
  note IH = Cons.IH [OF ssi_inv_promote_reader [OF Cons.prems, of tb ws r]]
  have "grows st (fold (promote_reader tb ws) rs ?st)" using p IH
    by (auto intro: grows_trans [of st ?st])
  moreover have "r \<in> set (get_default [] (relation_readers (fold (promote_reader tb ws) rs ?st)) tb)" if "tracked st r"
    using p IH that growsD(1) [of ?st "fold (promote_reader tb ws) rs ?st" r tb] by simp
  ultimately show ?case using p IH by auto
qed (simp add: grows_refl)

lemma holders_complete:
  assumes "ssi_inv st" "x \<in> set (get_default [] (tuple_readers st) (tb, k))"
  shows "x \<in> set (tuple_lock_holders tb st)"
proof -
  have "(tb, k) \<in> tlocks st x" using assms by (simp add: ssi_inv_def indexed_def idx_def)
  then obtain t where t: "hm_get (txns st) x = Some t" "k \<in> set (get_default [] (tuple_locks t) tb)"
    by (cases "hm_get (txns st) x") (auto simp: txn_get_def tuples_def get_default_def)
  then have "hm_contains (tuple_locks t) tb" 
    by (cases "map_of (tuple_locks t) tb") (auto simp: hm_contains_def get_default_def)
  with map_of_SomeD [OF t(1)] have "(x, t) \<in> set (filter (\<lambda>(_, t). hm_contains (tuple_locks t) tb) (txns st))"
    by simp
  then show ?thesis unfolding tuple_lock_holders_def set_map by (rule rev_image_eqI) simp
qed

lemma promote_writers_ok:
  "grows st (promote_writers tb st) \<and> tracked (promote_writers tb st) = tracked st
   \<and> set (get_default [] (relation_writers st) tb) \<subseteq> set (get_default [] (promoted_tuple_writers (promote_writers tb st)) tb)"
proof -
  have "grows st (promote_writers tb st)"
    by (rule growsI) (auto simp: promote_writers_def Let_def hm.default_get_upsert edge_def split: if_splits)
  then show ?thesis by (simp add: promote_writers_def Let_def hm.default_get_upsert)
qed

lemma sys_ok_promote:
  assumes ok: "sys_ok s" and st': "st' = promote_table_identity_locks_to_relation tb (sy_st s)"
  shows "sys_ok (settle st' (s\<lparr>sy_epoch := (sy_epoch s)(tb := Suc (sy_epoch s tb))\<rparr>))"
proof -
  let ?st = "sy_st s" and ?ep = "sy_epoch s" and ?st1 = "promote_writers tb (sy_st s)"
  let ?ep' = "?ep(tb := Suc (?ep tb))"
  have inv: "ssi_inv ?st" "ssi_inv ?st1" "ssi_inv st'"
    using ok by (simp_all add: sys_ok_def st' ssi_inv_promote_writers ssi_inv_methods)
  note w = promote_writers_ok [of ?st tb]
  note r = promote_readers_ok [OF inv(2), of tb "get_default [] (relation_writers ?st) tb" "tuple_lock_holders tb ?st",
      folded promote_eq st']
  have g': "grows ?st1 st'" using r by simp
  have g: "grows ?st st'" using w r by (auto intro: grows_trans [OF _ g'])
  have trk: "tracked st' = tracked ?st" using w r by simp
  have reads: "read_covered st' ?ep' a" if a: "read_covered ?st ?ep a" "tracked st' (fst a)" for a
  proof -
    obtain x tb' ko e where [simp]: "a = (x, tb', ko, e)" by (cases a)
    have "x \<in> set (get_default [] (relation_readers st') tb)"
      if "x \<in> set (get_default [] (tuple_readers ?st) (tb, k))" for k
      using r w holders_complete [OF inv(1) that] a(2) trk by simp
    then show ?thesis
      using grows_covered(1) [OF g a(2,1)] growsD(1) [OF g, of x tb] a by (auto simp: read_covered_def)
  qed
  have writes: "write_covered st' ?ep' a" if a: "write_covered ?st ?ep a" "tracked st' (fst a)" for a
    using grows_covered(2) [OF g a(2,1)] growsD(6) [OF g' a(2), of tb] w a
    by (cases a) (auto simp: write_covered_def)
  show ?thesis
    using ok inv(3) reads writes grows_connected [OF g inv(1)] by (auto simp: sys_ok_def settle_def)
qed

lemma ssi_reachable_ok: "ssi_reachable s \<Longrightarrow> sys_ok s"
proof (induction rule: ssi_reachable.induct)
  case start
  show ?case by (simp add: sys_ok_def ssi_init_def ssi_inv_new)
next
  case (step s t)
  note ok = step.IH
  have inv: "ssi_inv (sy_st s)" using ok by (simp add: sys_ok_def)
  from step.hyps(2) show ?case
  proof cases
    case track
    show ?thesis unfolding track by (rule sys_ok_settle [OF ok ssi_inv_register [OF inv] grows_register])
  next
    case finish
    show ?thesis unfolding finish using ssi_finish_ok [OF inv] by (intro sys_ok_settle [OF ok]) simp_all
  next
    case check
    show ?thesis unfolding check by (rule sys_ok_settle [OF ok ssi_inv_commit_check [OF inv] grows_commit_check])
  next
    case read_tuple
    show ?thesis unfolding read_tuple by (rule sys_ok_record_tuple_read [OF ok refl refl])
  next
    case read_relation
    show ?thesis unfolding read_relation by (rule sys_ok_record_relation_read [OF ok refl refl])
  next
    case write_tuple
    show ?thesis unfolding write_tuple by (rule sys_ok_note_write [OF ok refl refl])
  next
    case write_relation
    show ?thesis unfolding write_relation by (rule sys_ok_note_relation_write [OF ok refl refl])
  next
    case rewrite_identity
    show ?thesis unfolding rewrite_identity by (rule sys_ok_promote [OF ok refl])
  qed
qed

end
