(* ===== verification/Ssi_Props.thy ===== *)
theory Ssi_Props
  imports Ssi_System
begin

text \<open>
  What the serializability tracker guarantees over all its histories, and the dangerous
  structure its checks let through.
\<close>

section \<open>Reads and writes that meet are connected\<close>

text \<open>
  C7: no rw-antidependency is missed. In every history of the tracker, when a tracked reader
  and a tracked writer accessed a common row, in either order, at tuple or relation
  granularity, before or after lock escalation and across rewrites of the row keys, and the
  reader's snapshot does not see the writer, then the edge between them is recorded at both
  ends.
\<close>

theorem ssi_conflicts_recorded:
  assumes reach: "ssi_reachable s" and r: "r \<in> set (sy_reads s)" and w: "w \<in> set (sy_writes s)"
    and "may_conflict r w" and "fst r \<noteq> fst w"
    and rt: "hm_get (txns (sy_st s)) (fst r) = Some rt" and "concurrent (ssi_snapshot rt) (fst w)"
  shows "\<exists>wt. hm_get (txns (sy_st s)) (fst w) = Some wt \<and> fst w \<in> set (out_edges rt) \<and> fst r \<in> set (in_edges wt)"
proof -
  have ok: "sys_ok s" using reach by (rule ssi_reachable_ok)
  then have inv: "ssi_inv (sy_st s)" and cov: "write_covered (sy_st s) (sy_epoch s) w"
    and conn: "connected (sy_st s) r w"
    using r w by (simp_all add: sys_ok_def)
  have trk: "tracked (sy_st s) (fst w)" using covered_tracked(2) [OF inv cov] .
  then have "relevant (sy_st s) (fst r) (fst w)"
    using assms by (simp add: relevant_def txn_get_some [OF rt])
  then have e: "edge (sy_st s) (fst r) (fst w)" using conn assms by (simp add: connected_def)
  then have "edge_in (sy_st s) (fst r) (fst w)" using inv by (simp add: ssi_inv_def edges_ok_def)
  moreover obtain wt where wt: "hm_get (txns (sy_st s)) (fst w) = Some wt" using trk by (rule trackedE)
  ultimately show ?thesis
    using e by (simp add: edge_def edge_in_def txn_get_some [OF rt] txn_get_some [OF wt])
qed

text \<open>Two transactions, 10 and 11, each not seeing the other; 10 reads row 1 of table 7, 11 writes it.\<close>

definition demo_snap :: "txn_id list \<Rightarrow> txn_id \<Rightarrow> snapshot" where
  "demo_snap xip xmax = \<lparr>snap_xmin = 10, snap_xmax = xmax, snap_xip = xip\<rparr>"

definition do_track :: "txn_id \<Rightarrow> snapshot \<Rightarrow> nat ssi_sys \<Rightarrow> nat ssi_sys" where
  "do_track x snap s = settle (ssi_register registry_new x snap (sy_st s)) s"

definition do_read :: "txn_id \<Rightarrow> nat \<Rightarrow> nat ssi_sys \<Rightarrow> nat ssi_sys" where
  "do_read x k s = settle (record_tuple_read registry_new x 7 k (sy_st s))
     (log_read (top_of registry_new x) 7 (Some k) s)"

definition do_write :: "txn_id \<Rightarrow> nat \<Rightarrow> nat ssi_sys \<Rightarrow> nat ssi_sys" where
  "do_write x k s = settle (snd (note_write registry_new x 7 k (sy_st s)))
     (log_write (top_of registry_new x) 7 (Some k) s)"

definition do_commit :: "txn_id \<Rightarrow> nat ssi_sys \<Rightarrow> nat ssi_sys" where
  "do_commit x s = settle (snd (commit_check x (sy_st s))) s"

lemmas do_defs = do_track_def do_read_def do_write_def do_commit_def

lemma do_reachable:
  assumes "ssi_reachable s"
  shows "ssi_reachable (do_track x snap s)" "ssi_reachable (do_read x k s)"
    "ssi_reachable (do_write x k s)" "ssi_reachable (do_commit x s)"
  unfolding do_defs by (rule ssi_reachable.step [OF assms], rule ssi_step.intros)+

definition demo_pair :: "nat ssi_sys" where
  "demo_pair = do_write 11 1 (do_read 10 1 (do_track 11 (demo_snap [10] 12) (do_track 10 (demo_snap [11] 12) ssi_init)))"

lemma demo_pair_reachable: "ssi_reachable demo_pair"
  unfolding demo_pair_def by (intro do_reachable ssi_reachable.start)

lemma demo_pair_reads: "sy_reads demo_pair = [(10, 7, Some 1, 0)]"
  by code_simp

lemma demo_pair_writes: "sy_writes demo_pair = [(11, 7, Some 1, 0)]"
  by code_simp

theorem ssi_conflicts_recorded_witness:
  "\<exists>rt wt. hm_get (txns (sy_st demo_pair)) 10 = Some rt \<and> hm_get (txns (sy_st demo_pair)) 11 = Some wt
     \<and> 11 \<in> set (out_edges rt) \<and> 10 \<in> set (in_edges wt)"
proof -
  have "map_option ssi_snapshot (hm_get (txns (sy_st demo_pair)) 10) = Some (demo_snap [11] 12)" by code_simp
  then obtain rt where rt: "hm_get (txns (sy_st demo_pair)) 10 = Some rt" "ssi_snapshot rt = demo_snap [11] 12"
    by auto
  have "\<exists>wt. hm_get (txns (sy_st demo_pair)) (fst (11 :: txn_id, 7 :: table_id, Some (1 :: nat), 0 :: nat)) = Some wt
      \<and> fst (11 :: txn_id, 7 :: table_id, Some (1 :: nat), 0 :: nat) \<in> set (out_edges rt)
      \<and> fst (10 :: txn_id, 7 :: table_id, Some (1 :: nat), 0 :: nat) \<in> set (in_edges wt)"
    by (rule ssi_conflicts_recorded [OF demo_pair_reachable])
      (simp_all add: demo_pair_reads demo_pair_writes may_conflict_def rt concurrent_def demo_snap_def)
  with rt(1) show ?thesis by auto
qed

section \<open>Dangerous structures\<close>

text \<open>
  C8: a dangerous structure known before its pivot commits cannot complete. When an
  uncommitted pivot has an inbound and an outbound edge, its outbound neighbour is refused at
  the commit check, and once that neighbour has committed the pivot itself is refused; a
  refused check leaves the state unchanged and raises the serialization failure.
\<close>

theorem dangerous_structure_refused:
  assumes reach: "ssi_reachable s" and st: "st = sy_st s"
    and pt: "hm_get (txns st) p = Some pt" and v: "v \<in> set (in_edges pt)" and w: "w \<in> set (out_edges pt)"
    and active: "commit_seq pt = None"
  shows "commit_check w st = (Inl serialization_failure, st)
    \<and> (\<forall>wt. hm_get (txns st) w = Some wt \<and> commit_seq wt \<noteq> None \<longrightarrow>
          commit_check p st = (Inl serialization_failure, st))"
proof -
  have inv: "edges_ok st" using ssi_reachable_ok [OF reach] by (simp add: sys_ok_def ssi_inv_def st)
  have "edge st p w" using w by (simp add: edge_def txn_get_some [OF pt])
  then have "edge_in st p w" "tracked st w"
    using inv relevant_tracked [of st p w] by (auto simp: edges_ok_def)
  then obtain wt where wt: "hm_get (txns st) w = Some wt" "p \<in> set (in_edges wt)"
    by (auto simp: edge_in_def txn_get_some elim!: trackedE)
  have "dooms_in_neighbor st wt"
    using wt(2) pt v active by (auto simp: dooms_in_neighbor_def list_ex_iff intro!: bexI [of _ p])
  then have one: "commit_check w st = (Inl serialization_failure, st)" by (simp add: commit_check_def wt(1))
  have "is_doomed_pivot st p" if "commit_seq wt \<noteq> None"
    using that v w wt(1) pt by (auto simp: is_doomed_pivot_def list_ex_iff intro!: bexI [of _ w])
  then show ?thesis using one by (auto simp: wt(1) pt commit_check_def)
qed

text \<open>Write skew: 10 and 11 each read the row the other writes.\<close>

definition demo_skew :: "nat ssi_sys" where
  "demo_skew = do_write 10 2 (do_read 11 2 demo_pair)"

theorem dangerous_structure_refused_witness:
  "commit_check 11 (sy_st demo_skew) = (Inl serialization_failure, sy_st demo_skew)"
proof -
  have reach: "ssi_reachable demo_skew"
    unfolding demo_skew_def by (intro do_reachable demo_pair_reachable)
  have "map_option (\<lambda>t. (in_edges t, out_edges t, commit_seq t)) (hm_get (txns (sy_st demo_skew)) 10) = Some ([11], [11], None)"
    by code_simp
  then obtain pt where pt: "hm_get (txns (sy_st demo_skew)) 10 = Some pt"
    "in_edges pt = [11]" "out_edges pt = [11]" "commit_seq pt = None"
    by auto
  show ?thesis
    using dangerous_structure_refused [OF reach refl pt(1), of 11 11] by (simp add: pt(2,3,4))
qed

text \<open>
  C29: the checks do not exclude every dangerous structure. Transaction 11 reads row 1 before
  10 writes it; 10 commits; 12 takes its snapshot, sees 10 and not 11; 11 writes row 2 and
  commits; only then 12 reads rows 1 and 2. All three pass their commit checks, 10 first, and
  the committed transactions form a cycle: 12 precedes 11 (it did not see row 2), 11 precedes
  10 (it did not see row 1) and 10 precedes 12 (which saw row 1).
\<close>

definition demo_anomaly :: "nat ssi_sys" where
  "demo_anomaly =
     (let s = do_track 10 (demo_snap [11] 12) ssi_init;
          s = do_track 11 (demo_snap [10] 12) s;
          s = do_commit 10 (do_write 10 1 (do_read 11 1 s));
          s = do_track 12 (demo_snap [11] 13) s;
          s = do_commit 11 (do_write 11 2 s)
      in do_read 12 2 (do_read 12 1 s))"

theorem ssi_admits_committed_cycle:
  "ssi_reachable demo_anomaly
   \<and> fst (commit_check 12 (sy_st demo_anomaly)) = Inr ()
   \<and> map_option commit_seq (hm_get (txns (sy_st demo_anomaly)) 10) = Some (Some 0)
   \<and> map_option commit_seq (hm_get (txns (sy_st demo_anomaly)) 11) = Some (Some 1)
   \<and> map_option out_edges (hm_get (txns (sy_st demo_anomaly)) 12) = Some [11]
   \<and> map_option out_edges (hm_get (txns (sy_st demo_anomaly)) 11) = Some [10]
   \<and> \<not> concurrent (demo_snap [11] 13) 10
   \<and> (12, 7, Some 1, 0) \<in> set (sy_reads demo_anomaly) \<and> (10, 7, Some 1, 0) \<in> set (sy_writes demo_anomaly)"
proof (intro conjI)
  show "ssi_reachable demo_anomaly"
    unfolding demo_anomaly_def Let_def by (intro do_reachable ssi_reachable.start)
  show "fst (commit_check 12 (sy_st demo_anomaly)) = Inr ()" by code_simp
  show "map_option commit_seq (hm_get (txns (sy_st demo_anomaly)) 10) = Some (Some 0)" by code_simp
  show "map_option commit_seq (hm_get (txns (sy_st demo_anomaly)) 11) = Some (Some 1)" by code_simp
  show "map_option out_edges (hm_get (txns (sy_st demo_anomaly)) 12) = Some [11]" by code_simp
  show "map_option out_edges (hm_get (txns (sy_st demo_anomaly)) 11) = Some [10]" by code_simp
  show "\<not> concurrent (demo_snap [11] 13) 10" by (simp add: concurrent_def demo_snap_def)
  have "sy_reads demo_anomaly = [(12, 7, Some 2, 0), (12, 7, Some 1, 0), (11, 7, Some 1, 0)]"
    "sy_writes demo_anomaly = [(11, 7, Some 2, 0), (10, 7, Some 1, 0)]" by code_simp+
  then show "(12, 7, Some 1, 0) \<in> set (sy_reads demo_anomaly)" "(10, 7, Some 1, 0) \<in> set (sy_writes demo_anomaly)"
    by simp_all
qed

section \<open>Memory\<close>

lemma no_members_empty:
  assumes "\<And>i. map_of m i \<noteq> Some []" "\<And>x i. x \<notin> set (get_default [] m i)"
  shows "m = []"
proof (cases m)
  case (Cons e m')
  obtain i v where "e = (i, v)" by (cases e)
  then have "map_of m i = Some v" using Cons by simp
  moreover have "v = []" using assms(2) [of "hd v" i] calculation by (cases v) (auto simp: get_default_def)
  ultimately show ?thesis using assms(1) by blast
qed simp

text \<open>
  C30: the tracker's memory is bounded by its tracked transactions. A transaction holds at most
  \<open>SSI_TUPLE_LOCK_CAP\<close> tuple locks on a table, and when no transaction is tracked every table
  is empty, with no entry left behind.
\<close>

theorem ssi_memory_bounded:
  assumes "ssi_reachable s" and st: "st = sy_st s"
  shows "(\<forall>x t tb. hm_get (txns st) x = Some t \<longrightarrow> length (get_default [] (tuple_locks t) tb) \<le> SSI_TUPLE_LOCK_CAP)
    \<and> (txns st = [] \<longrightarrow> relation_readers st = [] \<and> tuple_readers st = [] \<and> relation_writers st = []
         \<and> whole_relation_writers st = [] \<and> tuple_writers st = [] \<and> promoted_tuple_writers st = [])"
proof -
  have inv: "ssi_inv st" using ssi_reachable_ok [OF assms(1)] by (simp add: sys_ok_def st)
  have "length (get_default [] (tuple_locks t) tb) \<le> SSI_TUPLE_LOCK_CAP" if "hm_get (txns st) x = Some t" for x t tb
  proof -
    have "length (held_keys st x tb) \<le> SSI_TUPLE_LOCK_CAP" using inv by (simp add: ssi_inv_def capped_def)
    then show ?thesis by (simp add: txn_get_some [OF that])
  qed
  moreover have "relation_readers st = [] \<and> tuple_readers st = [] \<and> relation_writers st = []
     \<and> whole_relation_writers st = [] \<and> tuple_writers st = [] \<and> promoted_tuple_writers st = []" if "txns st = []"
  proof -
    have ix: "indexed st" and p: "promoted_ok st" using inv by (simp_all add: ssi_inv_def)
    have "relation_readers st = []" "relation_writers st = []" "whole_relation_writers st = []"
      "tuple_readers st = []" "tuple_writers st = []"
      using ix that by (auto simp: indexed_def idx_def txn_get_def tuples_Nil intro!: no_members_empty)
    moreover have "promoted_tuple_writers st = []"
      using p calculation(2) by (auto simp: promoted_ok_def get_default_def [of _ "[]"] intro!: no_members_empty)
    ultimately show ?thesis by simp
  qed
  ultimately show ?thesis by blast
qed

theorem ssi_memory_bounded_witness:
  "\<exists>t. hm_get (txns (sy_st demo_skew)) 10 = Some t \<and> length (get_default [] (tuple_locks t) 7) \<le> SSI_TUPLE_LOCK_CAP"
proof -
  have reach: "ssi_reachable demo_skew"
    unfolding demo_skew_def by (intro do_reachable demo_pair_reachable)
  have "hm_get (txns (sy_st demo_skew)) 10 \<noteq> None" by code_simp
  then obtain t where "hm_get (txns (sy_st demo_skew)) 10 = Some t" by auto
  then show ?thesis using ssi_memory_bounded [OF reach refl] by simp
qed



end
