(* ===== verification/Catalog_Change.thy ===== *)
theory Catalog_Change
  imports Prelude "HOL-Library.Product_Lexorder"
begin

text \<open>
  Durable catalog mutations: crates/common/src/catalog_change.rs. A catalog object is one of
  the source's variants with its id; what else the variant carries (a table schema, statistics,
  and so on) is a type parameter \<open>'b\<close>, and the finiteness test of statistics is a function
  \<open>is_finite\<close> on it. A change set lists, per changed object, its value before and after.
\<close>

section \<open>Objects\<close>

datatype catalog_object_id =
    IdSchema u32
  | IdTable u32
  | IdView u32
  | IdIndex u32
  | IdSequence u32
  | IdConstraint u32
  | IdFunction u32
  | IdSystemRelation u64
  | IdStatistics u32
  | IdColumn u32 u32
  | IdColumnDefault u32 u32

text \<open>The derived order: variants in declaration order, then the fields; an \<open>i64\<close> is signed.\<close>

fun object_id_rank :: "catalog_object_id \<Rightarrow> nat \<times> int \<times> int" where
  "object_id_rank (IdSchema i) = (0, uint i, 0)"
| "object_id_rank (IdTable i) = (1, uint i, 0)"
| "object_id_rank (IdView i) = (2, uint i, 0)"
| "object_id_rank (IdIndex i) = (3, uint i, 0)"
| "object_id_rank (IdSequence i) = (4, uint i, 0)"
| "object_id_rank (IdConstraint i) = (5, uint i, 0)"
| "object_id_rank (IdFunction i) = (6, uint i, 0)"
| "object_id_rank (IdSystemRelation i) = (7, sint i, 0)"
| "object_id_rank (IdStatistics i) = (8, uint i, 0)"
| "object_id_rank (IdColumn r c) = (9, uint r, uint c)"
| "object_id_rank (IdColumnDefault r c) = (10, uint r, uint c)"

lemma object_id_rank_inj: "object_id_rank a = object_id_rank b \<longleftrightarrow> a = b"
  by (cases a; cases b) (auto intro: signed_word_eqI simp flip: word_uint_eq_iff)

instantiation catalog_object_id :: linorder
begin

definition less_eq_catalog_object_id :: "catalog_object_id \<Rightarrow> catalog_object_id \<Rightarrow> bool" where
  "less_eq_catalog_object_id a b = (object_id_rank a \<le> object_id_rank b)"

definition less_catalog_object_id :: "catalog_object_id \<Rightarrow> catalog_object_id \<Rightarrow> bool" where
  "less_catalog_object_id a b = (object_id_rank a < object_id_rank b)"

instance
  by standard (auto simp: less_eq_catalog_object_id_def less_catalog_object_id_def less_le_not_le
      intro: order_trans simp flip: object_id_rank_inj)

end

datatype 'b catalog_object =
    ObjSchema u32 'b
  | ObjTable u32 'b
  | ObjView u32 'b
  | ObjIndex u32 'b
  | ObjSequence u32 'b
  | ObjConstraint u32 'b
  | ObjStatistics u32 'b

fun object_id :: "'b catalog_object \<Rightarrow> catalog_object_id" where
  "object_id (ObjSchema i _) = IdSchema i"
| "object_id (ObjTable i _) = IdTable i"
| "object_id (ObjView i _) = IdView i"
| "object_id (ObjIndex i _) = IdIndex i"
| "object_id (ObjSequence i _) = IdSequence i"
| "object_id (ObjConstraint i _) = IdConstraint i"
| "object_id (ObjStatistics t _) = IdStatistics t"

fun finite_object :: "('b \<Rightarrow> bool) \<Rightarrow> 'b catalog_object \<Rightarrow> bool" where
  "finite_object is_finite (ObjStatistics _ statistics) = is_finite statistics"
| "finite_object is_finite _ = True"

record 'b catalog_mutation =
  mut_before :: "'b catalog_object option"
  mut_after :: "'b catalog_object option"

definition mutation_id :: "'b catalog_mutation \<Rightarrow> catalog_object_id option" where
  "mutation_id m = map_option object_id (case mut_after m of Some x \<Rightarrow> Some x | None \<Rightarrow> mut_before m)"

record catalog_allocator_high_water =
  next_schema_id :: u32
  next_table_id :: u32
  next_index_id :: u32
  next_sequence_id :: u32
  next_dictionary_id :: u32
  next_storage_id :: u32
  next_constraint_id :: u32
  next_column_object_ids :: "(u32, u32) btree_map"

record 'b catalog_change_set =
  ccs_version :: u16
  ccs_mutations :: "'b catalog_mutation list"
  ccs_high_water :: catalog_allocator_high_water

definition CATALOG_CHANGE_SET_VERSION :: u16 where "CATALOG_CHANGE_SET_VERSION = 1"
definition MAX_CATALOG_CHANGE_MUTATIONS :: nat where "MAX_CATALOG_CHANGE_MUTATIONS = 65536"

section \<open>Bounded decoding\<close>

text \<open>The visitors given to the JSON parser: the elements of the text in order, the mutations with a
  probe for one element too many, the column allocators with a test for repeated keys.\<close>

fun visit_mutations :: "nat \<Rightarrow> 'm list \<Rightarrow> 'm list \<Rightarrow> 'm list option" where
  "visit_mutations 0 mutations [] = Some mutations"
| "visit_mutations 0 mutations (x # rest) = None"
| "visit_mutations (Suc n) mutations [] = Some mutations"
| "visit_mutations (Suc n) mutations (x # rest) = visit_mutations n (mutations @ [x]) rest"

definition deserialize_mutations :: "'m list \<Rightarrow> 'm list option" where
  "deserialize_mutations elements = visit_mutations MAX_CATALOG_CHANGE_MUTATIONS [] elements"

fun deserialize_column_high_water :: "(u32, u32) btree_map \<Rightarrow> (u32 \<times> u32) list \<Rightarrow> (u32, u32) btree_map option" where
  "deserialize_column_high_water high_water [] = Some high_water"
| "deserialize_column_high_water high_water ((relation, column) # entries) =
     (if length high_water = MAX_CATALOG_CHANGE_MUTATIONS then None
      else if hm_get high_water relation \<noteq> None then None
      else deserialize_column_high_water (bt_insert relation column high_water) entries)"

lemma visit_mutations_eq:
  "visit_mutations n acc xs = (if length xs \<le> n then Some (acc @ xs) else None)"
  by (induction n acc xs rule: visit_mutations.induct) auto

lemma bt_insert_above: "\<forall>x \<in> set m. fst x < k \<Longrightarrow> bt_insert k v m = m @ [(k, v)]"
  by (induction k v m rule: bt_insert.induct) auto

lemma deserialize_column_high_water_sorted:
  "bt_wf (acc @ es) \<Longrightarrow> length (acc @ es) \<le> MAX_CATALOG_CHANGE_MUTATIONS \<Longrightarrow>
   deserialize_column_high_water acc es = Some (acc @ es)"
proof (induction acc es rule: deserialize_column_high_water.induct)
  case (2 acc r c es)
  have below: "\<forall>x \<in> set acc. fst x < r" using "2.prems"(1) by (auto simp: bt_wf_def sorted_wrt_append)
  then have "hm_get acc r = None" by (auto simp: map_of_eq_None_iff)
  with "2.IH" "2.prems" below show ?case by (simp add: bt_insert_above)
qed simp

section \<open>Building and validating\<close>

definition change_set_between ::
  "(catalog_object_id, 'b catalog_object) btree_map \<Rightarrow> (catalog_object_id, 'b catalog_object) btree_map \<Rightarrow>
   catalog_allocator_high_water \<Rightarrow> 'b catalog_change_set" where
  "change_set_between before after hw =
     (let ids = remdups_adj (sort (map fst before @ map fst after));
          mutations = List.map_filter (\<lambda>i.
            let old = map_of before i; new = map_of after i
            in if old \<noteq> new then Some \<lparr>mut_before = old, mut_after = new\<rparr> else None) ids
      in \<lparr>ccs_version = CATALOG_CHANGE_SET_VERSION, ccs_mutations = mutations, ccs_high_water = hw\<rparr>)"

fun check_mutations ::
  "('b \<Rightarrow> bool) \<Rightarrow> catalog_object_id option \<Rightarrow> 'b catalog_mutation list \<Rightarrow> string + unit" where
  "check_mutations is_finite previous [] = Inr ()"
| "check_mutations is_finite previous (m # ms) =
     (case mutation_id m of
        None \<Rightarrow> Inl ''catalog mutation has neither a before nor an after object''
      | Some i \<Rightarrow>
          if (\<exists>x \<in> set_option (mut_before m). object_id x \<noteq> i) \<or> (\<exists>x \<in> set_option (mut_after m). object_id x \<noteq> i)
          then Inl ''catalog mutation before/after object ids differ''
          else if mut_before m = mut_after m
          then Inl ''catalog mutation does not change its object''
          else if list_ex (\<lambda>x. \<not> finite_object is_finite x) (opt_list (mut_before m) @ opt_list (mut_after m))
          then Inl ''catalog change contains non-finite statistics''
          else if (\<exists>c \<in> set_option previous. c \<ge> i)
          then Inl ''catalog mutations are not strictly object-id sorted''
          else check_mutations is_finite (Some i) ms)"

definition validate_shape :: "('b \<Rightarrow> bool) \<Rightarrow> 'b catalog_change_set \<Rightarrow> string + unit" where
  "validate_shape is_finite c =
     (if ccs_version c \<noteq> CATALOG_CHANGE_SET_VERSION
      then Inl ''unsupported catalog change-set version''
      else if length (ccs_mutations c) > MAX_CATALOG_CHANGE_MUTATIONS
      then Inl ''catalog change set has too many mutations''
      else if length (next_column_object_ids (ccs_high_water c)) > MAX_CATALOG_CHANGE_MUTATIONS
      then Inl ''catalog change set has too many column allocators''
      else check_mutations is_finite None (ccs_mutations c))"

section \<open>Accepted change sets\<close>

definition mutation_ok :: "('b \<Rightarrow> bool) \<Rightarrow> 'b catalog_mutation \<Rightarrow> bool" where
  "mutation_ok is_finite m = (mut_before m \<noteq> mut_after m
     \<and> (\<forall>x y. mut_before m = Some x \<and> mut_after m = Some y \<longrightarrow> object_id x = object_id y)
     \<and> (\<forall>x. mut_before m = Some x \<or> mut_after m = Some x \<longrightarrow> finite_object is_finite x))"

lemma check_mutations_iff:
  "check_mutations is_finite p ms = Inr () \<longleftrightarrow>
     list_all (mutation_ok is_finite) ms \<and> sorted_wrt (<) (opt_list p @ map (the \<circ> mutation_id) ms)"
proof (induction is_finite p ms rule: check_mutations.induct)
  case (1 is_finite p)
  then show ?case by (cases p) auto
next
  case (2 is_finite p m ms)
  show ?case
  proof (cases "mutation_id m")
    case None
    then have "\<not> mutation_ok is_finite m"
      by (auto simp: mutation_id_def mutation_ok_def split: option.splits)
    then show ?thesis using None by simp
  next
    case (Some i)
    have ok: "mutation_ok is_finite m \<longleftrightarrow>
        \<not> ((\<exists>x \<in> set_option (mut_before m). object_id x \<noteq> i) \<or> (\<exists>x \<in> set_option (mut_after m). object_id x \<noteq> i))
        \<and> mut_before m \<noteq> mut_after m
        \<and> \<not> list_ex (\<lambda>x. \<not> finite_object is_finite x) (opt_list (mut_before m) @ opt_list (mut_after m))"
      using Some by (cases "mut_before m"; cases "mut_after m") (auto simp: mutation_ok_def mutation_id_def)
    show ?thesis
      using "2.IH" [OF Some] ok Some by (cases p) (auto simp: not_le)
  qed
qed

lemma remdups_adj_strict: "sorted xs \<Longrightarrow> sorted_wrt (<) (remdups_adj xs)" for xs :: "'a::linorder list"
  by (induction xs rule: remdups_adj.induct) (auto simp: order_less_le)


text \<open>Table 3 altered, table 4 dropped, sequence 1 created.\<close>

definition demo_water :: catalog_allocator_high_water where
  "demo_water = \<lparr>next_schema_id = 2, next_table_id = 5, next_index_id = 1, next_sequence_id = 2,
     next_dictionary_id = 1, next_storage_id = 9, next_constraint_id = 1, next_column_object_ids = [(3, 2)]\<rparr>"

definition demo_before :: "(catalog_object_id, nat catalog_object) btree_map" where
  "demo_before = [(IdTable 3, ObjTable 3 10), (IdTable 4, ObjTable 4 10)]"

definition demo_after :: "(catalog_object_id, nat catalog_object) btree_map" where
  "demo_after = [(IdTable 3, ObjTable 3 11), (IdSequence 1, ObjSequence 1 0)]"


end
