(* ===== verification/Wal_Codec.thy ===== *)
theory Wal_Codec
  imports Catalog_Change Checked_Bytes
begin

text \<open>
  The log record and its frame: crates/wal/src/record.rs and crates/wal/src/codec.rs. A frame
  is a 21-byte header (LSN, transaction id, type byte, payload length), the payload and a CRC.
  Physiological records have binary payloads, modelled byte by byte; the others are JSON. The
  CRC (crate crc32fast), the JSON codec (crate serde_json) and the finiteness test of
  statistics are the fields of \<open>wal_env\<close>; the bounds the installed visitors put on decoded lists are
  part of the model. An allocation is taken to succeed.
\<close>

section \<open>Records\<close>

datatype 'b wal_record_kind =
    CatalogChange "'b catalog_change_set"
  | SequenceAdvance u32 u64
  | SetSequenceValue u32 u64 bool
  | Commit
  | CommitWithSubxids "u64 list"
  | Abort
  | Checkpoint u64 u64 u64
  | HeapInit u32 u32
  | HeapInsert u32 u32 u16 "u8 list"
  | HeapDelete u32 u32 u16
  | HeapUpdateHeader u32 u32 u16 u64 "u32 \<times> u16" u16
  | FullPageImage u32 u32 "u8 list"
  | FullPageImageCompressed u32 u32 u8 u32 "u8 list"
  | CreateDictionary u32 u32 "u8 list"

record 'b wal_record =
  wr_lsn :: u64
  wr_txn_id :: u64
  wr_kind :: "'b wal_record_kind"

fun is_redo_operation :: "'b wal_record_kind \<Rightarrow> bool" where
  "is_redo_operation Commit = False"
| "is_redo_operation (CommitWithSubxids _) = False"
| "is_redo_operation Abort = False"
| "is_redo_operation (Checkpoint _ _ _) = False"
| "is_redo_operation _ = True"

record 'b wal_env =
  we_crc :: "u8 list \<Rightarrow> u32"
  we_to_vec :: "'b wal_record_kind \<Rightarrow> u8 list option"
  we_from_slice :: "u8 list \<Rightarrow> 'b wal_record_kind option"
  we_subxids :: "u8 list \<Rightarrow> u64 list option"
  we_is_finite :: "'b \<Rightarrow> bool"

section \<open>Layout\<close>

definition HEADER_LEN :: nat where "HEADER_LEN = 8 + 8 + 1 + 4"
definition CRC_LEN :: nat where "CRC_LEN = 4"
definition HEAP_UPDATE_HEADER_LEN :: nat where "HEAP_UPDATE_HEADER_LEN = 4 + 4 + 2 + 8 + 4 + 2 + 2"
definition MAX_CATALOG_CHANGE_PAYLOAD_BYTES :: nat where "MAX_CATALOG_CHANGE_PAYLOAD_BYTES = 67108864"
definition MAX_JSON_PAYLOAD_BYTES :: nat where "MAX_JSON_PAYLOAD_BYTES = 67108864"
definition MAX_PAGE_BYTES :: nat where "MAX_PAGE_BYTES = 8192"
definition MAX_DICTIONARY_BYTES :: nat where "MAX_DICTIONARY_BYTES = 112640"
definition MAX_COMMITTED_SUBXIDS :: nat where "MAX_COMMITTED_SUBXIDS = 65536"

lemmas wal_codec_consts = HEADER_LEN_def CRC_LEN_def HEAP_UPDATE_HEADER_LEN_def
  MAX_CATALOG_CHANGE_PAYLOAD_BYTES_def MAX_JSON_PAYLOAD_BYTES_def MAX_PAGE_BYTES_def
  MAX_DICTIONARY_BYTES_def

definition wal_error :: "string \<Rightarrow> db_error" where
  "wal_error msg = db_wal InternalError msg"

fun record_type :: "'b wal_record_kind \<Rightarrow> u8" where
  "record_type (CatalogChange _) = 31"
| "record_type (SequenceAdvance _ _) = 16"
| "record_type (SetSequenceValue _ _ _) = 17"
| "record_type Commit = 3"
| "record_type (CommitWithSubxids _) = 13"
| "record_type Abort = 11"
| "record_type (Checkpoint _ _ _) = 4"
| "record_type (HeapInit _ _) = 5"
| "record_type (HeapInsert _ _ _ _) = 6"
| "record_type (HeapDelete _ _ _) = 7"
| "record_type (HeapUpdateHeader _ _ _ _ _ _) = 12"
| "record_type (FullPageImage _ _ _) = 8"
| "record_type (FullPageImageCompressed _ _ _ _ _) = 18"
| "record_type (CreateDictionary _ _ _) = 19"

definition is_legacy_catalog_type :: "u8 \<Rightarrow> bool" where
  "is_legacy_catalog_type t = (t \<in> {1, 2, 9, 10, 14, 15} \<or> 20 \<le> t \<and> t \<le> 30)"

definition validate_declared_payload_length :: "u8 \<Rightarrow> nat \<Rightarrow> unit result" where
  "validate_declared_payload_length t payload_len =
     (let maximum =
        (if t = 5 then 8
         else if t = 6 then 10 + MAX_PAGE_BYTES
         else if t = 7 then 10
         else if t = 12 then HEAP_UPDATE_HEADER_LEN
         else if t = 8 then 8 + MAX_PAGE_BYTES
         else if t = 18 then 13 + MAX_PAGE_BYTES
         else if t = 19 then 8 + MAX_DICTIONARY_BYTES
         else MAX_JSON_PAYLOAD_BYTES)
      in if payload_len > maximum
         then Inl (wal_error ''WAL payload exceeds the record-type size limit'') else Inr ())"

definition validate_body_length :: "nat \<Rightarrow> nat \<Rightarrow> string \<Rightarrow> unit result" where
  "validate_body_length len maximum description =
     (if len > maximum then Inl (wal_error (''WAL '' @ description @ '' exceeds its size limit'')) else Inr ())"

section \<open>Encoding\<close>

definition encode_json_payload :: "'b wal_env \<Rightarrow> 'b wal_record_kind \<Rightarrow> u8 list result" where
  "encode_json_payload env k =
     and_then (ok_or (wal_error ''failed to serialize WAL payload: '') (we_to_vec env k)) (\<lambda>payload.
       if length payload > MAX_JSON_PAYLOAD_BYTES then Inl (wal_error ''JSON WAL payload exceeds 64 MiB'')
       else Inr payload)"

fun encode_payload :: "'b wal_env \<Rightarrow> 'b wal_record_kind \<Rightarrow> u8 list result" where
  "encode_payload env (HeapInit file_id page_num) = Inr (u32_le file_id @ u32_le page_num)"
| "encode_payload env (HeapInsert file_id page_num slot row_bytes) =
     and_then (validate_body_length (length row_bytes) MAX_PAGE_BYTES ''heap-insert row'') (\<lambda>_.
       Inr (u32_le file_id @ u32_le page_num @ u16_le slot @ row_bytes))"
| "encode_payload env (HeapDelete file_id page_num slot) =
     Inr (u32_le file_id @ u32_le page_num @ u16_le slot)"
| "encode_payload env (HeapUpdateHeader file_id page_num slot xmax t_ctid infomask) =
     Inr (u32_le file_id @ u32_le page_num @ u16_le slot @ u64_le xmax @ u32_le (fst t_ctid)
          @ u16_le (snd t_ctid) @ u16_le infomask)"
| "encode_payload env (FullPageImage file_id page_num img) =
     and_then (validate_body_length (length img) MAX_PAGE_BYTES ''full-page image'') (\<lambda>_.
       Inr (u32_le file_id @ u32_le page_num @ img))"
| "encode_payload env (FullPageImageCompressed file_id page_num codec dict_id payload) =
     and_then (validate_body_length (length payload) MAX_PAGE_BYTES ''compressed full-page image'') (\<lambda>_.
       Inr (u32_le file_id @ u32_le page_num @ [codec] @ u32_le dict_id @ payload))"
| "encode_payload env (CreateDictionary dict_id table_id bytes) =
     and_then (validate_body_length (length bytes) MAX_DICTIONARY_BYTES ''compression dictionary'') (\<lambda>_.
       Inr (u32_le dict_id @ u32_le table_id @ bytes))"
| "encode_payload env (CatalogChange change_set) =
     and_then (map_err (\<lambda>m. wal_error (''invalid catalog change set: '' @ m))
                 (validate_shape (we_is_finite env) change_set)) (\<lambda>_.
     and_then (ok_or (wal_error ''failed to serialize WAL payload: '')
                 (we_to_vec env (CatalogChange change_set))) (\<lambda>payload.
       if length payload > MAX_CATALOG_CHANGE_PAYLOAD_BYTES
       then Inl (wal_error ''catalog change WAL payload exceeds 64 MiB'') else Inr payload))"
| "encode_payload env (CommitWithSubxids subxids) =
     (if length subxids > MAX_COMMITTED_SUBXIDS
      then Inl (wal_error ''commit WAL payload exceeds the subxid limit'')
      else encode_json_payload env (CommitWithSubxids subxids))"
| "encode_payload env k = encode_json_payload env k"

definition encode_record :: "'b wal_env \<Rightarrow> 'b wal_record \<Rightarrow> u8 list result" where
  "encode_record env r =
     and_then (encode_payload env (wr_kind r)) (\<lambda>payload.
       if length payload \<ge> 2 ^ 32 then Inl (wal_error ''WAL payload is too large to encode'')
       else if HEADER_LEN + length payload + CRC_LEN > USIZE_MAX
       then Inl (wal_error ''encoded WAL record length overflows'')
       else let bytes = u64_le (wr_lsn r) @ u64_le (wr_txn_id r) @ [record_type (wr_kind r)]
                        @ u32_le (of_nat (length payload)) @ payload
            in Inr (bytes @ u32_le (we_crc env bytes)))"

definition encode_record_at :: "'b wal_env \<Rightarrow> 'b wal_record \<Rightarrow> u64 \<Rightarrow> ('b wal_record \<times> u8 list) result" where
  "encode_record_at env r start_lsn =
     (let r = r\<lparr>wr_lsn := 0\<rparr> in
      and_then (encode_record env r) (\<lambda>bytes.
        if length bytes \<ge> 2 ^ 64 then Inl (wal_error ''encoded WAL record length does not fit u64'')
        else if unat start_lsn + length bytes \<ge> 2 ^ 64 then Inl (wal_error ''WAL LSN overflow'')
        else
          let end_lsn = start_lsn + of_nat (length bytes) in
          if length bytes < 8 then Inl (wal_error ''encoded WAL record is missing its LSN header'')
          else
            let bytes = u64_le end_lsn @ drop 8 bytes in
            if length bytes < CRC_LEN then Inl (wal_error ''encoded WAL record is shorter than its checksum'')
            else
              let checksum_end = length bytes - CRC_LEN;
                  checksum = we_crc env (take checksum_end bytes)
              in Inr (r\<lparr>wr_lsn := end_lsn\<rparr>, take checksum_end bytes @ u32_le checksum)))"

section \<open>Decoding\<close>

definition truncated :: "slice_read_error \<Rightarrow> db_error" where
  "truncated err = wal_error ''WAL physical payload is truncated: ''"

abbreviation wal_read :: "(slice_reader \<Rightarrow> slice_read_error + ('a \<times> slice_reader)) \<Rightarrow> slice_reader \<Rightarrow> ('a \<times> slice_reader) result" where
  "wal_read rd r \<equiv> map_err truncated (rd r)"

definition finish_physical :: "slice_reader \<Rightarrow> unit result" where
  "finish_physical r = map_err (\<lambda>_. wal_error ''WAL physical payload is malformed: '') (rd_finish r)"

definition kind_from_slice :: "'b wal_env \<Rightarrow> u8 list \<Rightarrow> 'b wal_record_kind option" where
  "kind_from_slice env payload =
     (case we_from_slice env payload of
        Some (CatalogChange c) \<Rightarrow>
          (case (deserialize_mutations (ccs_mutations c),
                 deserialize_column_high_water [] (next_column_object_ids (ccs_high_water c))) of
             (Some mutations, Some high_water) \<Rightarrow>
               Some (CatalogChange (c\<lparr>ccs_mutations := mutations,
                 ccs_high_water := (ccs_high_water c)\<lparr>next_column_object_ids := high_water\<rparr>\<rparr>))
           | _ \<Rightarrow> None)
      | r \<Rightarrow> r)"

definition deserialize_subxids :: "'b wal_env \<Rightarrow> u8 list \<Rightarrow> u64 list option" where
  "deserialize_subxids env payload =
     (case we_subxids env payload of None \<Rightarrow> None
      | Some xs \<Rightarrow> if length xs > MAX_COMMITTED_SUBXIDS then None else Some xs)"

definition decode_heap_init :: "u8 list \<Rightarrow> 'b wal_record_kind result" where
  "decode_heap_init payload =
     (if length payload \<noteq> 8 then Inl (wal_error ''WAL heap-init payload is malformed'')
      else and_then (wal_read rd_read_u32_le (rd_new payload)) (\<lambda>(file_id, r).
           and_then (wal_read rd_read_u32_le r) (\<lambda>(page_num, r).
           and_then (finish_physical r) (\<lambda>_. Inr (HeapInit file_id page_num)))))"

definition decode_heap_insert :: "u8 list \<Rightarrow> 'b wal_record_kind result" where
  "decode_heap_insert payload =
     (if length payload < 10 then Inl (wal_error ''WAL heap-insert payload is truncated'')
      else and_then (wal_read rd_read_u32_le (rd_new payload)) (\<lambda>(file_id, r).
           and_then (wal_read rd_read_u32_le r) (\<lambda>(page_num, r).
           and_then (wal_read rd_read_u16_le r) (\<lambda>(slot, r).
           and_then (wal_read rd_take_remaining r) (\<lambda>(row_bytes, r).
             Inr (HeapInsert file_id page_num slot row_bytes))))))"

definition decode_heap_delete :: "u8 list \<Rightarrow> 'b wal_record_kind result" where
  "decode_heap_delete payload =
     (if length payload \<noteq> 10 then Inl (wal_error ''WAL heap-delete payload is malformed'')
      else and_then (wal_read rd_read_u32_le (rd_new payload)) (\<lambda>(file_id, r).
           and_then (wal_read rd_read_u32_le r) (\<lambda>(page_num, r).
           and_then (wal_read rd_read_u16_le r) (\<lambda>(slot, r).
           and_then (finish_physical r) (\<lambda>_. Inr (HeapDelete file_id page_num slot))))))"

definition decode_heap_update_header :: "u8 list \<Rightarrow> 'b wal_record_kind result" where
  "decode_heap_update_header payload =
     (if length payload \<noteq> HEAP_UPDATE_HEADER_LEN then Inl (wal_error ''WAL heap-update-header payload is malformed'')
      else and_then (wal_read rd_read_u32_le (rd_new payload)) (\<lambda>(file_id, r).
           and_then (wal_read rd_read_u32_le r) (\<lambda>(page_num, r).
           and_then (wal_read rd_read_u16_le r) (\<lambda>(slot, r).
           and_then (wal_read rd_read_u64_le r) (\<lambda>(xmax, r).
           and_then (wal_read rd_read_u32_le r) (\<lambda>(ctid_page, r).
           and_then (wal_read rd_read_u16_le r) (\<lambda>(ctid_slot, r).
           and_then (wal_read rd_read_u16_le r) (\<lambda>(infomask, r).
           and_then (finish_physical r) (\<lambda>_.
             Inr (HeapUpdateHeader file_id page_num slot xmax (ctid_page, ctid_slot) infomask))))))))))"

definition decode_full_page_image :: "u8 list \<Rightarrow> 'b wal_record_kind result" where
  "decode_full_page_image payload =
     (if length payload < 8 then Inl (wal_error ''WAL full-page-image payload is truncated'')
      else and_then (wal_read rd_read_u32_le (rd_new payload)) (\<lambda>(file_id, r).
           and_then (wal_read rd_read_u32_le r) (\<lambda>(page_num, r).
           and_then (wal_read rd_take_remaining r) (\<lambda>(img, r).
             Inr (FullPageImage file_id page_num img)))))"

definition decode_full_page_image_compressed :: "u8 list \<Rightarrow> 'b wal_record_kind result" where
  "decode_full_page_image_compressed payload =
     (if length payload < 13 then Inl (wal_error ''compressed full-page-image payload too short'')
      else and_then (wal_read rd_read_u32_le (rd_new payload)) (\<lambda>(file_id, r).
           and_then (wal_read rd_read_u32_le r) (\<lambda>(page_num, r).
           and_then (wal_read rd_read_u8 r) (\<lambda>(codec, r).
           and_then (wal_read rd_read_u32_le r) (\<lambda>(dict_id, r).
           and_then (wal_read rd_take_remaining r) (\<lambda>(compressed, r).
             Inr (FullPageImageCompressed file_id page_num codec dict_id compressed)))))))"

definition decode_create_dictionary :: "u8 list \<Rightarrow> 'b wal_record_kind result" where
  "decode_create_dictionary payload =
     (if length payload < 8 then Inl (wal_error ''create-dictionary payload too short'')
      else and_then (wal_read rd_read_u32_le (rd_new payload)) (\<lambda>(dict_id, r).
           and_then (wal_read rd_read_u32_le r) (\<lambda>(table_id, r).
           and_then (wal_read rd_take_remaining r) (\<lambda>(bytes, r).
             Inr (CreateDictionary dict_id table_id bytes)))))"

definition decode_json :: "'b wal_env \<Rightarrow> u8 \<Rightarrow> u8 list \<Rightarrow> 'b wal_record_kind result" where
  "decode_json env type_id payload =
     (if is_legacy_catalog_type type_id then Inl (wal_error ''unsupported legacy catalog WAL record format'')
      else if type_id = 31 \<and> length payload > MAX_CATALOG_CHANGE_PAYLOAD_BYTES
      then Inl (wal_error ''catalog change WAL payload exceeds 64 MiB'')
      else and_then (ok_or (wal_error ''failed to deserialize WAL payload: '') (kind_from_slice env payload)) (\<lambda>k.
        if type_id \<noteq> record_type k then Inl (wal_error ''WAL record type does not match payload'')
        else case k of
            CatalogChange change_set \<Rightarrow>
              and_then (map_err (\<lambda>m. wal_error (''invalid catalog change set: '' @ m))
                          (validate_shape (we_is_finite env) change_set)) (\<lambda>_. Inr k)
          | _ \<Rightarrow> Inr k))"

definition decode_payload :: "'b wal_env \<Rightarrow> u8 \<Rightarrow> u8 list \<Rightarrow> 'b wal_record_kind result" where
  "decode_payload env type_id payload =
     (if type_id = 5 then decode_heap_init payload
      else if type_id = 6 then decode_heap_insert payload
      else if type_id = 7 then decode_heap_delete payload
      else if type_id = 12 then decode_heap_update_header payload
      else if type_id = 8 then decode_full_page_image payload
      else if type_id = 18 then decode_full_page_image_compressed payload
      else if type_id = 19 then decode_create_dictionary payload
      else if type_id = 13 then
        and_then (ok_or (wal_error ''failed to deserialize WAL payload: '') (deserialize_subxids env payload))
          (\<lambda>subxids. Inr (CommitWithSubxids subxids))
      else decode_json env type_id payload)"

datatype 'b decode_result = DecodedRecord "'b wal_record" nat | Incomplete

definition frame_len_from_header :: "u8 list \<Rightarrow> nat result" where
  "frame_len_from_header header =
     (if length header \<noteq> HEADER_LEN then Inl (wal_error ''incomplete WAL record header'')
      else and_then (map_err (\<lambda>_. wal_error ''invalid WAL LSN header: '') (rd_read_u64_le (rd_new header))) (\<lambda>(_, r).
           and_then (map_err (\<lambda>_. wal_error ''invalid WAL transaction header: '') (rd_read_u64_le r)) (\<lambda>(_, r).
           and_then (map_err (\<lambda>_. wal_error ''invalid WAL record type header: '') (rd_read_u8 r)) (\<lambda>(type_id, r).
           and_then (map_err (\<lambda>_. wal_error ''invalid WAL payload length header: '') (rd_read_u32_le r)) (\<lambda>(len, _).
           and_then (validate_declared_payload_length type_id (unat len)) (\<lambda>_.
             if HEADER_LEN + unat len + CRC_LEN > USIZE_MAX then Inl (wal_error ''WAL record length overflow'')
             else Inr (HEADER_LEN + unat len + CRC_LEN)))))))"

definition decode_one :: "'b wal_env \<Rightarrow> u8 list \<Rightarrow> nat \<Rightarrow> 'b decode_result result" where
  "decode_one env bytes offset =
     and_then (map_err (\<lambda>_. wal_error ''invalid WAL record offset: '') (rd_at bytes offset)) (\<lambda>r.
     if rd_remaining r < HEADER_LEN then Inr Incomplete
     else and_then (map_err (\<lambda>_. wal_error ''invalid WAL LSN header: '') (rd_read_u64_le r)) (\<lambda>(lsn, r).
          and_then (map_err (\<lambda>_. wal_error ''invalid WAL transaction header: '') (rd_read_u64_le r)) (\<lambda>(txn_id, r).
          and_then (map_err (\<lambda>_. wal_error ''invalid WAL record type header: '') (rd_read_u8 r)) (\<lambda>(type_id, r).
          and_then (map_err (\<lambda>_. wal_error ''invalid WAL payload length header: '') (rd_read_u32_le r)) (\<lambda>(len, r).
          and_then (validate_declared_payload_length type_id (unat len)) (\<lambda>_.
          if unat len + CRC_LEN > USIZE_MAX then Inl (wal_error ''WAL record length overflow'')
          else if rd_remaining r < unat len + CRC_LEN then Inr Incomplete
          else and_then (map_err (\<lambda>_. wal_error ''invalid WAL payload: '') (rd_take r (unat len))) (\<lambda>(payload, r).
               let payload_end = rd_position r in
               and_then (map_err (\<lambda>_. wal_error ''invalid WAL CRC footer: '') (rd_read_u32_le r)) (\<lambda>(stored_crc, r).
               and_then (ok_or (wal_error ''WAL checksum range is outside the input'')
                           (slice_get bytes offset payload_end)) (\<lambda>checksummed.
               if we_crc env checksummed \<noteq> stored_crc then Inl (wal_error ''WAL record CRC mismatch'')
               else and_then (decode_payload env type_id payload) (\<lambda>k.
                 Inr (DecodedRecord \<lparr>wr_lsn = lsn, wr_txn_id = txn_id, wr_kind = k\<rparr> (rd_position r)))))))))))) "

definition decode_record :: "'b wal_env \<Rightarrow> u8 list \<Rightarrow> 'b wal_record result" where
  "decode_record env bytes =
     and_then (decode_one env bytes 0) (\<lambda>d. case d of
        DecodedRecord r next_offset \<Rightarrow>
          if next_offset = length bytes then Inr r else Inl (wal_error ''WAL buffer contains trailing bytes'')
      | Incomplete \<Rightarrow> Inl (wal_error ''incomplete WAL record''))"

section \<open>Payloads\<close>

text \<open>What the log relies on of the JSON codec: a serialised value parses to itself (a catalog
  change when it is well-formed: JSON has no text for a float that is not finite).\<close>

definition json_ok :: "'b wal_env \<Rightarrow> bool" where
  "json_ok env = ((\<forall>k p. we_to_vec env k = Some p
         \<longrightarrow> (\<forall>c. k = CatalogChange c \<longrightarrow> validate_shape (we_is_finite env) c = Inr ())
         \<longrightarrow> we_from_slice env p = Some k)
     \<and> (\<forall>xs p. we_to_vec env (CommitWithSubxids xs) = Some p \<longrightarrow> we_subxids env p = Some xs))"

text \<open>The column allocators of a change set are a \<open>BTreeMap\<close>.\<close>

fun kind_wf :: "'b wal_record_kind \<Rightarrow> bool" where
  "kind_wf (CatalogChange c) = bt_wf (next_column_object_ids (ccs_high_water c))"
| "kind_wf _ = True"

lemma usize_small: "n \<le> 2 ^ 32 \<Longrightarrow> n \<le> USIZE_MAX"
  by (simp add: USIZE_MAX_def)

lemma rd_take_remaining_eq [rd_simps]:
  "rd_ok r \<Longrightarrow> rd_take_remaining r = Inr (rd_rest r, rd_adv (length (rd_rest r)) r)"
  by (simp add: rd_take_remaining_def rd_simps)

lemma physical_roundtrip:
  "decode_heap_init (u32_le f @ u32_le p) = Inr (HeapInit f p)"
  "length row \<le> MAX_PAGE_BYTES \<Longrightarrow>
   decode_heap_insert (u32_le f @ u32_le p @ u16_le sl @ row) = Inr (HeapInsert f p sl row)"
  "decode_heap_delete (u32_le f @ u32_le p @ u16_le sl) = Inr (HeapDelete f p sl)"
  "decode_heap_update_header (u32_le f @ u32_le p @ u16_le sl @ u64_le x @ u32_le c @ u16_le d @ u16_le im)
     = Inr (HeapUpdateHeader f p sl x (c, d) im)"
  "length row \<le> MAX_PAGE_BYTES \<Longrightarrow>
   decode_full_page_image (u32_le f @ u32_le p @ row) = Inr (FullPageImage f p row)"
  "length row \<le> MAX_PAGE_BYTES \<Longrightarrow>
   decode_full_page_image_compressed (u32_le f @ u32_le p @ co # u32_le di @ row)
     = Inr (FullPageImageCompressed f p co di row)"
  "length row \<le> MAX_DICTIONARY_BYTES \<Longrightarrow>
   decode_create_dictionary (u32_le di @ u32_le tb @ row) = Inr (CreateDictionary di tb row)"
  by (simp_all add: decode_heap_init_def decode_heap_insert_def decode_heap_delete_def
      decode_heap_update_header_def decode_full_page_image_def decode_full_page_image_compressed_def
      decode_create_dictionary_def finish_physical_def rd_simps wal_codec_consts USIZE_MAX_def)

end
