(* ===== verification/Disk.thy ===== *)
theory Disk
  imports Prelude "HOL-Library.Sublist"
begin

text \<open>
  The file system as the log uses it (\<open>std::fs\<close>): files with a stable prefix, directories
  whose changes become durable with an fsync of the directory, a schedule of failing calls, and
  what a crash of the machine may leave behind. A call that fails changes nothing, except that a
  failing write may leave any prefix of its bytes. A crash keeps the stable prefix of each file,
  leaves anything up to the longest length the file had after it, and keeps any subset of the directory changes
  that were not yet fsynced; each directory change, a rename too, is kept or lost as a whole. A
  crash in the middle of an operation is a schedule in which all later calls of the operation fail.
\<close>

section \<open>State\<close>

datatype dir_name = DataDir | WalDir

type_synonym path = "dir_name \<times> string"
type_synonym inode = nat
type_synonym dir_change = "(path \<times> inode option) list"

record file_data =
  fd_bytes :: "u8 list"
  fd_stable :: nat
  fd_peak :: nat

datatype fault = Works | Fails nat

record store =
  dk_files :: "inode \<Rightarrow> file_data"
  dk_next :: inode
  dk_base :: "(path, inode) hash_map"
  dk_log :: "dir_change list"

record disk =
  dk_store :: store
  dk_faults :: "fault list"

text \<open>An open file: its inode and the position of the next read or write.\<close>

record handle =
  h_inode :: inode
  h_pos :: nat

definition assign :: "path \<times> inode option \<Rightarrow> (path, inode) hash_map \<Rightarrow> (path, inode) hash_map" where
  "assign a m = (case snd a of Some i \<Rightarrow> hm_insert (fst a) i m | None \<Rightarrow> hm_remove (fst a) m)"

definition apply_changes :: "dir_change list \<Rightarrow> (path, inode) hash_map \<Rightarrow> (path, inode) hash_map" where
  "apply_changes log m = fold (fold assign) log m"

definition entries :: "store \<Rightarrow> (path, inode) hash_map" where
  "entries s = apply_changes (dk_log s) (dk_base s)"

abbreviation lookup :: "store \<Rightarrow> path \<Rightarrow> inode option" where
  "lookup s p \<equiv> map_of (entries s) p"

abbreviation bytes_of :: "store \<Rightarrow> inode \<Rightarrow> u8 list" where
  "bytes_of s i \<equiv> fd_bytes (dk_files s i)"

section \<open>Calls\<close>

type_synonym 'a io = "disk \<Rightarrow> 'a result \<times> disk"

definition io_ok :: "'a \<Rightarrow> 'a io" where
  "io_ok x d = (Inr x, d)"

definition io_err :: "db_error \<Rightarrow> 'a io" where
  "io_err e d = (Inl e, d)"

definition io_then :: "'a io \<Rightarrow> ('a \<Rightarrow> 'b io) \<Rightarrow> 'b io" where
  "io_then m f d = (case m d of (Inl e, d') \<Rightarrow> (Inl e, d') | (Inr x, d') \<Rightarrow> f x d')"

definition io_lift :: "'a result \<Rightarrow> 'a io" where
  "io_lift r d = (r, d)"

definition io_map_err :: "(db_error \<Rightarrow> db_error) \<Rightarrow> 'a io \<Rightarrow> 'a io" where
  "io_map_err f m d = (map_err f (fst (m d)), snd (m d))"

definition db_io :: "string \<Rightarrow> db_error" where
  "db_io m = db_error_new Io IoError m"

definition db_durability_outcome_unknown :: "string \<Rightarrow> db_error" where
  "db_durability_outcome_unknown m = db_error_new DurabilityOutcomeUnknown IoError m"

definition next_fault :: "disk \<Rightarrow> fault \<times> disk" where
  "next_fault d = (case dk_faults d of [] \<Rightarrow> (Works, d) | f # fs \<Rightarrow> (f, d\<lparr>dk_faults := fs\<rparr>))"

text \<open>A call that may fail with the error \<open>e\<close> before it does anything.\<close>

definition call :: "db_error \<Rightarrow> (store \<Rightarrow> 'a result \<times> store) \<Rightarrow> 'a io" where
  "call e m d =
     (case next_fault d of
        (Works, d) \<Rightarrow> (case m (dk_store d) of (r, s) \<Rightarrow> (r, d\<lparr>dk_store := s\<rparr>))
      | (Fails n, d) \<Rightarrow> (Inl e, d))"

definition fs_exists :: "path \<Rightarrow> disk \<Rightarrow> bool" where
  "fs_exists p d = (lookup (dk_store d) p \<noteq> None)"

definition change_dir :: "dir_change \<Rightarrow> store \<Rightarrow> store" where
  "change_dir c s = s\<lparr>dk_log := dk_log s @ [c]\<rparr>"

definition set_file :: "inode \<Rightarrow> file_data \<Rightarrow> store \<Rightarrow> store" where
  "set_file i f s = s\<lparr>dk_files := (dk_files s)(i := f)\<rparr>"

definition empty_file :: file_data where
  "empty_file = \<lparr>fd_bytes = [], fd_stable = 0, fd_peak = 0\<rparr>"

definition fresh_entry :: "path \<Rightarrow> store \<Rightarrow> store" where
  "fresh_entry p s = (change_dir [(p, Some (dk_next s))] (set_file (dk_next s) empty_file s))\<lparr>dk_next := Suc (dk_next s)\<rparr>"

definition fs_open :: "db_error \<Rightarrow> path \<Rightarrow> handle io" where
  "fs_open e p = call e (\<lambda>s. case lookup s p of
     None \<Rightarrow> (Inl e, s) | Some i \<Rightarrow> (Inr \<lparr>h_inode = i, h_pos = 0\<rparr>, s))"

definition fs_create_new :: "db_error \<Rightarrow> path \<Rightarrow> handle io" where
  "fs_create_new e p = call e (\<lambda>s. case lookup s p of
     Some i \<Rightarrow> (Inl e, s)
   | None \<Rightarrow> (Inr \<lparr>h_inode = dk_next s, h_pos = 0\<rparr>, fresh_entry p s))"

definition resize_file :: "nat \<Rightarrow> file_data \<Rightarrow> file_data" where
  "resize_file n f = f\<lparr>fd_bytes := take n (fd_bytes f) @ replicate (n - length (fd_bytes f)) 0,
     fd_stable := min n (fd_stable f), fd_peak := max n (fd_peak f)\<rparr>"

text \<open>\<open>OpenOptions::new().write(true).create(true).truncate(true)\<close>.\<close>

definition fs_create_truncate :: "db_error \<Rightarrow> path \<Rightarrow> handle io" where
  "fs_create_truncate e p = call e (\<lambda>s. case lookup s p of
     Some i \<Rightarrow> (Inr \<lparr>h_inode = i, h_pos = 0\<rparr>, set_file i (resize_file 0 (dk_files s i)) s)
   | None \<Rightarrow> (Inr \<lparr>h_inode = dk_next s, h_pos = 0\<rparr>, fresh_entry p s))"

definition fs_create_dir :: "db_error \<Rightarrow> path \<Rightarrow> unit io" where
  "fs_create_dir e p = call e (\<lambda>s. (Inr (), if lookup s p \<noteq> None then s else fresh_entry p s))"

definition write_file :: "nat \<Rightarrow> u8 list \<Rightarrow> file_data \<Rightarrow> file_data" where
  "write_file pos bs f =
     (let old = fd_bytes f; new = take pos old @ replicate (pos - length old) 0 @ bs @ drop (pos + length bs) old
      in if bs = [] then f
         else f\<lparr>fd_bytes := new, fd_stable := min pos (fd_stable f), fd_peak := max (length new) (fd_peak f)\<rparr>)"

definition write_at :: "inode \<Rightarrow> nat \<Rightarrow> u8 list \<Rightarrow> store \<Rightarrow> store" where
  "write_at i pos bs s = set_file i (write_file pos bs (dk_files s i)) s"

definition fs_write_all :: "db_error \<Rightarrow> handle \<Rightarrow> u8 list \<Rightarrow> handle io" where
  "fs_write_all e h bs d =
     (case next_fault d of
        (Works, d) \<Rightarrow> (Inr (h\<lparr>h_pos := h_pos h + length bs\<rparr>), d\<lparr>dk_store := write_at (h_inode h) (h_pos h) bs (dk_store d)\<rparr>)
      | (Fails n, d) \<Rightarrow> (Inl e, d\<lparr>dk_store := write_at (h_inode h) (h_pos h) (take n bs) (dk_store d)\<rparr>))"

definition fs_seek :: "db_error \<Rightarrow> handle \<Rightarrow> nat \<Rightarrow> handle io" where
  "fs_seek e h pos = call e (\<lambda>s. (Inr (h\<lparr>h_pos := pos\<rparr>), s))"

definition fs_read_exact :: "db_error \<Rightarrow> handle \<Rightarrow> nat \<Rightarrow> (u8 list \<times> handle) io" where
  "fs_read_exact e h n = call e (\<lambda>s.
     let bs = drop (h_pos h) (bytes_of s (h_inode h)) in
     if length bs < n then (Inl e, s) else (Inr (take n bs, h\<lparr>h_pos := h_pos h + n\<rparr>), s))"

definition fs_read :: "db_error \<Rightarrow> path \<Rightarrow> u8 list io" where
  "fs_read e p = call e (\<lambda>s. case lookup s p of None \<Rightarrow> (Inl e, s) | Some i \<Rightarrow> (Inr (bytes_of s i), s))"

definition fs_len :: "db_error \<Rightarrow> handle \<Rightarrow> nat io" where
  "fs_len e h = call e (\<lambda>s. (Inr (length (bytes_of s (h_inode h))), s))"

definition fs_path_len :: "db_error \<Rightarrow> path \<Rightarrow> nat io" where
  "fs_path_len e p = call e (\<lambda>s. case lookup s p of
     None \<Rightarrow> (Inl e, s) | Some i \<Rightarrow> (Inr (length (bytes_of s i)), s))"

definition fs_set_len :: "db_error \<Rightarrow> handle \<Rightarrow> nat \<Rightarrow> unit io" where
  "fs_set_len e h n = call e (\<lambda>s. (Inr (), set_file (h_inode h) (resize_file n (dk_files s (h_inode h))) s))"

definition sync_file :: "file_data \<Rightarrow> file_data" where
  "sync_file f = f\<lparr>fd_stable := length (fd_bytes f), fd_peak := length (fd_bytes f)\<rparr>"

definition fs_sync :: "db_error \<Rightarrow> handle \<Rightarrow> unit io" where
  "fs_sync e h = call e (\<lambda>s. (Inr (), set_file (h_inode h) (sync_file (dk_files s (h_inode h))) s))"

definition fs_rename :: "db_error \<Rightarrow> path \<Rightarrow> path \<Rightarrow> unit io" where
  "fs_rename e a b = call e (\<lambda>s. case lookup s a of
     None \<Rightarrow> (Inl e, s) | Some i \<Rightarrow> (Inr (), change_dir [(a, None), (b, Some i)] s))"

text \<open>Removing reports a missing file apart from other failures.\<close>

definition fs_remove :: "db_error \<Rightarrow> path \<Rightarrow> bool io" where
  "fs_remove e p = call e (\<lambda>s. if lookup s p \<noteq> None then (Inr True, change_dir [(p, None)] s) else (Inr False, s))"

definition in_dir :: "dir_name \<Rightarrow> dir_change \<Rightarrow> bool" where
  "in_dir dn c = list_all (\<lambda>a. fst (fst a) = dn) c"

definition flush_dir :: "dir_name \<Rightarrow> store \<Rightarrow> store" where
  "flush_dir dn s =
     s\<lparr>dk_base := apply_changes (filter (in_dir dn) (dk_log s)) (dk_base s),
       dk_log := filter (Not \<circ> in_dir dn) (dk_log s)\<rparr>"

definition fs_sync_dir :: "db_error \<Rightarrow> dir_name \<Rightarrow> unit io" where
  "fs_sync_dir e dn = call e (\<lambda>s. (Inr (), flush_dir dn s))"

definition fs_list :: "db_error \<Rightarrow> dir_name \<Rightarrow> string list io" where
  "fs_list e dn = call e (\<lambda>s. (Inr (map snd (filter (\<lambda>p. fst p = dn) (hm_keys (entries s)))), s))"

section \<open>Crashes\<close>

definition file_after_crash :: "file_data \<Rightarrow> file_data \<Rightarrow> bool" where
  "file_after_crash f f' =
     (let n = length (fd_bytes f')
      in fd_stable f \<le> n \<and> n \<le> fd_peak f \<and> take (fd_stable f) (fd_bytes f') = take (fd_stable f) (fd_bytes f)
         \<and> fd_stable f' = n \<and> fd_peak f' = n)"

definition crash :: "store \<Rightarrow> store \<Rightarrow> bool" where
  "crash s s' =
     ((\<forall>i. file_after_crash (dk_files s i) (dk_files s' i)) \<and> dk_next s' = dk_next s \<and> dk_log s' = []
      \<and> (\<exists>kept. subseq kept (dk_log s)
          \<and> dk_base s' = hm_retain (\<lambda>p i. fst p = DataDir \<or> map_of (apply_changes kept (dk_base s)) (DataDir, ''wal'') \<noteq> None)
                           (apply_changes kept (dk_base s))))"

end
