(* ===== verification/Wal_Segment.thy ===== *)
theory Wal_Segment
  imports Wal_Codec Disk
begin

text \<open>
  The log on disk: crates/wal/src/segment.rs. The log is one byte stream cut into segments of
  16 MiB; a segment file is a 32-byte header and its part of the stream, and \<open>wal.meta\<close> names the
  replay floor and the durable end. A log position is a natural number and every checked addition
  and multiplication of the code is a test against \<open>2 ^ 64\<close>. A file name is the name the code
  formats; \<open>crc\<close> is the checksum of crate crc32fast. The texts of input/output errors are cut to
  the literal part, and an allocation succeeds.
\<close>

section \<open>Constants and names\<close>

definition WAL_FORMAT_VERSION :: u32 where "WAL_FORMAT_VERSION = 3"
definition SEGMENT_PAYLOAD_BYTES :: nat where "SEGMENT_PAYLOAD_BYTES = 16 * 1024 * 1024"
definition SEGMENT_MAGIC :: "u8 list" where "SEGMENT_MAGIC = [83, 71, 87, 83]"
definition SEGMENT_HEADER_LEN :: nat where "SEGMENT_HEADER_LEN = 32"
definition META_MAGIC :: "u8 list" where "META_MAGIC = [83, 71, 87, 77]"
definition META_VERSION :: u32 where "META_VERSION = 2"
definition META_LEN :: nat where "META_LEN = 36"

definition u64_limit :: nat where "u64_limit = 2 ^ 64"

record wal_meta =
  wm_replay_floor :: nat
  wm_durable_end :: nat

definition hex_digit :: "nat \<Rightarrow> char" where
  "hex_digit n = ''0123456789ABCDEF'' ! n"

fun hex_digits :: "nat \<Rightarrow> nat \<Rightarrow> string" where
  "hex_digits 0 n = []"
| "hex_digits (Suc k) n = hex_digits k (n div 16) @ [hex_digit (n mod 16)]"

definition segment_path :: "nat \<Rightarrow> path" where
  "segment_path number = (WalDir, hex_digits 16 number @ ''.wal'')"

definition meta_path :: path where "meta_path = (WalDir, ''wal.meta'')"
definition meta_tmp_path :: path where "meta_tmp_path = (WalDir, ''wal.meta.tmp'')"
definition wal_dir_path :: path where "wal_dir_path = (DataDir, ''wal'')"

text \<open>\<open>u64::from_str_radix(stem, 16)\<close> on at most 16 characters: an optional sign and digits of
  either case.\<close>

definition hex_value :: "char \<Rightarrow> nat option" where
  "hex_value c = List.find (\<lambda>n. ''0123456789ABCDEF'' ! n = c \<or> ''0123456789abcdef'' ! n = c) [0..<16]"

fun hex_number :: "nat \<Rightarrow> string \<Rightarrow> nat option" where
  "hex_number acc [] = Some acc"
| "hex_number acc (c # cs) = (case hex_value c of None \<Rightarrow> None | Some v \<Rightarrow> hex_number (16 * acc + v) cs)"

definition from_str_radix_16 :: "string \<Rightarrow> nat option" where
  "from_str_radix_16 s =
     (case s of [] \<Rightarrow> None
      | c # cs \<Rightarrow> if c = CHR ''+'' then (if cs = [] then None else hex_number 0 cs) else hex_number 0 s)"

fun segment_number_list :: "string list \<Rightarrow> nat list result" where
  "segment_number_list [] = Inr []"
| "segment_number_list (name # names) =
     (if \<not> (length name \<ge> 4 \<and> drop (length name - 4) name = ''.wal'') then segment_number_list names
      else
        let stem = take (length name - 4) name in
        if length stem \<noteq> 16 then Inl (wal_error ''invalid WAL segment name '')
        else case from_str_radix_16 stem of
          None \<Rightarrow> Inl (wal_error ''invalid WAL segment name '')
        | Some number \<Rightarrow> and_then (segment_number_list names) (\<lambda>rest. Inr (number # rest)))"

definition segment_numbers :: "nat list io" where
  "segment_numbers = io_then (fs_list (db_io ''failed to list WAL directory '') WalDir)
     (\<lambda>names. io_lift (segment_number_list names))"

definition sync_dir :: "dir_name \<Rightarrow> unit io" where
  "sync_dir dn = fs_sync_dir (db_io ''failed to fsync WAL directory '') dn"

definition io_exists :: "path \<Rightarrow> bool io" where
  "io_exists p d = (Inr (fs_exists p d), d)"

section \<open>Metadata\<close>

definition encode_meta :: "(u8 list \<Rightarrow> u32) \<Rightarrow> wal_meta \<Rightarrow> u8 list" where
  "encode_meta crc m =
     (let bytes = META_MAGIC @ u32_le META_VERSION @ u32_le WAL_FORMAT_VERSION
                  @ u32_le (of_nat SEGMENT_PAYLOAD_BYTES)
                  @ u64_le (of_nat (wm_replay_floor m)) @ u64_le (of_nat (wm_durable_end m))
      in bytes @ u32_le (crc bytes))"

abbreviation seg_read ::
  "string \<Rightarrow> (slice_reader \<Rightarrow> slice_read_error + ('a \<times> slice_reader)) \<Rightarrow> slice_reader \<Rightarrow> ('a \<times> slice_reader) result" where
  "seg_read msg rd r \<equiv> map_err (\<lambda>_. wal_error msg) (rd r)"

definition decode_meta :: "(u8 list \<Rightarrow> u32) \<Rightarrow> u8 list \<Rightarrow> wal_meta result" where
  "decode_meta crc bytes =
     (if length bytes \<noteq> META_LEN then Inl (wal_error ''WAL metadata length mismatch'')
      else and_then (seg_read ''WAL metadata is incomplete'' (\<lambda>r. rd_take r 4) (rd_new bytes)) (\<lambda>(magic, r).
      if magic \<noteq> META_MAGIC then Inl (wal_error ''WAL metadata magic mismatch'')
      else and_then (seg_read ''WAL metadata version is incomplete'' rd_read_u32_le r) (\<lambda>(version, r).
      if version \<noteq> META_VERSION then Inl (wal_error ''unsupported WAL metadata version '')
      else and_then (seg_read ''WAL format version is incomplete'' rd_read_u32_le r) (\<lambda>(wal_version, r).
      if wal_version \<noteq> WAL_FORMAT_VERSION then Inl (wal_error ''unsupported WAL format version '')
      else and_then (seg_read ''WAL segment size is incomplete'' rd_read_u32_le r) (\<lambda>(payload_bytes, r).
      if payload_bytes \<noteq> of_nat SEGMENT_PAYLOAD_BYTES then Inl (wal_error ''WAL segment size mismatch'')
      else and_then (seg_read ''WAL replay floor is incomplete'' rd_read_u64_le r) (\<lambda>(replay_floor, r).
      and_then (seg_read ''WAL durable end is incomplete'' rd_read_u64_le r) (\<lambda>(durable_end, r).
      and_then (seg_read ''WAL metadata checksum is incomplete'' rd_read_u32_le r) (\<lambda>(stored_crc, r).
      if crc (take (META_LEN - 4) bytes) \<noteq> stored_crc then Inl (wal_error ''WAL metadata checksum mismatch'')
      else Inr \<lparr>wm_replay_floor = unat replay_floor, wm_durable_end = unat durable_end\<rparr>))))))))"

definition load_meta :: "(u8 list \<Rightarrow> u32) \<Rightarrow> wal_meta io" where
  "load_meta crc = io_then (fs_read (db_io ''failed to read WAL metadata '') meta_path)
     (\<lambda>bytes. io_lift (decode_meta crc bytes))"

text \<open>Up to the rename, then the fsync of the directory: a failure tells whether the replacement
  was visible.\<close>

definition replace_meta :: "(u8 list \<Rightarrow> u32) \<Rightarrow> wal_meta \<Rightarrow> unit io" where
  "replace_meta crc m =
     io_then (fs_create_truncate (db_io ''failed to open WAL metadata '') meta_tmp_path) (\<lambda>h.
     io_then (fs_write_all (db_io ''failed to write WAL metadata '') h (encode_meta crc m)) (\<lambda>h.
     io_then (fs_sync (db_io ''failed to fsync WAL metadata '') h) (\<lambda>_.
     fs_rename (db_io ''failed to replace WAL metadata '') meta_tmp_path meta_path)))"

record meta_write_failure =
  mwf_error :: db_error
  mwf_replacement_visible :: bool

definition write_meta_with_outcome ::
  "(u8 list \<Rightarrow> u32) \<Rightarrow> wal_meta \<Rightarrow> disk \<Rightarrow> (meta_write_failure + unit) \<times> disk" where
  "write_meta_with_outcome crc m d =
     (case replace_meta crc m d of
        (Inl e, d) \<Rightarrow> (Inl \<lparr>mwf_error = e, mwf_replacement_visible = False\<rparr>, d)
      | (Inr _, d) \<Rightarrow>
          (case sync_dir WalDir d of
             (Inl e, d) \<Rightarrow> (Inl \<lparr>mwf_error = e, mwf_replacement_visible = True\<rparr>, d)
           | (Inr _, d) \<Rightarrow> (Inr (), d)))"

definition write_meta :: "(u8 list \<Rightarrow> u32) \<Rightarrow> wal_meta \<Rightarrow> unit io" where
  "write_meta crc m d =
     (case write_meta_with_outcome crc m d of (Inl f, d) \<Rightarrow> (Inl (mwf_error f), d) | (Inr _, d) \<Rightarrow> (Inr (), d))"

section \<open>Segment files\<close>

definition encode_segment_header :: "(u8 list \<Rightarrow> u32) \<Rightarrow> nat \<Rightarrow> u8 list result" where
  "encode_segment_header crc number =
     (if number * SEGMENT_PAYLOAD_BYTES \<ge> u64_limit then Inl (wal_error ''WAL segment start overflow'')
      else
        let bytes = SEGMENT_MAGIC @ u32_le WAL_FORMAT_VERSION @ u64_le (of_nat number)
                    @ u64_le (of_nat (number * SEGMENT_PAYLOAD_BYTES)) @ u32_le (of_nat SEGMENT_PAYLOAD_BYTES)
        in Inr (bytes @ u32_le (crc bytes)))"

definition check_segment_header :: "(u8 list \<Rightarrow> u32) \<Rightarrow> nat \<Rightarrow> u8 list \<Rightarrow> unit result" where
  "check_segment_header crc number bytes =
     (if take 4 bytes \<noteq> SEGMENT_MAGIC then Inl (wal_error ''WAL segment header magic mismatch: '')
      else if crc (take (SEGMENT_HEADER_LEN - 4) bytes) \<noteq> from_le (drop (SEGMENT_HEADER_LEN - 4) bytes)
      then Inl (wal_error ''WAL segment header checksum mismatch: '')
      else and_then (map_err (\<lambda>_. wal_error ''WAL segment header is malformed'') (rd_at bytes 4)) (\<lambda>r.
      and_then (seg_read ''WAL segment format is incomplete'' rd_read_u32_le r) (\<lambda>(version, r).
      if version \<noteq> WAL_FORMAT_VERSION then Inl (wal_error ''unsupported WAL segment format'')
      else and_then (seg_read ''WAL segment number is incomplete'' rd_read_u64_le r) (\<lambda>(stored_number, r).
      and_then (seg_read ''WAL segment start is incomplete'' rd_read_u64_le r) (\<lambda>(start, r).
      and_then (seg_read ''WAL segment payload size is incomplete'' rd_read_u32_le r) (\<lambda>(payload, r).
      if number * SEGMENT_PAYLOAD_BYTES \<ge> u64_limit then Inl (wal_error ''WAL segment start overflow'')
      else if unat stored_number \<noteq> number \<or> unat start \<noteq> number * SEGMENT_PAYLOAD_BYTES
              \<or> unat payload \<noteq> SEGMENT_PAYLOAD_BYTES
      then Inl (wal_error ''WAL segment header does not match filename: '')
      else Inr ()))))))"

definition validate_segment_header :: "(u8 list \<Rightarrow> u32) \<Rightarrow> handle \<Rightarrow> nat \<Rightarrow> handle io" where
  "validate_segment_header crc h number =
     io_then (fs_seek (db_io ''failed to seek WAL segment '') h 0) (\<lambda>h.
     io_then (fs_read_exact (wal_error ''incomplete WAL segment header '') h SEGMENT_HEADER_LEN) (\<lambda>(bytes, h).
     io_then (io_lift (check_segment_header crc number bytes)) (\<lambda>_. io_ok h)))"

definition open_segment :: "(u8 list \<Rightarrow> u32) \<Rightarrow> nat \<Rightarrow> handle io" where
  "open_segment crc number =
     io_then (fs_open (db_io ''failed to open WAL segment '') (segment_path number)) (\<lambda>h.
     validate_segment_header crc h number)"

definition write_segment_header :: "(u8 list \<Rightarrow> u32) \<Rightarrow> nat \<Rightarrow> handle \<Rightarrow> handle io" where
  "write_segment_header crc number h =
     io_then (io_lift (encode_segment_header crc number)) (\<lambda>header.
     io_then (fs_write_all (db_io ''failed to write WAL segment header '') h header) (\<lambda>h.
     io_then (fs_sync (db_io ''failed to fsync WAL segment header '') h) (\<lambda>_. io_ok h)))"

definition remove_existing :: "db_error \<Rightarrow> path \<Rightarrow> unit io" where
  "remove_existing e p = io_then (fs_remove e p) (\<lambda>found. if found then io_ok () else io_err e)"

definition create_segment :: "(u8 list \<Rightarrow> u32) \<Rightarrow> nat \<Rightarrow> handle io" where
  "create_segment crc number =
     io_then (fs_create_new (db_io ''failed to create WAL segment '') (segment_path number)) (\<lambda>h d.
     case write_segment_header crc number h d of
       (Inl e, d) \<Rightarrow>
         io_then (remove_existing (db_io ''failed to remove incomplete WAL segment '') (segment_path number)) (\<lambda>_.
         io_then (sync_dir WalDir) (\<lambda>_. io_err e)) d
     | (Inr h, d) \<Rightarrow> io_then (sync_dir WalDir) (\<lambda>_. io_ok h) d)"

definition remove_segment :: "nat \<Rightarrow> unit io" where
  "remove_segment number =
     io_then (fs_remove (db_io ''failed to '') (segment_path number)) (\<lambda>_. io_ok ())"

text \<open>\<open>match open_segment \<dots>\<close>: a segment that is not there is created.\<close>

definition open_or_create :: "(u8 list \<Rightarrow> u32) \<Rightarrow> nat \<Rightarrow> handle io" where
  "open_or_create crc number d =
     (case open_segment crc number d of
        (Inr h, d) \<Rightarrow> (Inr h, d)
      | (Inl e, d) \<Rightarrow> if \<not> fs_exists (segment_path number) d then create_segment crc number d else (Inl e, d))"

section \<open>Start\<close>

definition initialize_with_meta :: "(u8 list \<Rightarrow> u32) \<Rightarrow> bool \<Rightarrow> unit io" where
  "initialize_with_meta crc has_durable_state =
     io_then (load_meta crc) (\<lambda>meta.
     let first_path = segment_path (wm_replay_floor meta div SEGMENT_PAYLOAD_BYTES) in
     io_then (io_exists first_path) (\<lambda>first_exists.
     if first_exists \<and> wm_replay_floor meta = 0 \<and> wm_durable_end meta = 0 \<and> \<not> has_durable_state then
       io_then (remove_existing (db_io ''failed to remove incomplete initial WAL segment '') first_path) (\<lambda>_.
       io_then (sync_dir WalDir) (\<lambda>_.
       io_then (create_segment crc 0) (\<lambda>_. io_ok ())))
     else if \<not> first_exists then
       if wm_replay_floor meta \<noteq> 0 \<or> has_durable_state
       then io_err (wal_error ''WAL segment is missing beside initialized durable state'')
       else io_then (create_segment crc 0) (\<lambda>_. io_ok ())
     else io_ok ()))"

definition initialize_without_meta :: "(u8 list \<Rightarrow> u32) \<Rightarrow> bool \<Rightarrow> unit io" where
  "initialize_without_meta crc has_durable_state =
     (if has_durable_state
      then io_err (wal_error ''WAL metadata is missing beside existing durable database state'')
      else
        io_then (io_exists (segment_path 0)) (\<lambda>found.
        io_then (if found then io_then (open_segment crc 0) (\<lambda>_. io_ok ()) else io_ok ()) (\<lambda>_.
        io_then (write_meta crc \<lparr>wm_replay_floor = 0, wm_durable_end = 0\<rparr>) (\<lambda>_.
        io_then (io_exists (segment_path 0)) (\<lambda>found.
        if found then io_ok () else io_then (create_segment crc 0) (\<lambda>_. io_ok ()))))))"

definition initialize :: "(u8 list \<Rightarrow> u32) \<Rightarrow> unit io" where
  "initialize crc =
     io_then (io_exists (DataDir, ''wal.dat'')) (\<lambda>legacy.
     if legacy then io_err (wal_error ''unsupported legacy single-file WAL; rebuild the data directory'')
     else
       io_then (io_exists (DataDir, ''manifest.dat'')) (\<lambda>manifest.
       io_then (io_exists (DataDir, ''clog.dat'')) (\<lambda>clog.
       let has_durable_state = manifest \<or> clog in
       io_then (io_exists wal_dir_path) (\<lambda>dir_exists.
       if \<not> dir_exists \<and> has_durable_state
       then io_err (wal_error ''segmented WAL is missing beside existing durable database state'')
       else
         io_then (if dir_exists then io_ok () else fs_create_dir (db_io ''failed to create WAL directory '') wal_dir_path) (\<lambda>_.
         io_then (io_exists meta_path) (\<lambda>metadata_exists.
         io_then (if metadata_exists then initialize_with_meta crc has_durable_state
                  else initialize_without_meta crc has_durable_state) (\<lambda>_.
         sync_dir DataDir)))))))"

fun remove_numbers :: "(nat \<Rightarrow> bool) \<Rightarrow> nat list \<Rightarrow> bool \<Rightarrow> bool io" where
  "remove_numbers unwanted [] removed = io_ok removed"
| "remove_numbers unwanted (number # numbers) removed =
     (if unwanted number
      then io_then (remove_segment number) (\<lambda>_. remove_numbers unwanted numbers True)
      else remove_numbers unwanted numbers removed)"

text \<open>Remove the listed segments a predicate rejects and fsync the directory if any was.\<close>

definition remove_unwanted :: "(nat \<Rightarrow> bool) \<Rightarrow> unit io" where
  "remove_unwanted unwanted =
     io_then segment_numbers (\<lambda>numbers.
     io_then (remove_numbers unwanted numbers False) (\<lambda>removed.
     if removed then sync_dir WalDir else io_ok ()))"

definition recycle_orphaned_segments :: "nat \<Rightarrow> unit io" where
  "recycle_orphaned_segments floor_lsn =
     (let first_keep = floor_lsn div SEGMENT_PAYLOAD_BYTES in remove_unwanted (\<lambda>number. number < first_keep))"

function recycle_range :: "nat \<Rightarrow> nat \<Rightarrow> unit io" where
  "recycle_range number first_keep =
     (if number < first_keep
      then io_then (remove_segment number) (\<lambda>_.
           if number + 1 \<ge> u64_limit then io_err (wal_error ''WAL segment number overflow'')
           else recycle_range (number + 1) first_keep)
      else io_ok ())"
  by pat_completeness auto
termination
  by (relation "measure (\<lambda>(number, first_keep). first_keep - number)") auto

declare recycle_range.simps [simp del]

definition recycle_segments :: "nat \<Rightarrow> nat \<Rightarrow> unit io" where
  "recycle_segments old_floor floor_lsn =
     io_then (recycle_range (old_floor div SEGMENT_PAYLOAD_BYTES) (floor_lsn div SEGMENT_PAYLOAD_BYTES)) (\<lambda>_.
     sync_dir WalDir)"

section \<open>The end of the stream\<close>

fun shrink_highest :: "nat \<Rightarrow> nat \<Rightarrow> nat io" where
  "shrink_highest first highest =
     io_then (fs_path_len (db_io ''failed to stat WAL segment '') (segment_path highest)) (\<lambda>len.
     if len \<ge> SEGMENT_HEADER_LEN \<or> highest = first then io_ok highest
     else
       io_then (remove_segment highest) (\<lambda>_.
       io_then (sync_dir WalDir) (\<lambda>_.
       if highest = 0 then io_err (wal_error ''WAL segment number underflow'')
       else shrink_highest first (highest - 1))))"

declare shrink_highest.simps [simp del]

function measure_segments :: "(u8 list \<Rightarrow> u32) \<Rightarrow> nat \<Rightarrow> nat \<Rightarrow> nat io" where
  "measure_segments crc highest number =
     io_then (open_segment crc number) (\<lambda>file.
     io_then (fs_len (db_io ''failed to stat WAL segment '') file) (\<lambda>len.
     if len < SEGMENT_HEADER_LEN then io_err (wal_error ''WAL segment is shorter than its header'')
     else
       let payload_len = len - SEGMENT_HEADER_LEN in
       if payload_len > SEGMENT_PAYLOAD_BYTES then io_err (wal_error ''WAL segment exceeds its fixed size'')
       else if number < highest \<and> payload_len \<noteq> SEGMENT_PAYLOAD_BYTES
       then io_err (wal_error ''non-final WAL segment is incomplete'')
       else if number = highest then
         if number * SEGMENT_PAYLOAD_BYTES \<ge> u64_limit then io_err (wal_error ''WAL segment position overflow'')
         else if number * SEGMENT_PAYLOAD_BYTES + payload_len \<ge> u64_limit
         then io_err (wal_error ''WAL end position overflow'')
         else io_ok (number * SEGMENT_PAYLOAD_BYTES + payload_len)
       else if number + 1 \<ge> u64_limit then io_err (wal_error ''WAL segment number overflow'')
       else measure_segments crc highest (number + 1)))"
  by pat_completeness auto
termination
  by (relation "measure (\<lambda>(crc, highest, number). u64_limit - number)") auto

declare measure_segments.simps [simp del]

definition discover_end :: "(u8 list \<Rightarrow> u32) \<Rightarrow> nat \<Rightarrow> nat \<Rightarrow> nat io" where
  "discover_end crc replay_floor durable_end =
     (let first = replay_floor div SEGMENT_PAYLOAD_BYTES;
          durable_segment = durable_end div SEGMENT_PAYLOAD_BYTES;
          at_boundary = (durable_end > replay_floor \<and> durable_end mod SEGMENT_PAYLOAD_BYTES = 0)
      in if at_boundary \<and> durable_segment = 0 then io_err (wal_error ''WAL durable segment underflow'')
         else
           let last_with_durable_bytes = (if at_boundary then durable_segment - 1 else durable_segment) in
           io_then (remove_unwanted (\<lambda>number. number > last_with_durable_bytes)) (\<lambda>_.
           io_then segment_numbers (\<lambda>numbers.
           case iter_max (filter (\<lambda>number. number \<ge> first) numbers) of
             None \<Rightarrow> io_err (wal_error ''WAL has no segment at its replay floor'')
           | Some highest \<Rightarrow>
               io_then (shrink_highest first highest) (\<lambda>highest. measure_segments crc highest first))))"

section \<open>Reading\<close>

record segment_reader =
  sr_position :: nat
  sr_end :: nat
  sr_file :: "handle option"
  sr_file_number :: "nat option"

definition segment_reader_new :: "nat \<Rightarrow> nat \<Rightarrow> segment_reader" where
  "segment_reader_new position end_lsn =
     \<lparr>sr_position = position, sr_end = end_lsn, sr_file = None, sr_file_number = None\<rparr>"

definition remaining :: "segment_reader \<Rightarrow> nat" where
  "remaining r = sr_end r - sr_position r"

definition ensure_file :: "(u8 list \<Rightarrow> u32) \<Rightarrow> nat \<Rightarrow> nat \<Rightarrow> segment_reader \<Rightarrow> segment_reader io" where
  "ensure_file crc number offset r =
     (if sr_file_number r = Some number then io_ok r
      else
        io_then (open_segment crc number) (\<lambda>file.
        if SEGMENT_HEADER_LEN + offset \<ge> u64_limit then io_err (wal_error ''WAL physical offset overflow'')
        else
          io_then (fs_seek (db_io ''failed to seek WAL segment: '') file (SEGMENT_HEADER_LEN + offset)) (\<lambda>file.
          io_ok (r\<lparr>sr_file := Some file, sr_file_number := Some number\<rparr>))))"

function read_exact_into :: "(u8 list \<Rightarrow> u32) \<Rightarrow> nat \<Rightarrow> u8 list \<Rightarrow> segment_reader \<Rightarrow> (u8 list \<times> segment_reader) io" where
  "read_exact_into crc n done r =
     (if n = 0 then io_ok (done, r)
      else
        let number = sr_position r div SEGMENT_PAYLOAD_BYTES; offset = sr_position r mod SEGMENT_PAYLOAD_BYTES in
        io_then (ensure_file crc number offset r) (\<lambda>r.
        let chunk_len = min (SEGMENT_PAYLOAD_BYTES - offset) n in
        case sr_file r of
          None \<Rightarrow> io_err (wal_error ''WAL segment reader has no file'')
        | Some file \<Rightarrow>
            io_then (fs_read_exact (db_io ''failed to read WAL segment: '') file chunk_len) (\<lambda>(chunk, file).
            if sr_position r + chunk_len \<ge> u64_limit then io_err (wal_error ''WAL reader position overflow'')
            else read_exact_into crc (n - chunk_len) (done @ chunk)
                   (r\<lparr>sr_position := sr_position r + chunk_len, sr_file := Some file\<rparr>))))"
  by pat_completeness auto
termination
  by (relation "measure (\<lambda>(crc, n, done, r). n)") (auto simp: SEGMENT_PAYLOAD_BYTES_def)

declare read_exact_into.simps [simp del]

definition read_exact_vec :: "(u8 list \<Rightarrow> u32) \<Rightarrow> nat \<Rightarrow> segment_reader \<Rightarrow> (u8 list option \<times> segment_reader) io" where
  "read_exact_vec crc n r =
     (if n \<ge> u64_limit then io_err (wal_error ''WAL read length does not fit u64'')
      else if remaining r < n then io_ok (None, r)
      else io_then (read_exact_into crc n [] r) (\<lambda>(bytes, r). io_ok (Some bytes, r)))"

section \<open>Writing and truncating\<close>

text \<open>The open segment and its number change in place, on failures too.\<close>

function append_stream ::
  "(u8 list \<Rightarrow> u32) \<Rightarrow> handle \<Rightarrow> nat \<Rightarrow> nat \<Rightarrow> u8 list \<Rightarrow> disk \<Rightarrow> (unit result \<times> handle \<times> nat) \<times> disk" where
  "append_stream crc active active_number position bytes d =
     (if bytes = [] then ((Inr (), active, active_number), d)
      else
        let number = position div SEGMENT_PAYLOAD_BYTES;
            rollover = (if number \<noteq> active_number
              then io_then (fs_sync (db_io ''failed to fsync filled WAL segment before rollover: '') active) (\<lambda>_.
                   open_or_create crc number)
              else io_ok active)
        in case rollover d of
             (Inl e, d) \<Rightarrow> ((Inl e, active, active_number), d)
           | (Inr active, d) \<Rightarrow>
               let offset = position mod SEGMENT_PAYLOAD_BYTES;
                   chunk_len = min (SEGMENT_PAYLOAD_BYTES - offset) (length bytes)
               in if SEGMENT_HEADER_LEN + offset \<ge> u64_limit
                  then ((Inl (wal_error ''WAL physical offset overflow''), active, number), d)
                  else case io_then (fs_seek (db_io ''failed to seek WAL segment for append: '') active (SEGMENT_HEADER_LEN + offset)) (\<lambda>active.
                              fs_write_all (db_io ''failed to append WAL segment: '') active (take chunk_len bytes)) d of
                    (Inl e, d) \<Rightarrow> ((Inl e, active, number), d)
                  | (Inr active, d) \<Rightarrow>
                      if position + chunk_len \<ge> u64_limit
                      then ((Inl (wal_error ''WAL append position overflow''), active, number), d)
                      else append_stream crc active number (position + chunk_len) (drop chunk_len bytes) d)"
  by pat_completeness auto
termination
  by (relation "measure (\<lambda>(crc, active, active_number, position, bytes, d). length bytes)")
    (auto simp: SEGMENT_PAYLOAD_BYTES_def)

declare append_stream.simps [simp del]

definition active_segment_number :: "nat \<Rightarrow> nat result" where
  "active_segment_number position =
     (if position > 0 \<and> position mod SEGMENT_PAYLOAD_BYTES = 0
      then if position div SEGMENT_PAYLOAD_BYTES = 0 then Inl (wal_error ''WAL active segment underflow'')
           else Inr (position div SEGMENT_PAYLOAD_BYTES - 1)
      else Inr (position div SEGMENT_PAYLOAD_BYTES))"

fun remove_down :: "nat \<Rightarrow> nat \<Rightarrow> unit io" where
  "remove_down number first_remove =
     io_then (remove_segment number) (\<lambda>_.
     if number = first_remove then io_ok ()
     else if number = 0 then io_err (wal_error ''WAL segment number underflow'')
     else remove_down (number - 1) first_remove)"

declare remove_down.simps [simp del]

definition truncate_stream :: "(u8 list \<Rightarrow> u32) \<Rightarrow> nat \<Rightarrow> nat \<Rightarrow> nat \<Rightarrow> (handle \<times> nat) io" where
  "truncate_stream crc position old_end replay_floor =
     (let keep_preceding = (position > 0 \<and> position mod SEGMENT_PAYLOAD_BYTES = 0 \<and> replay_floor < position)
      in if keep_preceding \<and> position div SEGMENT_PAYLOAD_BYTES = 0
         then io_err (wal_error ''WAL truncate segment underflow'')
         else
           let keep_number = (if keep_preceding then position div SEGMENT_PAYLOAD_BYTES - 1
                              else position div SEGMENT_PAYLOAD_BYTES);
               keep_payload = (if keep_preceding then SEGMENT_PAYLOAD_BYTES
                               else position mod SEGMENT_PAYLOAD_BYTES);
               old_last = old_end div SEGMENT_PAYLOAD_BYTES
           in if keep_number + 1 \<ge> u64_limit then io_err (wal_error ''WAL segment number overflow'')
              else
                io_then (if keep_number + 1 \<le> old_last
                         then io_then (remove_down old_last (keep_number + 1)) (\<lambda>_. sync_dir WalDir)
                         else io_ok ()) (\<lambda>_.
                io_then (open_or_create crc keep_number) (\<lambda>file.
                if SEGMENT_HEADER_LEN + keep_payload \<ge> u64_limit then io_err (wal_error ''WAL truncate length overflow'')
                else
                  io_then (fs_set_len (db_io ''failed to truncate WAL segment: '') file (SEGMENT_HEADER_LEN + keep_payload)) (\<lambda>_.
                  io_then (fs_sync (db_io ''failed to fsync truncated WAL segment: '') file) (\<lambda>_.
                  io_ok (file, keep_number))))))"

end
