(* ===== verification/Disk_Logic.thy ===== *)
theory Disk_Logic
  imports Disk
begin

text \<open>
  Reasoning about disk calls. \<open>wp m Q E s\<close> says that from the store \<open>s\<close> the call \<open>m\<close> either succeeds in a
  store and with a value that satisfy \<open>Q\<close>, or fails because a file-system call failed, in a store
  that satisfies \<open>E\<close>; without faults it succeeds. One rule per primitive; the fault schedule does
  not appear in a goal.
\<close>

section \<open>Weakest preconditions\<close>

definition nf :: "fault list \<Rightarrow> bool" where
  "nf fs = (\<forall>f \<in> set fs. f = Works)"

definition wp :: "'a io \<Rightarrow> ('a \<Rightarrow> store \<Rightarrow> bool) \<Rightarrow> (store \<Rightarrow> bool) \<Rightarrow> store \<Rightarrow> bool" where
  "wp m Q E s = (\<forall>fs. case m \<lparr>dk_store = s, dk_faults = fs\<rparr> of
     (Inr x, d) \<Rightarrow> Q x (dk_store d) \<and> (nf fs \<longrightarrow> nf (dk_faults d))
   | (Inl e, d) \<Rightarrow> E (dk_store d) \<and> \<not> nf fs)"

named_theorems wp_rules

lemma wp_cases:
  assumes "wp m Q E (dk_store d)"
  obtains (ok) x d' where "m d = (Inr x, d')" "Q x (dk_store d')" "nf (dk_faults d) \<Longrightarrow> nf (dk_faults d')"
  | (err) e d' where "m d = (Inl e, d')" "E (dk_store d')" "\<not> nf (dk_faults d)"
proof -
  have "case m d of (Inr x, d') \<Rightarrow> Q x (dk_store d') \<and> (nf (dk_faults d) \<longrightarrow> nf (dk_faults d'))
      | (Inl e, d') \<Rightarrow> E (dk_store d') \<and> \<not> nf (dk_faults d)"
    using assms [unfolded wp_def, rule_format, of "dk_faults d"] by (cases d) simp
  with that show ?thesis by (cases "m d"; cases "fst (m d)") auto
qed

lemma wp_conseq: "wp m Q E s \<Longrightarrow> (\<And>x s. Q x s \<Longrightarrow> Q' x s) \<Longrightarrow> (\<And>s. E s \<Longrightarrow> E' s) \<Longrightarrow> wp m Q' E' s"
  unfolding wp_def by (rule allI, drule spec) (auto split: prod.splits sum.splits)

lemma wp_ok [wp_rules]: "Q x s \<Longrightarrow> wp (io_ok x) Q E s"
  by (simp add: wp_def io_ok_def)

lemma wp_lift [wp_rules]: "r = Inr x \<Longrightarrow> Q x s \<Longrightarrow> wp (io_lift r) Q E s"
  by (simp add: wp_def io_lift_def)

lemma wp_then [wp_rules]: "wp m (\<lambda>x. wp (f x) Q E) E s \<Longrightarrow> wp (io_then m f) Q E s"
proof -
  assume m: "wp m (\<lambda>x. wp (f x) Q E) E s"
  show ?thesis unfolding wp_def
  proof
    fix fs
    let ?d = "\<lparr>dk_store = s, dk_faults = fs\<rparr>"
    have "wp m (\<lambda>x. wp (f x) Q E) E (dk_store ?d)" using m by simp
    then show "case io_then m f ?d of (Inr x, d) \<Rightarrow> Q x (dk_store d) \<and> (nf fs \<longrightarrow> nf (dk_faults d))
      | (Inl e, d) \<Rightarrow> E (dk_store d) \<and> \<not> nf fs"
    proof (cases rule: wp_cases)
      case (ok x d)
      from ok(2) show ?thesis
        by (cases rule: wp_cases) (use ok in \<open>auto simp: io_then_def\<close>)
    qed (simp add: io_then_def)
  qed
qed

lemma wp_call: "m s = (Inr x, s') \<Longrightarrow> Q x s' \<Longrightarrow> E s \<Longrightarrow> wp (call e m) Q E s"
  by (auto simp: wp_def call_def next_fault_def nf_def split: list.splits fault.splits)

lemma wp_if [wp_rules]: "(b \<Longrightarrow> wp m Q E s) \<Longrightarrow> (\<not> b \<Longrightarrow> wp m' Q E s) \<Longrightarrow> wp (if b then m else m') Q E s"
  by simp

lemma wp_exists: "Q (lookup s p \<noteq> None) s \<Longrightarrow> wp (\<lambda>d. (Inr (fs_exists p d), d)) Q E s"
  by (simp add: wp_def fs_exists_def)

lemma wp_open [wp_rules]: "lookup s p = Some i \<Longrightarrow> Q \<lparr>h_inode = i, h_pos = 0\<rparr> s \<Longrightarrow> E s \<Longrightarrow> wp (fs_open e p) Q E s"
  unfolding fs_open_def by (rule wp_call) auto

lemma wp_create_new [wp_rules]:
  "lookup s p = None \<Longrightarrow> Q \<lparr>h_inode = dk_next s, h_pos = 0\<rparr> (fresh_entry p s) \<Longrightarrow> E s \<Longrightarrow> wp (fs_create_new e p) Q E s"
  unfolding fs_create_new_def by (rule wp_call) auto

lemma wp_create_truncate [wp_rules]:
  "(\<And>i. lookup s p = Some i \<Longrightarrow> Q \<lparr>h_inode = i, h_pos = 0\<rparr> (set_file i (resize_file 0 (dk_files s i)) s)) \<Longrightarrow>
   (lookup s p = None \<Longrightarrow> Q \<lparr>h_inode = dk_next s, h_pos = 0\<rparr> (fresh_entry p s)) \<Longrightarrow> E s \<Longrightarrow>
   wp (fs_create_truncate e p) Q E s"
  unfolding fs_create_truncate_def by (cases "lookup s p") (rule wp_call; simp)+

lemma wp_create_dir [wp_rules]:
  "(lookup s p \<noteq> None \<Longrightarrow> Q () s) \<Longrightarrow> (lookup s p = None \<Longrightarrow> Q () (fresh_entry p s)) \<Longrightarrow> E s \<Longrightarrow>
   wp (fs_create_dir e p) Q E s"
  unfolding fs_create_dir_def by (rule wp_call) auto

lemma wp_write_all [wp_rules]:
  "Q (h\<lparr>h_pos := h_pos h + length bs\<rparr>) (write_at (h_inode h) (h_pos h) bs s) \<Longrightarrow>
   (\<And>n. E (write_at (h_inode h) (h_pos h) (take n bs) s)) \<Longrightarrow> wp (fs_write_all e h bs) Q E s"
  by (auto simp: wp_def fs_write_all_def next_fault_def nf_def split: list.splits fault.splits)

lemma wp_seek [wp_rules]: "Q (h\<lparr>h_pos := pos\<rparr>) s \<Longrightarrow> E s \<Longrightarrow> wp (fs_seek e h pos) Q E s"
  unfolding fs_seek_def by (rule wp_call) auto

lemma wp_read_exact [wp_rules]:
  "h_pos h + n \<le> length (bytes_of s (h_inode h)) \<Longrightarrow>
   Q (take n (drop (h_pos h) (bytes_of s (h_inode h))), h\<lparr>h_pos := h_pos h + n\<rparr>) s \<Longrightarrow> E s \<Longrightarrow>
   wp (fs_read_exact e h n) Q E s"
  unfolding fs_read_exact_def by (rule wp_call) auto

lemma wp_read [wp_rules]: "lookup s p = Some i \<Longrightarrow> Q (bytes_of s i) s \<Longrightarrow> E s \<Longrightarrow> wp (fs_read e p) Q E s"
  unfolding fs_read_def by (rule wp_call) auto

lemma wp_len [wp_rules]: "Q (length (bytes_of s (h_inode h))) s \<Longrightarrow> E s \<Longrightarrow> wp (fs_len e h) Q E s"
  unfolding fs_len_def by (rule wp_call) auto

lemma wp_path_len [wp_rules]:
  "lookup s p = Some i \<Longrightarrow> Q (length (bytes_of s i)) s \<Longrightarrow> E s \<Longrightarrow> wp (fs_path_len e p) Q E s"
  unfolding fs_path_len_def by (rule wp_call) auto

lemma wp_set_len [wp_rules]:
  "Q () (set_file (h_inode h) (resize_file n (dk_files s (h_inode h))) s) \<Longrightarrow> E s \<Longrightarrow> wp (fs_set_len e h n) Q E s"
  unfolding fs_set_len_def by (rule wp_call) auto

lemma wp_sync [wp_rules]:
  "Q () (set_file (h_inode h) (sync_file (dk_files s (h_inode h))) s) \<Longrightarrow> E s \<Longrightarrow> wp (fs_sync e h) Q E s"
  unfolding fs_sync_def by (rule wp_call) auto

lemma wp_rename [wp_rules]:
  "lookup s a = Some i \<Longrightarrow> Q () (change_dir [(a, None), (b, Some i)] s) \<Longrightarrow> E s \<Longrightarrow> wp (fs_rename e a b) Q E s"
  unfolding fs_rename_def by (rule wp_call) auto

lemma wp_remove [wp_rules]:
  "(lookup s p \<noteq> None \<Longrightarrow> Q True (change_dir [(p, None)] s)) \<Longrightarrow> (lookup s p = None \<Longrightarrow> Q False s) \<Longrightarrow> E s \<Longrightarrow>
   wp (fs_remove e p) Q E s"
  unfolding fs_remove_def by (cases "lookup s p") (rule wp_call; simp)+

lemma wp_sync_dir [wp_rules]: "Q () (flush_dir dn s) \<Longrightarrow> E s \<Longrightarrow> wp (fs_sync_dir e dn) Q E s"
  unfolding fs_sync_dir_def by (rule wp_call) auto

lemma wp_list [wp_rules]:
  "Q (map snd (filter (\<lambda>p. fst p = dn) (hm_keys (entries s)))) s \<Longrightarrow> E s \<Longrightarrow> wp (fs_list e dn) Q E s"
  unfolding fs_list_def by (rule wp_call) auto

section \<open>Names\<close>

named_theorems store_simps

text \<open>The value of a name after a list of directory changes.\<close>

definition val_after :: "path \<Rightarrow> dir_change list \<Rightarrow> inode option \<Rightarrow> inode option" where
  "val_after p log v = fold (fold (\<lambda>a v. if fst a = p then snd a else v)) log v"

lemma map_of_assign: "map_of (assign a m) p = (if fst a = p then snd a else map_of m p)"
  by (auto simp: assign_def update_conv' delete_conv' split: option.splits)

lemma map_of_fold_assign: "map_of (fold assign c m) p = fold (\<lambda>a v. if fst a = p then snd a else v) c (map_of m p)"
  by (induction c arbitrary: m) (simp_all add: map_of_assign)

lemma map_of_apply: "map_of (apply_changes log m) p = val_after p log (map_of m p)"
  unfolding apply_changes_def val_after_def
  by (induction log arbitrary: m) (simp_all add: map_of_fold_assign)

lemma lookup_val: "lookup s p = val_after p (dk_log s) (map_of (dk_base s) p)"
  by (simp add: entries_def map_of_apply)

lemma val_after_append [simp]: "val_after p (l @ l') v = val_after p l' (val_after p l v)"
  by (simp add: val_after_def)

lemma val_after_Nil [simp]: "val_after p [] v = v"
  by (simp add: val_after_def)

lemma val_after_Cons [simp]: "val_after p (c # l) v = val_after p l (fold (\<lambda>a v. if fst a = p then snd a else v) c v)"
  by (simp add: val_after_def)

lemma fold_untouched: "p \<notin> fst ` set c \<Longrightarrow> fold (\<lambda>a v. if fst a = p then snd a else v) c v = v"
  by (induction c arbitrary: v) auto

lemma val_after_filter:
  "(\<And>c. c \<in> set l \<Longrightarrow> \<not> P c \<Longrightarrow> p \<notin> fst ` set c) \<Longrightarrow> val_after p (filter P l) v = val_after p l v"
  by (induction l arbitrary: v) (auto simp: fold_untouched)

lemma val_after_untouched: "(\<And>c. c \<in> set l \<Longrightarrow> p \<notin> fst ` set c) \<Longrightarrow> val_after p l v = v"
  by (induction l arbitrary: v) (auto simp: fold_untouched)

lemma fold_value: "fold (\<lambda>a v. if fst a = p then snd a else v) c v = Some i \<Longrightarrow> v = Some i \<or> (p, Some i) \<in> set c"
proof (induction c arbitrary: v)
  case (Cons a c)
  from Cons.IH [of "if fst a = p then snd a else v"] Cons.prems show ?case
    by (cases a) (auto split: if_splits)
qed simp

lemma val_after_value: "val_after p l v = Some i \<Longrightarrow> v = Some i \<or> (\<exists>c \<in> set l. (p, Some i) \<in> set c)"
proof (induction l arbitrary: v)
  case (Cons c l)
  from Cons.IH [OF Cons.prems [unfolded val_after_Cons]] show ?case
    using fold_value [of p c v i] by auto
qed simp

definition settled :: "store \<Rightarrow> path \<Rightarrow> bool" where
  "settled s p = (\<forall>c \<in> set (dk_log s). p \<notin> fst ` set c)"

definition links :: "store \<Rightarrow> (path \<times> inode) set" where
  "links s = {(p, i). map_of (dk_base s) p = Some i \<or> (\<exists>c \<in> set (dk_log s). (p, Some i) \<in> set c)}"

definition store_ok :: "store \<Rightarrow> bool" where
  "store_ok s = ((\<forall>c \<in> set (dk_log s). \<exists>dn. in_dir dn c) \<and> (\<forall>(p, i) \<in> links s. i < dk_next s)
     \<and> (\<forall>i. fd_stable (dk_files s i) \<le> length (bytes_of s i) \<and> length (bytes_of s i) \<le> fd_peak (dk_files s i)))"

text \<open>\<open>p\<close> is the only name the inodes it has or may get back by a crash are known under.\<close>

definition sole :: "store \<Rightarrow> path \<Rightarrow> bool" where
  "sole s p = (\<forall>i q. (p, i) \<in> links s \<longrightarrow> (q, i) \<in> links s \<longrightarrow> q = p)"

lemma settled_lookup: "settled s p \<Longrightarrow> lookup s p = map_of (dk_base s) p"
  by (simp add: lookup_val settled_def val_after_untouched)

lemma lookup_links: "lookup s p = Some i \<Longrightarrow> (p, i) \<in> links s"
  by (auto simp: lookup_val links_def dest: val_after_value)

lemma lookup_less: "store_ok s \<Longrightarrow> lookup s p = Some i \<Longrightarrow> i < dk_next s"
  by (auto simp: store_ok_def dest: lookup_links)

subsection \<open>Effect of the changes\<close>

lemma change_dir_simps [store_simps]:
  "dk_files (change_dir c s) = dk_files s" "dk_next (change_dir c s) = dk_next s"
  "dk_base (change_dir c s) = dk_base s" "dk_log (change_dir c s) = dk_log s @ [c]"
  "settled (change_dir c s) p \<longleftrightarrow> settled s p \<and> p \<notin> fst ` set c"
  "links (change_dir c s) = links s \<union> {(p, i). (p, Some i) \<in> set c}"
  "lookup (change_dir c s) p = fold (\<lambda>a v. if fst a = p then snd a else v) c (lookup s p)"
  by (auto simp: change_dir_def settled_def links_def lookup_val)

lemma set_file_simps [store_simps]:
  "dk_files (set_file i f s) = (dk_files s)(i := f)" "dk_next (set_file i f s) = dk_next s"
  "dk_base (set_file i f s) = dk_base s" "dk_log (set_file i f s) = dk_log s"
  "settled (set_file i f s) p = settled s p" "links (set_file i f s) = links s" "lookup (set_file i f s) p = lookup s p"
  by (simp_all add: set_file_def settled_def links_def lookup_val)

lemma write_at_simps [store_simps]:
  "dk_files (write_at i pos bs s) = (dk_files s)(i := write_file pos bs (dk_files s i))"
  "dk_next (write_at i pos bs s) = dk_next s"
  "dk_base (write_at i pos bs s) = dk_base s" "dk_log (write_at i pos bs s) = dk_log s"
  "settled (write_at i pos bs s) p = settled s p" "links (write_at i pos bs s) = links s"
  "lookup (write_at i pos bs s) p = lookup s p"
  by (simp_all add: write_at_def store_simps)

lemma fresh_entry_simps [store_simps]:
  "dk_files (fresh_entry p s) = (dk_files s)(dk_next s := empty_file)" "dk_next (fresh_entry p s) = Suc (dk_next s)"
  "dk_base (fresh_entry p s) = dk_base s" "dk_log (fresh_entry p s) = dk_log s @ [[(p, Some (dk_next s))]]"
  "settled (fresh_entry p s) q \<longleftrightarrow> settled s q \<and> q \<noteq> p" "links (fresh_entry p s) = insert (p, dk_next s) (links s)"
  "lookup (fresh_entry p s) q = (if q = p then Some (dk_next s) else lookup s q)"
  by (auto simp: fresh_entry_def change_dir_def set_file_def settled_def links_def lookup_val)

lemma in_dir_name: "in_dir dn c \<Longrightarrow> p \<in> fst ` set c \<Longrightarrow> fst p = dn"
  by (auto simp: in_dir_def list_all_iff)

lemma store_ok_in_dir: "store_ok s \<Longrightarrow> c \<in> set (dk_log s) \<Longrightarrow> \<not> in_dir dn c \<Longrightarrow> fst p = dn \<Longrightarrow> p \<notin> fst ` set c"
  unfolding store_ok_def using in_dir_name by blast

lemma store_ok_not_in_dir: "store_ok s \<Longrightarrow> c \<in> set (dk_log s) \<Longrightarrow> in_dir dn c \<Longrightarrow> fst p \<noteq> dn \<Longrightarrow> p \<notin> fst ` set c"
  using in_dir_name by blast

lemma flush_dir_simps [store_simps]:
  "dk_files (flush_dir dn s) = dk_files s" "dk_next (flush_dir dn s) = dk_next s"
  "dk_log (flush_dir dn s) = filter (Not \<circ> in_dir dn) (dk_log s)"
  by (simp_all add: flush_dir_def)

lemma flush_dir_base:
  assumes "store_ok s"
  shows "map_of (dk_base (flush_dir dn s)) p = (if fst p = dn then lookup s p else map_of (dk_base s) p)"
proof (cases "fst p = dn")
  case True
  then have "val_after p (filter (in_dir dn) (dk_log s)) v = val_after p (dk_log s) v" for v
    by (intro val_after_filter) (rule store_ok_in_dir [OF assms])
  then show ?thesis using True by (simp add: flush_dir_def map_of_apply lookup_val)
next
  case False
  have "p \<notin> fst ` set c" if "c \<in> set (filter (in_dir dn) (dk_log s))" for c
    using that False by (intro store_ok_not_in_dir [OF assms]) auto
  then have "val_after p (filter (in_dir dn) (dk_log s)) v = v" for v
    by (rule val_after_untouched)
  then show ?thesis using False by (simp add: flush_dir_def map_of_apply)
qed

lemma flush_dir_settled [store_simps]:
  assumes "store_ok s"
  shows "settled (flush_dir dn s) p \<longleftrightarrow> fst p = dn \<or> settled s p"
proof (cases "fst p = dn")
  case True
  then show ?thesis using store_ok_in_dir [OF assms _ _ True] by (auto simp: settled_def flush_dir_simps)
next
  case False
  have "p \<notin> fst ` set c" if "c \<in> set (dk_log s)" "in_dir dn c" for c
    using that False by (rule store_ok_not_in_dir [OF assms])
  then show ?thesis using False by (simp add: settled_def flush_dir_simps) blast
qed

lemma flush_dir_lookup [store_simps]:
  assumes "store_ok s"
  shows "lookup (flush_dir dn s) p = lookup s p"
proof (cases "fst p = dn")
  case True
  then show ?thesis using assms by (simp add: settled_lookup flush_dir_settled flush_dir_base)
next
  case False
  then have "val_after p (filter (Not \<circ> in_dir dn) (dk_log s)) v = val_after p (dk_log s) v" for v
    by (intro val_after_filter) (simp add: store_ok_not_in_dir [OF assms])
  then show ?thesis using assms False by (simp add: lookup_val flush_dir_base flush_dir_simps)
qed

lemma flush_dir_links:
  assumes "store_ok s"
  shows "links (flush_dir dn s) \<subseteq> links s"
proof
  fix a assume a: "a \<in> links (flush_dir dn s)"
  obtain p i where pi: "a = (p, i)" by (cases a)
  show "a \<in> links s"
  proof (cases "map_of (dk_base (flush_dir dn s)) p = Some i")
    case True
    then show ?thesis
      using lookup_links [of s p i] by (auto simp: pi flush_dir_base [OF assms] links_def split: if_splits)
  next
    case False
    with a show ?thesis by (auto simp: pi links_def flush_dir_simps)
  qed
qed

subsection \<open>Well-formed stores\<close>

definition file_ok :: "file_data \<Rightarrow> bool" where
  "file_ok f = (fd_stable f \<le> length (fd_bytes f) \<and> length (fd_bytes f) \<le> fd_peak f)"

lemma file_ok_ops [simp]:
  "file_ok empty_file" "file_ok f \<Longrightarrow> file_ok (resize_file n f)" "file_ok (sync_file f)"
  "file_ok f \<Longrightarrow> file_ok (write_file pos bs f)"
  by (auto simp: file_ok_def empty_file_def resize_file_def sync_file_def write_file_def Let_def)

lemma store_ok_file: "store_ok s \<Longrightarrow> file_ok (dk_files s i)"
  by (simp add: store_ok_def file_ok_def)

lemma store_ok_set_file: "store_ok s \<Longrightarrow> file_ok f \<Longrightarrow> store_ok (set_file i f s)"
  by (auto simp: store_ok_def file_ok_def store_simps)

lemma store_ok_write_at: "store_ok s \<Longrightarrow> store_ok (write_at i pos bs s)"
  by (simp add: write_at_def store_ok_set_file store_ok_file)

lemma store_ok_fresh: "store_ok s \<Longrightarrow> store_ok (fresh_entry p s)"
  by (auto simp: store_ok_def store_simps in_dir_def empty_file_def less_Suc_eq)

lemma store_ok_change:
  "store_ok s \<Longrightarrow> in_dir dn c \<Longrightarrow> (\<And>p i. (p, Some i) \<in> set c \<Longrightarrow> i < dk_next s) \<Longrightarrow> store_ok (change_dir c s)"
  by (auto simp: store_ok_def store_simps)

lemma store_ok_flush_dir: "store_ok s \<Longrightarrow> store_ok (flush_dir dn s)"
  using flush_dir_links [of s dn] by (auto simp: store_ok_def flush_dir_simps)

lemmas store_ok_intros = store_ok_set_file store_ok_write_at store_ok_fresh store_ok_flush_dir store_ok_file file_ok_ops

subsection \<open>Crashes\<close>

lemma subseq_set: "subseq xs ys \<Longrightarrow> set xs \<subseteq> set ys"
  by (auto dest: list_emb_set)

lemma subseq_val_after:
  assumes "subseq kept l" "val_after p kept v = Some i"
  shows "v = Some i \<or> (\<exists>c \<in> set l. (p, Some i) \<in> set c)"
  using val_after_value [OF assms(2)] subseq_set [OF assms(1)] by auto

lemma crash_lookup:
  assumes "crash s s'" "settled s p" "settled s (DataDir, ''wal'')" "lookup s (DataDir, ''wal'') \<noteq> None"
  shows "lookup s' p = lookup s p"
proof -
  obtain kept where kept: "subseq kept (dk_log s)" "dk_log s' = []"
    "dk_base s' = hm_retain (\<lambda>p i. fst p = DataDir \<or> map_of (apply_changes kept (dk_base s)) (DataDir, ''wal'') \<noteq> None)
                    (apply_changes kept (dk_base s))"
    using assms(1) by (auto simp: crash_def)
  have same: "map_of (apply_changes kept (dk_base s)) q = lookup s q" if "settled s q" for q
    using that subseq_set [OF kept(1)]
    by (auto simp: map_of_apply settled_lookup settled_def intro!: val_after_untouched)
  have "lookup s' p = map_of (dk_base s') p" using kept(2) by (simp add: entries_def apply_changes_def)
  also have "\<dots> = lookup s p"
    using assms same [OF assms(2)] same [OF assms(3)] by (simp add: kept(3) get_retain_key)
  finally show ?thesis .
qed

lemma crash_links: "crash s s' \<Longrightarrow> links s' \<subseteq> links s"
proof
  fix a assume cr: "crash s s'" and "a \<in> links s'"
  then obtain p i where a: "a = (p, i)" "map_of (dk_base s') p = Some i"
    by (cases a) (auto simp: links_def crash_def)
  obtain kept Q where kept: "subseq kept (dk_log s)" "dk_base s' = hm_retain (\<lambda>p i. Q p) (apply_changes kept (dk_base s))"
    using cr by (auto simp: crash_def)
  then have "val_after p kept (map_of (dk_base s) p) = Some i"
    using a(2) by (auto simp: get_retain_key map_of_apply split: if_splits)
  from subseq_val_after [OF kept(1) this] show "a \<in> links s" by (simp add: a links_def)
qed

lemma crash_store_ok: "store_ok s \<Longrightarrow> crash s s' \<Longrightarrow> store_ok s'"
  using crash_links [of s s'] by (auto simp: store_ok_def crash_def file_after_crash_def Let_def)

lemma crash_settled: "crash s s' \<Longrightarrow> settled s' p"
  by (auto simp: crash_def settled_def)

end
