(* ===== verification/Wal_Names.thy ===== *)
theory Wal_Names
  imports Wal_Segment Disk_Logic
begin

text \<open>
  Segment names, segment headers and the metadata record: the name of a segment determines its
  number and parses back to it, a header is accepted exactly when it is the header of that
  segment, and the metadata record reads back.
\<close>

section \<open>Names\<close>

lemma hex_value_digit: "n < 16 \<Longrightarrow> hex_value (hex_digit n) = Some n"
proof -
  have "\<forall>n \<in> set [0..<16]. hex_value (hex_digit n) = Some n"
    unfolding hex_value_def hex_digit_def by code_simp
  then show "n < 16 \<Longrightarrow> ?thesis" by simp
qed

lemma hex_number_append: "hex_number acc (xs @ ys) = Option.bind (hex_number acc xs) (\<lambda>a. hex_number a ys)"
  by (induction acc xs rule: hex_number.induct) (auto split: option.splits)

lemma hex_number_digits: "n < 16 ^ k \<Longrightarrow> hex_number acc (hex_digits k n) = Some (16 ^ k * acc + n)"
proof (induction k arbitrary: n)
  case (Suc k)
  then have "n div 16 < 16 ^ k" by (simp add: less_mult_imp_div_less)
  then have "hex_number acc (hex_digits (Suc k) n) = Some (16 * (16 ^ k * acc + n div 16) + n mod 16)"
    by (simp add: hex_number_append Suc.IH hex_value_digit)
  then show ?case by (simp add: algebra_simps)
qed simp

lemma length_hex_digits [simp]: "length (hex_digits k n) = k"
  by (induction k n rule: hex_digits.induct) auto

lemma hex_digit_not_plus: "n < 16 \<Longrightarrow> hex_digit n \<noteq> CHR ''+''"
proof -
  have "\<forall>n \<in> set [0..<16]. hex_digit n \<noteq> CHR ''+''" unfolding hex_digit_def by code_simp
  then show "n < 16 \<Longrightarrow> ?thesis" by simp
qed

lemma hex_digits_not_plus: "c \<in> set (hex_digits k n) \<Longrightarrow> c \<noteq> CHR ''+''"
  by (induction k n rule: hex_digits.induct) (auto simp: hex_digit_not_plus hex_digit_not_plus [THEN not_sym])

lemma from_str_radix_hex:
  assumes "n < u64_limit"
  shows "from_str_radix_16 (hex_digits 16 n) = Some n"
proof -
  obtain c cs where c: "hex_digits 16 n = c # cs" by (metis length_hex_digits list.size(3) neq_Nil_conv zero_neq_numeral)
  then have "c \<noteq> CHR ''+''" using hex_digits_not_plus [of c 16 n] by simp
  then show ?thesis
    using hex_number_digits [of n 16 0] assms c by (simp add: from_str_radix_16_def u64_limit_def)
qed

definition is_seg :: "path \<Rightarrow> bool" where
  "is_seg p = (\<exists>n < u64_limit. p = segment_path n)"

lemma segment_path_inj: "m < u64_limit \<Longrightarrow> n < u64_limit \<Longrightarrow> segment_path m = segment_path n \<longleftrightarrow> m = n"
  by (metis append_same_eq from_str_radix_hex option.inject segment_path_def snd_conv)

lemma is_seg_path [simp]: "n < u64_limit \<Longrightarrow> is_seg (segment_path n)"
  by (auto simp: is_seg_def)

lemma fst_segment_path [simp]: "fst (segment_path n) = WalDir"
  by (simp add: segment_path_def)

lemma not_seg [simp]: "\<not> is_seg meta_path" "\<not> is_seg meta_tmp_path" "\<not> is_seg (DataDir, x)"
proof -
  have len: "length (snd (segment_path n)) = 20" for n by (simp add: segment_path_def)
  show "\<not> is_seg meta_path" "\<not> is_seg meta_tmp_path" "\<not> is_seg (DataDir, x)"
    using len by (auto simp: is_seg_def meta_path_def meta_tmp_path_def segment_path_def)
qed

lemma other_paths [simp]:
  "segment_path n \<noteq> meta_path" "segment_path n \<noteq> meta_tmp_path" "segment_path n \<noteq> (DataDir, x)"
  "meta_path \<noteq> segment_path n" "meta_tmp_path \<noteq> segment_path n" "(DataDir, x) \<noteq> segment_path n"
  "meta_path \<noteq> meta_tmp_path" "meta_tmp_path \<noteq> meta_path"
  by (auto simp: segment_path_def meta_path_def meta_tmp_path_def dest: arg_cong [of _ _ length])

text \<open>A listing of segment names and other names that do not end in \<open>.wal\<close> is the list of numbers.\<close>

definition plain_name :: "string \<Rightarrow> bool" where
  "plain_name name = (\<not> (length name \<ge> 4 \<and> drop (length name - 4) name = ''.wal''))"

lemma segment_number_list_ok:
  assumes "\<And>x. x \<in> set names \<Longrightarrow> plain_name x \<or> is_seg (WalDir, x)"
  shows "\<exists>ns. segment_number_list names = Inr ns \<and> set ns = {n. n < u64_limit \<and> snd (segment_path n) \<in> set names}"
  using assms
proof (induction names)
  case (Cons x names)
  then obtain ns where ns: "segment_number_list names = Inr ns"
    "set ns = {n. n < u64_limit \<and> snd (segment_path n) \<in> set names}" by auto
  have tail: "drop (length (snd (segment_path n)) - 4) (snd (segment_path n)) = ''.wal''" for n
    by (simp add: segment_path_def)
  show ?case
  proof (cases "is_seg (WalDir, x)")
    case True
    then obtain n where n: "n < u64_limit" "x = hex_digits 16 n @ ''.wal''" by (auto simp: is_seg_def segment_path_def)
    moreover have "snd (segment_path m) = x \<longleftrightarrow> m = n" if "m < u64_limit" for m
      using segment_path_inj [OF that n(1)] n(2) by (simp add: segment_path_def)
    ultimately show ?thesis using ns by (auto simp: from_str_radix_hex)
  next
    case False
    with Cons.prems have "plain_name x" by auto
    then have "segment_number_list (x # names) = segment_number_list names" by (simp add: plain_name_def)
    moreover have "snd (segment_path n) \<noteq> x" for n using \<open>plain_name x\<close> tail [of n] by (auto simp: plain_name_def segment_path_def)
    ultimately show ?thesis using ns by auto
  qed
qed simp

section \<open>Headers\<close>

lemmas segment_consts = SEGMENT_HEADER_LEN_def SEGMENT_PAYLOAD_BYTES_def META_LEN_def SEGMENT_MAGIC_def META_MAGIC_def
  WAL_FORMAT_VERSION_def META_VERSION_def u64_limit_def USIZE_MAX_def

lemma payload_pos [simp]: "SEGMENT_PAYLOAD_BYTES > 0"
  by (simp add: SEGMENT_PAYLOAD_BYTES_def)

definition seg_header :: "(u8 list \<Rightarrow> u32) \<Rightarrow> nat \<Rightarrow> u8 list" where
  "seg_header crc n = (case encode_segment_header crc n of Inr b \<Rightarrow> b | Inl e \<Rightarrow> [])"

lemma encode_header_ok: "n * SEGMENT_PAYLOAD_BYTES < u64_limit \<Longrightarrow> encode_segment_header crc n = Inr (seg_header crc n)"
  by (simp add: seg_header_def encode_segment_header_def Let_def)

lemma length_seg_header: "n * SEGMENT_PAYLOAD_BYTES < u64_limit \<Longrightarrow> length (seg_header crc n) = SEGMENT_HEADER_LEN"
  by (simp add: seg_header_def encode_segment_header_def Let_def segment_consts)

lemma unat_of_nat_u64: "n < u64_limit \<Longrightarrow> unat (of_nat n :: u64) = n"
  by (simp add: u64_limit_def unat_of_nat take_bit_nat_eq_self)

lemma seg_number_less: "n * SEGMENT_PAYLOAD_BYTES < u64_limit \<Longrightarrow> n < u64_limit"
  by (simp add: SEGMENT_PAYLOAD_BYTES_def)

lemma check_header_ok:
  assumes "n * SEGMENT_PAYLOAD_BYTES < u64_limit"
  shows "check_segment_header crc n (seg_header crc n) = Inr ()"
proof -
  define b where "b = SEGMENT_MAGIC @ u32_le WAL_FORMAT_VERSION @ u64_le (of_nat n)
    @ u64_le (of_nat (n * SEGMENT_PAYLOAD_BYTES)) @ u32_le (of_nat SEGMENT_PAYLOAD_BYTES)"
  have b: "length b = 28" and h: "seg_header crc n = b @ u32_le (crc b)"
    using assms by (simp_all add: b_def SEGMENT_MAGIC_def seg_header_def encode_segment_header_def Let_def)
  have "take 4 b = SEGMENT_MAGIC" "drop 4 b = u32_le WAL_FORMAT_VERSION @ u64_le (of_nat n)
    @ u64_le (of_nat (n * SEGMENT_PAYLOAD_BYTES)) @ u32_le (of_nat SEGMENT_PAYLOAD_BYTES)"
    by (simp_all add: b_def SEGMENT_MAGIC_def)
  moreover have "rd_at (seg_header crc n) 4 = Inr (rd_adv 4 (rd_new (seg_header crc n)))"
    using b by (simp add: h rd_at_def rd_adv_def rd_new_def)
  moreover have "rd_ok (rd_adv 4 (rd_new (seg_header crc n)))"
    using b by (simp add: h rd_ok_def rd_adv_def rd_new_def USIZE_MAX_def)
  moreover have "unat (of_nat n :: u64) = n" "unat (of_nat (n * SEGMENT_PAYLOAD_BYTES) :: u64) = n * SEGMENT_PAYLOAD_BYTES"
    using assms seg_number_less [OF assms] by (simp_all only: unat_of_nat_u64)
  moreover have "unat (of_nat SEGMENT_PAYLOAD_BYTES :: u32) = SEGMENT_PAYLOAD_BYTES"
    by (simp add: SEGMENT_PAYLOAD_BYTES_def)
  ultimately show ?thesis
    using assms b by (simp add: check_segment_header_def h SEGMENT_HEADER_LEN_def rd_simps rd_rest_new rd_rest_adv)
qed

section \<open>Metadata\<close>

lemma length_encode_meta: "length (encode_meta crc m) = META_LEN"
  by (simp add: encode_meta_def Let_def META_LEN_def META_MAGIC_def)

lemma decode_encode_meta:
  assumes "wm_replay_floor m < u64_limit" "wm_durable_end m < u64_limit"
  shows "decode_meta crc (encode_meta crc m) = Inr m"
proof -
  define b where "b = META_MAGIC @ u32_le META_VERSION @ u32_le WAL_FORMAT_VERSION @ u32_le (of_nat SEGMENT_PAYLOAD_BYTES)
    @ u64_le (of_nat (wm_replay_floor m)) @ u64_le (of_nat (wm_durable_end m))"
  have h: "encode_meta crc m = b @ u32_le (crc b)" and len: "length b = 32"
    by (simp_all add: b_def encode_meta_def Let_def META_MAGIC_def)
  have ok: "rd_ok (rd_new (encode_meta crc m))" by (simp add: h len USIZE_MAX_def)
  have parts: "take 4 b = META_MAGIC" "take 4 (drop 4 b) = u32_le META_VERSION" "take 4 (drop 8 b) = u32_le WAL_FORMAT_VERSION"
    "take 4 (drop 12 b) = u32_le (of_nat SEGMENT_PAYLOAD_BYTES)" "take 8 (drop 16 b) = u64_le (of_nat (wm_replay_floor m))"
    "take 8 (drop 24 b) = u64_le (of_nat (wm_durable_end m))"
    by (simp_all add: b_def META_MAGIC_def)
  show ?thesis
    using ok assms unfolding decode_meta_def
    by (simp add: length_encode_meta META_LEN_def h len rd_simps parts unat_of_nat_u64)
qed

end
