(* ===== verification/Disk_Replace.thy ===== *)
theory Disk_Replace
  imports Disk_Logic
begin

text \<open>
  Replacing a small file atomically: write a temporary file, fsync it, rename it over the old one,
  fsync the directory. \<open>replaceable p t G s\<close> says that whatever a crash keeps, the file \<open>p\<close> is whole
  and its content (or its absence) satisfies \<open>G\<close>, and that the temporary name \<open>t\<close> is free to be
  written.
\<close>

section \<open>What a crash may make of a name\<close>

definition fate :: "store \<Rightarrow> dir_change list \<Rightarrow> path \<Rightarrow> inode option" where
  "fate s kept p = val_after p kept (map_of (dk_base s) p)"

definition whole :: "file_data \<Rightarrow> bool" where
  "whole f = (fd_stable f = length (fd_bytes f) \<and> fd_peak f = length (fd_bytes f))"

definition replaceable :: "path \<Rightarrow> path \<Rightarrow> (u8 list option \<Rightarrow> bool) \<Rightarrow> store \<Rightarrow> bool" where
  "replaceable p t G s =
     ((\<forall>i. (p, i) \<in> links s \<longrightarrow> whole (dk_files s i) \<and> G (Some (bytes_of s i)) \<and> lookup s t \<noteq> Some i)
      \<and> (\<forall>kept. subseq kept (dk_log s) \<longrightarrow>
           (fate s kept p = None \<longrightarrow> G None) \<and> (\<forall>i. fate s kept p = Some i \<longrightarrow> fate s kept t \<noteq> Some i)))"

lemma fate_log: "fate s (dk_log s) p = lookup s p"
  by (simp add: fate_def lookup_val)

lemma fate_link: "subseq kept (dk_log s) \<Longrightarrow> fate s kept p = Some i \<Longrightarrow> (p, i) \<in> links s"
  using subseq_val_after [of kept "dk_log s" p "map_of (dk_base s) p" i] by (simp add: fate_def links_def)

lemma fate_settled:
  assumes "settled s p" "subseq kept (dk_log s)"
  shows "fate s kept p = lookup s p"
  using assms subseq_set [OF assms(2)]
  by (auto simp: fate_def settled_lookup settled_def intro!: val_after_untouched)

lemma replaceable_file:
  "replaceable p t G s \<Longrightarrow> (p, i) \<in> links s \<Longrightarrow> whole (dk_files s i) \<and> G (Some (bytes_of s i)) \<and> lookup s t \<noteq> Some i"
  unfolding replaceable_def by blast

lemma replaceable_fate:
  "replaceable p t G s \<Longrightarrow> subseq kept (dk_log s) \<Longrightarrow>
   (fate s kept p = None \<longrightarrow> G None) \<and> (\<forall>i. fate s kept p = Some i \<longrightarrow> fate s kept t \<noteq> Some i)"
  unfolding replaceable_def by blast

lemma replaceableI:
  assumes "\<And>i. (p, i) \<in> links s \<Longrightarrow> whole (dk_files s i) \<and> G (Some (bytes_of s i)) \<and> lookup s t \<noteq> Some i"
    "\<And>kept. subseq kept (dk_log s) \<Longrightarrow> fate s kept p = None \<Longrightarrow> G None"
    "\<And>kept i. subseq kept (dk_log s) \<Longrightarrow> fate s kept p = Some i \<Longrightarrow> fate s kept t \<noteq> Some i"
  shows "replaceable p t G s"
  unfolding replaceable_def using assms by blast

lemma replaceable_mono: "replaceable p t G s \<Longrightarrow> (\<And>b. G b \<Longrightarrow> G' b) \<Longrightarrow> replaceable p t G' s"
  unfolding replaceable_def by blast

lemma replaceable_now:
  assumes "replaceable p t G s"
  shows "G (map_option (bytes_of s) (lookup s p))"
proof (cases "lookup s p")
  case None
  then show ?thesis using replaceable_fate [OF assms, of "dk_log s"] by (simp add: fate_log)
next
  case (Some i)
  then show ?thesis using replaceable_file [OF assms lookup_links [OF Some]] by simp
qed

text \<open>Only the names, and the files under the name \<open>p\<close>, matter.\<close>

lemma replaceable_frame:
  assumes r: "replaceable p t G s"
    and links: "\<And>i. (p, i) \<in> links s' \<Longrightarrow> (p, i) \<in> links s \<and> dk_files s' i = dk_files s i"
    and now: "lookup s' t = lookup s t \<or> (\<exists>j. lookup s' t = Some j \<and> (p, j) \<notin> links s')"
    and fates: "\<And>kept'. subseq kept' (dk_log s') \<Longrightarrow> \<exists>kept. subseq kept (dk_log s) \<and> fate s' kept' p = fate s kept p
      \<and> (fate s' kept' t = fate s kept t \<or> (\<exists>j. fate s' kept' t = Some j \<and> (p, j) \<notin> links s'))"
  shows "replaceable p t G s'"
proof (rule replaceableI)
  fix i assume "(p, i) \<in> links s'"
  with links [of i] now replaceable_file [OF r, of i]
  show "whole (dk_files s' i) \<and> G (Some (bytes_of s' i)) \<and> lookup s' t \<noteq> Some i" by auto
next
  fix kept' assume k: "subseq kept' (dk_log s')"
  from fates [OF this] obtain kept where kept: "subseq kept (dk_log s)" "fate s' kept' p = fate s kept p"
    "fate s' kept' t = fate s kept t \<or> (\<exists>j. fate s' kept' t = Some j \<and> (p, j) \<notin> links s')" by blast
  note f = replaceable_fate [OF r kept(1)]
  show "fate s' kept' p = None \<Longrightarrow> G None" using f kept(2) by simp
  show "fate s' kept' t \<noteq> Some i" if "fate s' kept' p = Some i" for i
    using f kept(2,3) that fate_link [OF k that] by (metis option.inject)
qed

lemma subseq_snocE:
  assumes "subseq xs (ys @ [y])"
  obtains "subseq xs ys" | zs where "xs = zs @ [y]" "subseq zs ys"
proof -
  obtain us vs where "xs = us @ vs" "subseq us ys" "subseq vs [y]"
    using assms by (auto simp: subseq_append_iff)
  moreover from this(3) have "vs = [] \<or> vs = [y]" by (cases vs) (auto split: if_splits)
  ultimately show ?thesis using that by auto
qed

lemma replaceable_set_file:
  assumes "replaceable p t G s" "(p, i) \<notin> links s"
  shows "replaceable p t G (set_file i f s)"
proof (rule replaceable_frame [OF assms(1)])
  show "\<exists>kept. subseq kept (dk_log s) \<and> fate (set_file i f s) kept' p = fate s kept p
      \<and> (fate (set_file i f s) kept' t = fate s kept t \<or> (\<exists>j. fate (set_file i f s) kept' t = Some j \<and> (p, j) \<notin> links (set_file i f s)))"
    if "subseq kept' (dk_log (set_file i f s))" for kept'
    using that by (intro exI [of _ kept']) (simp add: fate_def store_simps)
qed (use assms(2) in \<open>auto simp: store_simps\<close>)

text \<open>A change that does not name \<open>p\<close>, and gives \<open>t\<close> at most an inode \<open>p\<close> never had.\<close>

lemma replaceable_change:
  assumes r: "replaceable p t G s" and p: "p \<notin> fst ` set c"
    and t: "t \<notin> fst ` set c \<or> (\<exists>j. c = [(t, Some j)] \<and> (p, j) \<notin> links s)"
  shows "replaceable p t G (change_dir c s)"
proof (rule replaceable_frame [OF r])
  have same: "links (change_dir c s) \<inter> {p} \<times> UNIV = links s \<inter> {p} \<times> UNIV"
    using p by (force simp: store_simps)
  show "(p, i) \<in> links s \<and> dk_files (change_dir c s) i = dk_files s i" if "(p, i) \<in> links (change_dir c s)" for i
    using that same by (auto simp: store_simps)
  show "lookup (change_dir c s) t = lookup s t \<or> (\<exists>j. lookup (change_dir c s) t = Some j \<and> (p, j) \<notin> links (change_dir c s))"
    using t p by (auto simp: store_simps fold_untouched)
  fix kept' assume k: "subseq kept' (dk_log (change_dir c s))"
  from k have k': "subseq kept' (dk_log s @ [c])" by (simp add: store_simps)
  show "\<exists>kept. subseq kept (dk_log s) \<and> fate (change_dir c s) kept' p = fate s kept p
      \<and> (fate (change_dir c s) kept' t = fate s kept t \<or> (\<exists>j. fate (change_dir c s) kept' t = Some j \<and> (p, j) \<notin> links (change_dir c s)))"
  proof (rule subseq_snocE [OF k'])
    fix zs assume z: "kept' = zs @ [c]" "subseq zs (dk_log s)"
    then show ?thesis
      using p t same by (intro exI [of _ zs]) (auto simp: fate_def store_simps fold_untouched)
  qed (auto simp: fate_def store_simps)
qed

lemma replaceable_fresh:
  assumes r: "replaceable p t G s" and ok: "store_ok s" and p: "p \<noteq> q"
  shows "replaceable p t G (fresh_entry q s)"
proof -
  have new: "(r, dk_next s) \<notin> links s" for r using ok by (auto simp: store_ok_def)
  have "replaceable p t G (change_dir [(q, Some (dk_next s))] (set_file (dk_next s) empty_file s))"
    using new p by (intro replaceable_change replaceable_set_file r) (auto simp: store_simps)
  moreover have "replaceable p t G (s'\<lparr>dk_next := n\<rparr>) = replaceable p t G s'" for s' n
    by (simp add: replaceable_def fate_def links_def entries_def)
  ultimately show ?thesis by (simp add: fresh_entry_def)
qed

lemma replaceable_rename:
  assumes r: "replaceable p t G s" and i: "lookup s t = Some i" "whole (dk_files s i)" "G (Some (bytes_of s i))" and "p \<noteq> t"
  shows "replaceable p t G (change_dir [(t, None), (p, Some i)] s)" (is "replaceable p t G ?s")
proof (rule replaceableI)
  fix j assume "(p, j) \<in> links ?s"
  then show "whole (dk_files ?s j) \<and> G (Some (bytes_of ?s j)) \<and> lookup ?s t \<noteq> Some j"
    using i \<open>p \<noteq> t\<close> replaceable_file [OF r, of j] by (auto simp: store_simps)
next
  fix kept' assume "subseq kept' (dk_log ?s)"
  then have "subseq kept' (dk_log s @ [[(t, None), (p, Some i)]])" by (simp add: store_simps)
  then have "(fate ?s kept' p = None \<longrightarrow> G None) \<and> (\<forall>j. fate ?s kept' p = Some j \<longrightarrow> fate ?s kept' t \<noteq> Some j)"
  proof (rule subseq_snocE)
    assume "subseq kept' (dk_log s)"
    then show ?thesis using replaceable_fate [OF r, of kept'] by (simp add: fate_def store_simps)
  next
    fix zs assume "kept' = zs @ [[(t, None), (p, Some i)]]"
    then show ?thesis using \<open>p \<noteq> t\<close> by (simp add: fate_def store_simps)
  qed
  then show "fate ?s kept' p = None \<Longrightarrow> G None" "\<And>j. fate ?s kept' p = Some j \<Longrightarrow> fate ?s kept' t \<noteq> Some j" by blast+
qed

text \<open>With its directory fsynced, the name has one fate.\<close>

lemma replaceable_flush:
  assumes r: "replaceable p t G s" and ok: "store_ok s" and "fst p = dn" "fst t = dn"
  shows "replaceable p t (\<lambda>b. b = map_option (bytes_of s) (lookup s p)) (flush_dir dn s)" (is "replaceable p t ?G ?s")
proof (rule replaceableI)
  have settled: "settled ?s p" "settled ?s t" using assms(3,4) by (simp_all add: store_simps ok)
  have now: "lookup ?s p = lookup s p" "lookup ?s t = lookup s t" by (simp_all add: store_simps ok)
  fix i assume "(p, i) \<in> links ?s"
  with settled(1) have "map_of (dk_base ?s) p = Some i" by (force simp: links_def settled_def)
  then have i: "lookup s p = Some i" using settled_lookup [OF settled(1)] now by simp
  from replaceable_file [OF r lookup_links [OF this]]
  show "whole (dk_files ?s i) \<and> ?G (Some (bytes_of ?s i)) \<and> lookup ?s t \<noteq> Some i"
    by (simp add: i store_simps ok)
next
  have settled: "settled ?s p" "settled ?s t" using assms(3,4) by (simp_all add: store_simps ok)
  have now: "lookup ?s p = lookup s p" "lookup ?s t = lookup s t" by (simp_all add: store_simps ok)
  fix kept' assume k: "subseq kept' (dk_log ?s)"
  note f = fate_settled [OF settled(1) k] fate_settled [OF settled(2) k]
  show "fate ?s kept' p = None \<Longrightarrow> ?G None" using f now by simp
  show "fate ?s kept' t \<noteq> Some i" if "fate ?s kept' p = Some i" for i
    using that f now replaceable_file [OF r lookup_links, of i] by simp
qed

lemma replaceable_settled:
  assumes "settled s p" "settled s t" "\<And>i. lookup s p = Some i \<Longrightarrow> whole (dk_files s i) \<and> G (Some (bytes_of s i)) \<and> lookup s t \<noteq> Some i"
    "lookup s p = None \<Longrightarrow> G None"
  shows "replaceable p t G s"
proof (rule replaceableI)
  fix i assume "(p, i) \<in> links s"
  with assms(1) have "map_of (dk_base s) p = Some i" by (force simp: links_def settled_def)
  then show "whole (dk_files s i) \<and> G (Some (bytes_of s i)) \<and> lookup s t \<noteq> Some i"
    using assms(3) [of i] settled_lookup [OF assms(1)] by simp
qed (use assms fate_settled in \<open>auto\<close>)

lemma settled_links: "settled s p \<Longrightarrow> (p, i) \<in> links s \<Longrightarrow> lookup s p = Some i"
  by (subst settled_lookup) (force simp: links_def settled_def)+

lemma replaceable_pinned:
  assumes r: "replaceable p t G s" and p: "settled s p"
  shows "replaceable p t (\<lambda>b. b = map_option (bytes_of s) (lookup s p)) s"
proof (rule replaceableI)
  fix i assume "(p, i) \<in> links s"
  then show "whole (dk_files s i) \<and> Some (bytes_of s i) = map_option (bytes_of s) (lookup s p) \<and> lookup s t \<noteq> Some i"
    using replaceable_file [OF r] settled_links [OF p] by auto
qed (use replaceable_fate [OF r] fate_settled [OF p] in auto)

definition wal_entry_ok :: "store \<Rightarrow> bool" where
  "wal_entry_ok s = (settled s (DataDir, ''wal'') \<and> lookup s (DataDir, ''wal'') \<noteq> None)"

lemma crash_fate:
  assumes "crash s s'"
  obtains kept where "subseq kept (dk_log s)"
    "\<And>p. fst p = DataDir \<or> wal_entry_ok s \<Longrightarrow> lookup s' p = fate s kept p"
proof -
  obtain kept where kept: "subseq kept (dk_log s)" "dk_log s' = []"
    "dk_base s' = hm_retain (\<lambda>p i. fst p = DataDir \<or> map_of (apply_changes kept (dk_base s)) (DataDir, ''wal'') \<noteq> None)
                    (apply_changes kept (dk_base s))"
    using assms by (auto simp: crash_def)
  have dir: "map_of (apply_changes kept (dk_base s)) (DataDir, ''wal'') \<noteq> None" if "wal_entry_ok s"
    using that fate_settled [OF _ kept(1), of "(DataDir, ''wal'')"] by (simp add: wal_entry_ok_def map_of_apply fate_def)
  have "lookup s' p = fate s kept p" if "fst p = DataDir \<or> wal_entry_ok s" for p
  proof -
    have "lookup s' p = map_of (dk_base s') p" using kept(2) by (simp add: entries_def apply_changes_def)
    also have "\<dots> = map_of (apply_changes kept (dk_base s)) p"
      using that dir by (auto simp: kept(3) get_retain_key)
    finally show ?thesis by (simp add: map_of_apply fate_def)
  qed
  with kept(1) that show ?thesis by blast
qed

lemma crash_whole:
  assumes "file_after_crash f f'" "whole f"
  shows "f' = f"
proof -
  have "length (fd_bytes f') = length (fd_bytes f)" "fd_stable f' = fd_stable f" "fd_peak f' = fd_peak f"
    and b: "take (fd_stable f) (fd_bytes f') = take (fd_stable f) (fd_bytes f)"
    using assms by (simp_all add: file_after_crash_def whole_def Let_def)
  moreover from this(1) b have "fd_bytes f' = fd_bytes f" using assms(2) by (simp add: whole_def)
  ultimately show ?thesis by simp
qed

lemma crash_file: "crash s s' \<Longrightarrow> file_after_crash (dk_files s i) (dk_files s' i)"
  by (simp add: crash_def)

lemma crash_replaceable:
  assumes r: "replaceable p t G s" and c: "crash s s'" and dir: "(fst p = DataDir \<and> fst t = DataDir) \<or> wal_entry_ok s"
  shows "replaceable p t G s'"
proof -
  obtain kept where k: "subseq kept (dk_log s)" "\<And>p. fst p = DataDir \<or> wal_entry_ok s \<Longrightarrow> lookup s' p = fate s kept p"
    by (rule crash_fate [OF c]) blast
  have kept: "subseq kept (dk_log s)" "lookup s' p = fate s kept p" "lookup s' t = fate s kept t"
    using k(1) k(2) [of p] k(2) [of t] dir by blast+
  show ?thesis
  proof (rule replaceable_settled)
    show "settled s' p" "settled s' t" using c by (rule crash_settled)+
    show "G None" if "lookup s' p = None" using that kept replaceable_fate [OF r kept(1)] by simp
    fix i assume i: "lookup s' p = Some i"
    with kept have f: "fate s kept p = Some i" by simp
    have w: "whole (dk_files s i)" "G (Some (bytes_of s i))" using replaceable_file [OF r fate_link [OF kept(1) f]] by auto
    have "dk_files s' i = dk_files s i" using crash_whole [OF crash_file [OF c] w(1)] .
    then show "whole (dk_files s' i) \<and> G (Some (bytes_of s' i)) \<and> lookup s' t \<noteq> Some i"
      using w replaceable_fate [OF r kept(1)] f kept(3) by simp
  qed
qed

lemma crash_wal_entry: "crash s s' \<Longrightarrow> wal_entry_ok s \<Longrightarrow> wal_entry_ok s'"
proof -
  assume c: "crash s s'" and w: "wal_entry_ok s"
  obtain kept where k: "subseq kept (dk_log s)" "\<And>p. fst p = DataDir \<or> wal_entry_ok s \<Longrightarrow> lookup s' p = fate s kept p"
    by (rule crash_fate [OF c]) blast
  from k(1) k(2) [of "(DataDir, ''wal'')"] show ?thesis using w crash_settled [OF c] by (simp add: wal_entry_ok_def fate_settled)
qed

section \<open>Changes that leave names alone\<close>

text \<open>On the names in \<open>P\<close>, a crash of \<open>s\<close> can only do what a crash of \<open>s0\<close> could.\<close>

definition fates_le :: "(path \<Rightarrow> bool) \<Rightarrow> store \<Rightarrow> store \<Rightarrow> bool" where
  "fates_le P s s0 = (\<forall>kept'. subseq kept' (dk_log s) \<longrightarrow>
     (\<exists>kept. subseq kept (dk_log s0) \<and> (\<forall>p. P p \<longrightarrow> fate s kept' p = fate s0 kept p)))"

lemma fates_leI:
  "(\<And>kept'. subseq kept' (dk_log s) \<Longrightarrow> \<exists>kept. subseq kept (dk_log s0) \<and> (\<forall>p. P p \<longrightarrow> fate s kept' p = fate s0 kept p))
   \<Longrightarrow> fates_le P s s0"
  unfolding fates_le_def by blast

lemma fates_leD:
  "fates_le P s s0 \<Longrightarrow> subseq kept' (dk_log s) \<Longrightarrow> \<exists>kept. subseq kept (dk_log s0) \<and> (\<forall>p. P p \<longrightarrow> fate s kept' p = fate s0 kept p)"
  unfolding fates_le_def by blast

lemma fates_le_refl: "fates_le P s s"
  unfolding fates_le_def by blast

lemma fates_le_trans: "fates_le P s s1 \<Longrightarrow> fates_le P s1 s0 \<Longrightarrow> fates_le P s s0"
  unfolding fates_le_def by (metis (no_types, lifting))

lemma fates_le_file: "fates_le P (set_file i f s) s0 = fates_le P s s0" "fates_le P (write_at i pos bs s) s0 = fates_le P s s0"
  by (simp_all add: fates_le_def fate_def store_simps)

lemma fates_le_change:
  assumes "\<And>p. P p \<Longrightarrow> p \<notin> fst ` set c"
  shows "fates_le P (change_dir c s) s"
proof (rule fates_leI)
  fix kept' assume "subseq kept' (dk_log (change_dir c s))"
  then have "subseq kept' (dk_log s @ [c])" by (simp add: store_simps)
  then show "\<exists>kept. subseq kept (dk_log s) \<and> (\<forall>p. P p \<longrightarrow> fate (change_dir c s) kept' p = fate s kept p)"
  proof (rule subseq_snocE)
    assume "subseq kept' (dk_log s)"
    then show ?thesis by (intro exI [of _ kept']) (simp add: fate_def store_simps)
  next
    fix zs assume z: "kept' = zs @ [c]" "subseq zs (dk_log s)"
    have "fate (change_dir c s) kept' p = fate s zs p" if "P p" for p
      using assms [OF that] by (simp add: z(1) fate_def store_simps fold_untouched)
    with z(2) show ?thesis by blast
  qed
qed

lemma fates_le_fresh:
  assumes "\<not> P q"
  shows "fates_le P (fresh_entry q s) s"
proof -
  have "fates_le P (change_dir [(q, Some (dk_next s))] (set_file (dk_next s) empty_file s)) s"
    using fates_le_change [of P "[(q, Some (dk_next s))]" "set_file (dk_next s) empty_file s"] assms
      fates_le_file(1) [of P _ _ s s] fates_le_refl fates_le_trans by fastforce
  moreover have "fates_le P (s'\<lparr>dk_next := n\<rparr>) s0 = fates_le P s' s0" for s' s0 :: store and n
    by (simp add: fates_le_def fate_def)
  ultimately show ?thesis by (simp add: fresh_entry_def)
qed

lemma subseq_merge:
  "subseq k (filter (\<lambda>c. \<not> P c) l) \<Longrightarrow> \<exists>m. subseq m l \<and> filter (\<lambda>c. \<not> P c) m = k \<and> filter P m = filter P l"
proof (induction l arbitrary: k)
  case (Cons c l)
  show ?case
  proof (cases "P c")
    case True
    with Cons.prems have "subseq k (filter (\<lambda>c. \<not> P c) l)" by simp
    from Cons.IH [OF this] obtain m where "subseq m l" "filter (\<lambda>c. \<not> P c) m = k" "filter P m = filter P l" by blast
    then show ?thesis using True by (intro exI [of _ "c # m"]) auto
  next
    case False
    show ?thesis
    proof (cases "\<exists>k'. k = c # k' \<and> subseq k' (filter (\<lambda>c. \<not> P c) l)")
      case True
      then obtain k' where k: "k = c # k'" "subseq k' (filter (\<lambda>c. \<not> P c) l)" by blast
      from Cons.IH [OF this(2)] obtain m where "subseq m l" "filter (\<lambda>c. \<not> P c) m = k'" "filter P m = filter P l" by blast
      then show ?thesis using False k by (intro exI [of _ "c # m"]) auto
    next
      case no: False
      with Cons.prems False have "subseq k (filter (\<lambda>c. \<not> P c) l)" by (cases k) (auto split: if_splits)
      from Cons.IH [OF this] obtain m where "subseq m l" "filter (\<lambda>c. \<not> P c) m = k" "filter P m = filter P l" by blast
      then show ?thesis using False by (intro exI [of _ m]) (auto intro: list_emb_Cons)
    qed
  qed
qed (auto elim: list_emb.cases intro!: exI [of _ "[]"])

lemma fates_le_flush:
  assumes ok: "store_ok s"
  shows "fates_le P (flush_dir dn s) s"
proof (rule fates_leI)
  fix kept' assume "subseq kept' (dk_log (flush_dir dn s))"
  then have "subseq kept' (filter (Not \<circ> in_dir dn) (dk_log s))" by (simp add: store_simps)
  then obtain m where m: "subseq m (dk_log s)" "filter (Not \<circ> in_dir dn) m = kept'" "filter (in_dir dn) m = filter (in_dir dn) (dk_log s)"
    using subseq_merge [of kept' "in_dir dn" "dk_log s"] by (auto simp: comp_def)
  have in_log: "c \<in> set m \<Longrightarrow> c \<in> set (dk_log s)" for c using subseq_set [OF m(1)] by blast
  have "fate (flush_dir dn s) kept' p = fate s m p" for p
  proof (cases "fst p = dn")
    case True
    have "p \<notin> fst ` set c" if "c \<in> set kept'" for c
      using that m(2) True in_log store_ok_in_dir [OF ok] by fastforce
    then have "fate (flush_dir dn s) kept' p = map_of (dk_base (flush_dir dn s)) p" unfolding fate_def by (rule val_after_untouched)
    also have "\<dots> = val_after p (filter (in_dir dn) (dk_log s)) (map_of (dk_base s) p)" by (simp add: flush_dir_def map_of_apply)
    also have "\<dots> = val_after p m (map_of (dk_base s) p)"
      unfolding m(3) [symmetric] by (rule val_after_filter) (use in_log store_ok_in_dir [OF ok _ _ True] in blast)
    finally show ?thesis by (simp add: fate_def)
  next
    case False
    have "val_after p kept' v = val_after p m v" for v
      unfolding m(2) [symmetric] using False in_log store_ok_not_in_dir [OF ok] by (intro val_after_filter) auto
    then show ?thesis using False by (simp add: fate_def flush_dir_base [OF ok])
  qed
  with m(1) show "\<exists>kept. subseq kept (dk_log s) \<and> (\<forall>p. P p \<longrightarrow> fate (flush_dir dn s) kept' p = fate s kept p)" by blast
qed

lemma replaceable_fates:
  assumes r: "replaceable p t G s" and le: "fates_le P s' s" "P p" "P t"
    and files: "\<And>i. (p, i) \<in> links s' \<Longrightarrow> (p, i) \<in> links s \<and> dk_files s' i = dk_files s i" and t: "lookup s' t = lookup s t"
  shows "replaceable p t G s'"
proof (rule replaceable_frame [OF r files])
  fix kept' assume "subseq kept' (dk_log s')"
  from fates_leD [OF le(1) this] le(2,3)
  show "\<exists>kept. subseq kept (dk_log s) \<and> fate s' kept' p = fate s kept p
      \<and> (fate s' kept' t = fate s kept t \<or> (\<exists>j. fate s' kept' t = Some j \<and> (p, j) \<notin> links s'))" by blast
qed (simp_all add: t)

section \<open>The replacement\<close>

text \<open>Stores in which the temporary file is being written.\<close>

definition scratched :: "path \<Rightarrow> store \<Rightarrow> store \<Rightarrow> bool" where
  "scratched t s s' =
     (s' = s \<or> (\<exists>i f. file_ok f \<and> ((lookup s t = Some i \<and> s' = set_file i f s)
        \<or> (lookup s t = None \<and> i = dk_next s \<and> s' = set_file i f (fresh_entry t s)))))"

definition replaced :: "path \<Rightarrow> path \<Rightarrow> u8 list \<Rightarrow> store \<Rightarrow> store \<Rightarrow> bool" where
  "replaced p t bs s s' =
     (\<exists>s1 i. scratched t s s1 \<and> lookup s1 t = Some i \<and> whole (dk_files s1 i) \<and> bytes_of s1 i = bs
        \<and> s' = change_dir [(t, None), (p, Some i)] s1)"

lemma set_file_twice [simp]: "set_file i f (set_file i g s) = set_file i f s"
  by (simp add: set_file_def)

lemma set_file_same: "set_file i (dk_files s i) s = s"
  by (simp add: set_file_def)

lemma write_scratch: "write_at i pos bs (set_file i f s) = set_file i (write_file pos bs f) s"
  by (simp add: write_at_def store_simps)

lemma write_fresh_file: "fd_bytes f = [] \<Longrightarrow> bytes = fd_bytes (write_file 0 bs f) \<Longrightarrow> bytes = bs"
  by (auto simp: write_file_def Let_def split: if_splits)

lemma wp_replace:
  assumes "store_ok s"
  shows "wp (io_then (fs_create_truncate e1 t) (\<lambda>h. io_then (fs_write_all e2 h bs) (\<lambda>h.
      io_then (fs_sync e3 h) (\<lambda>_. fs_rename e4 t p)))) (\<lambda>_. replaced p t bs s) (scratched t s) s"
proof -
  have go: "wp (io_then (fs_write_all e2 \<lparr>h_inode = i, h_pos = 0\<rparr> bs) (\<lambda>h.
      io_then (fs_sync e3 h) (\<lambda>_. fs_rename e4 t p))) (\<lambda>_. replaced p t bs s) (scratched t s) (set_file i f s0)"
    if f: "file_ok f" "fd_bytes f = []" and s0: "(lookup s t = Some i \<and> s0 = s) \<or> (lookup s t = None \<and> i = dk_next s \<and> s0 = fresh_entry t s)"
    for i f s0
  proof -
    have sc: "scratched t s (set_file i g s0)" if "file_ok g" for g using that s0 by (auto simp: scratched_def)
    have look: "lookup (set_file i g s0) t = Some i" for g using s0 by (auto simp: store_simps)
    let ?g = "sync_file (write_file 0 bs f)"
    have w: "whole ?g" "fd_bytes ?g = bs" using f(2) write_fresh_file [OF f(2)]
      by (auto simp: whole_def sync_file_def)
    then have "replaced p t bs s (change_dir [(t, None), (p, Some i)] (set_file i ?g s0))"
      unfolding replaced_def using sc [of ?g] look [of ?g] by (intro exI [of _ "set_file i ?g s0"] exI [of _ i]) (simp add: store_simps)
    then show ?thesis
      using sc f look by (intro wp_rules) (auto simp: write_scratch store_simps intro!: wp_rules)
  qed
  have "wp (fs_create_truncate e1 t) (\<lambda>h. wp (io_then (fs_write_all e2 h bs) (\<lambda>h.
      io_then (fs_sync e3 h) (\<lambda>_. fs_rename e4 t p))) (\<lambda>_. replaced p t bs s) (scratched t s)) (scratched t s) s"
  proof (rule wp_create_truncate)
    fix i assume "lookup s t = Some i"
    then show "wp (io_then (fs_write_all e2 \<lparr>h_inode = i, h_pos = 0\<rparr> bs) (\<lambda>h. io_then (fs_sync e3 h) (\<lambda>_. fs_rename e4 t p)))
        (\<lambda>_. replaced p t bs s) (scratched t s) (set_file i (resize_file 0 (dk_files s i)) s)"
      by (intro go) (simp_all add: store_ok_file [OF assms], simp add: resize_file_def)
  next
    assume "lookup s t = None"
    then have "wp (io_then (fs_write_all e2 \<lparr>h_inode = dk_next s, h_pos = 0\<rparr> bs) (\<lambda>h. io_then (fs_sync e3 h) (\<lambda>_. fs_rename e4 t p)))
        (\<lambda>_. replaced p t bs s) (scratched t s) (set_file (dk_next s) (dk_files (fresh_entry t s) (dk_next s)) (fresh_entry t s))"
      by (intro go) (simp_all add: store_simps, simp add: empty_file_def)
    then show "wp (io_then (fs_write_all e2 \<lparr>h_inode = dk_next s, h_pos = 0\<rparr> bs) (\<lambda>h. io_then (fs_sync e3 h) (\<lambda>_. fs_rename e4 t p)))
        (\<lambda>_. replaced p t bs s) (scratched t s) (fresh_entry t s)" by (simp only: set_file_same)
  qed (simp add: scratched_def)
  then show ?thesis by (rule wp_then)
qed

end
