(* ===== verification/Wal_Stream.thy ===== *)
theory Wal_Stream
  imports Wal_Names Disk_Replace
begin

text \<open>
  The segments as one byte stream. \<open>live\<close> says that the segment files from the replay floor on hold
  exactly the bytes of the stream up to a position, \<open>loose\<close> that they hold them and possibly more,
  \<open>kept\<close> that the part up to the durable end is safe from a crash. Appending, truncating and fsyncing
  are specified over these, whatever calls fail.
\<close>

section \<open>Context\<close>

text \<open>What does not change while the segments are worked on: the checksum, the replay floor, the
  durable end, and the files that are not segments (the store at the start and the inodes to keep).\<close>

record stream_ctx =
  cx_crc :: "u8 list \<Rightarrow> u32"
  cx_floor :: nat
  cx_durable :: nat
  cx_start :: store
  cx_keep :: "inode set"

abbreviation seg_bytes :: nat where "seg_bytes \<equiv> SEGMENT_PAYLOAD_BYTES"

definition first_seg :: "stream_ctx \<Rightarrow> nat" where
  "first_seg x = cx_floor x div seg_bytes"

text \<open>The last segment of a stream that ends at \<open>e\<close>: at a boundary the full one, unless it is below
  the floor.\<close>

definition last_seg :: "stream_ctx \<Rightarrow> nat \<Rightarrow> nat" where
  "last_seg x e = (if e mod seg_bytes = 0 \<and> cx_floor x < e then e div seg_bytes - 1 else e div seg_bytes)"

definition chunk :: "nat \<Rightarrow> u8 list \<Rightarrow> u8 list" where
  "chunk n L = take seg_bytes (drop (n * seg_bytes) L)"

lemma length_chunk: "length (chunk n L) = min seg_bytes (length L - n * seg_bytes)"
  by (simp add: chunk_def)

lemma length_chunk_le: "length (chunk n L) \<le> seg_bytes"
  by (simp add: chunk_def)

lemma chunk_take: "chunk n (take e L) = take (e - n * seg_bytes) (chunk n L)"
  by (simp add: chunk_def drop_take take_take min.commute)

lemma chunk_append: "(n + 1) * seg_bytes \<le> length L \<Longrightarrow> chunk n (L @ bs) = chunk n L"
  by (simp add: chunk_def)

lemma seg_div_bounds: "e div seg_bytes * seg_bytes \<le> e" "e < (e div seg_bytes + 1) * seg_bytes"
  using dividend_less_div_times [of seg_bytes e] by simp_all

lemma last_seg_bounds:
  assumes "cx_floor x \<le> e"
  shows "first_seg x \<le> last_seg x e" "last_seg x e * seg_bytes \<le> e" "e \<le> (last_seg x e + 1) * seg_bytes"
proof -
  have e: "e = e div seg_bytes * seg_bytes + e mod seg_bytes" by simp
  have "cx_floor x div seg_bytes \<le> e div seg_bytes - 1" if "e mod seg_bytes = 0" "cx_floor x < e"
  proof -
    have "cx_floor x < e div seg_bytes * seg_bytes" using that e by simp
    then have "cx_floor x div seg_bytes < e div seg_bytes" by (simp add: less_mult_imp_div_less)
    then show ?thesis by simp
  qed
  then show "first_seg x \<le> last_seg x e"
    using assms by (auto simp: first_seg_def last_seg_def div_le_mono)
  show "last_seg x e * seg_bytes \<le> e" "e \<le> (last_seg x e + 1) * seg_bytes"
  proof -
    have "last_seg x e * seg_bytes \<le> e \<and> e \<le> (last_seg x e + 1) * seg_bytes"
    proof (cases "e mod seg_bytes = 0 \<and> cx_floor x < e")
      case True
      then obtain k where "e div seg_bytes = Suc k" using e by (cases "e div seg_bytes") auto
      moreover have "e = e div seg_bytes * seg_bytes" using True e by simp
      ultimately show ?thesis using True by (simp add: last_seg_def)
    next
      case False
      then show ?thesis using seg_div_bounds [of e] by (auto simp: last_seg_def)
    qed
    then show "last_seg x e * seg_bytes \<le> e" "e \<le> (last_seg x e + 1) * seg_bytes" by auto
  qed
qed

lemma last_seg_mono: "cx_floor x \<le> e \<Longrightarrow> e \<le> e' \<Longrightarrow> last_seg x e \<le> last_seg x e'"
proof -
  assume a: "cx_floor x \<le> e" "e \<le> e'"
  have "last_seg x e * seg_bytes < (last_seg x e' + 1) * seg_bytes \<or> e' = e"
  proof (cases "e = e'")
    case False
    with a have "e < e'" by simp
    with last_seg_bounds [OF a(1)] last_seg_bounds [of x e'] a show ?thesis by simp
  qed simp
  then have "last_seg x e < last_seg x e' + 1 \<or> e' = e" using mult_less_cancel2 by blast
  then show ?thesis by auto
qed

lemma last_seg_append:
  "cx_floor x \<le> e \<Longrightarrow> e < e' \<Longrightarrow> e' \<le> (e div seg_bytes + 1) * seg_bytes \<Longrightarrow> last_seg x e' = e div seg_bytes"
proof -
  assume a: "cx_floor x \<le> e" "e < e'" "e' \<le> (e div seg_bytes + 1) * seg_bytes"
  show ?thesis
  proof (cases "e' = (e div seg_bytes + 1) * seg_bytes")
    case True
    then show ?thesis using a by (simp add: last_seg_def)
  next
    case False
    have lower: "e div seg_bytes * seg_bytes \<le> e'" using seg_div_bounds(1) [of e] a by linarith
    have "e' div seg_bytes = e div seg_bytes"
      using a False lower by (intro div_nat_eqI) (simp_all add: mult.commute)
    moreover have "e' mod seg_bytes \<noteq> 0"
    proof
      assume "e' mod seg_bytes = 0"
      then have "e' = e div seg_bytes * seg_bytes" using \<open>e' div seg_bytes = e div seg_bytes\<close> by (metis add.right_neutral div_mult_mod_eq)
      with a(2) seg_div_bounds(1) [of e] show False by linarith
    qed
    ultimately show ?thesis by (simp add: last_seg_def)
  qed
qed

section \<open>Segment files in a store\<close>

definition seg :: "store \<Rightarrow> nat \<Rightarrow> (file_data \<Rightarrow> bool) \<Rightarrow> bool" where
  "seg s n P = (\<exists>i. lookup s (segment_path n) = Some i \<and> settled s (segment_path n) \<and> P (dk_files s i))"

text \<open>The segments own their inodes, and all else is as it was at the start.\<close>

definition ground :: "stream_ctx \<Rightarrow> store \<Rightarrow> bool" where
  "ground x s =
     (store_ok s \<and> fates_le (Not \<circ> is_seg) s (cx_start x) \<and> (\<forall>n < u64_limit. sole s (segment_path n)) \<and> (\<forall>p i. is_seg p \<longrightarrow> (p, i) \<in> links s \<longrightarrow> i \<notin> cx_keep x)
      \<and> (\<forall>i \<in> cx_keep x. i < dk_next s \<and> dk_files s i = dk_files (cx_start x) i)
      \<and> (\<forall>p. \<not> is_seg p \<longrightarrow> lookup s p = lookup (cx_start x) p \<and> (settled (cx_start x) p \<longrightarrow> settled s p)
             \<and> (\<forall>i. (p, i) \<in> links s \<longrightarrow> (p, i) \<in> links (cx_start x))))"

lemma ground_ok: "ground x s \<Longrightarrow> store_ok s"
  unfolding ground_def by blast

lemma ground_fates: "ground x s \<Longrightarrow> fates_le (Not \<circ> is_seg) s (cx_start x)"
  unfolding ground_def by blast

lemma ground_sole: "ground x s \<Longrightarrow> n < u64_limit \<Longrightarrow> (segment_path n, i) \<in> links s \<Longrightarrow> (q, i) \<in> links s \<Longrightarrow> q = segment_path n"
  unfolding ground_def sole_def by blast

lemma ground_keep: "ground x s \<Longrightarrow> is_seg p \<Longrightarrow> (p, i) \<in> links s \<Longrightarrow> i \<notin> cx_keep x"
  unfolding ground_def by blast

lemma ground_kept: "ground x s \<Longrightarrow> i \<in> cx_keep x \<Longrightarrow> i < dk_next s \<and> dk_files s i = dk_files (cx_start x) i"
  unfolding ground_def by blast

lemma ground_other:
  "ground x s \<Longrightarrow> \<not> is_seg p \<Longrightarrow> lookup s p = lookup (cx_start x) p"
  "ground x s \<Longrightarrow> \<not> is_seg p \<Longrightarrow> settled (cx_start x) p \<Longrightarrow> settled s p"
  "ground x s \<Longrightarrow> \<not> is_seg p \<Longrightarrow> (p, i) \<in> links s \<Longrightarrow> (p, i) \<in> links (cx_start x)"
  unfolding ground_def by blast+

lemma groundI:
  assumes "store_ok s" "fates_le (Not \<circ> is_seg) s (cx_start x)" "\<And>n q i. n < u64_limit \<Longrightarrow> (segment_path n, i) \<in> links s \<Longrightarrow> (q, i) \<in> links s \<Longrightarrow> q = segment_path n"
    "\<And>p i. is_seg p \<Longrightarrow> (p, i) \<in> links s \<Longrightarrow> i \<notin> cx_keep x"
    "\<And>i. i \<in> cx_keep x \<Longrightarrow> i < dk_next s \<and> dk_files s i = dk_files (cx_start x) i"
    "\<And>p. \<not> is_seg p \<Longrightarrow> lookup s p = lookup (cx_start x) p"
    "\<And>p. \<not> is_seg p \<Longrightarrow> settled (cx_start x) p \<Longrightarrow> settled s p"
    "\<And>p i. \<not> is_seg p \<Longrightarrow> (p, i) \<in> links s \<Longrightarrow> (p, i) \<in> links (cx_start x)"
  shows "ground x s"
  unfolding ground_def sole_def using assms by blast

lemma links_less: "store_ok s \<Longrightarrow> (p, i) \<in> links s \<Longrightarrow> i < dk_next s"
  unfolding store_ok_def by blast

lemma ground_inode:
  assumes "ground x s" "lookup s (segment_path n) = Some i" "n < u64_limit"
  shows "i \<notin> cx_keep x" "i < dk_next s"
  using ground_keep [OF assms(1) is_seg_path [OF assms(3)] lookup_links [OF assms(2)]]
    lookup_less [OF ground_ok [OF assms(1)] assms(2)] by blast+

lemma ground_distinct:
  assumes "ground x s" "lookup s (segment_path n) = Some i" "lookup s (segment_path m) = Some i" "n < u64_limit" "m < u64_limit"
  shows "n = m"
  using ground_sole [OF assms(1,4) lookup_links [OF assms(2)] lookup_links [OF assms(3)]]
    segment_path_inj [OF assms(5,4)] by simp

lemma ground_set_file:
  assumes g: "ground x s" and i: "i \<notin> cx_keep x" "file_ok f"
  shows "ground x (set_file i f s)"
proof (rule groundI)
  fix j assume "j \<in> cx_keep x"
  then show "j < dk_next (set_file i f s) \<and> dk_files (set_file i f s) j = dk_files (cx_start x) j"
    using ground_kept [OF g] i by (auto simp: store_simps)
qed (use g i ground_fates [OF g] ground_sole [OF g] ground_keep [OF g] ground_other [OF g] in
      \<open>simp_all add: store_simps store_ok_set_file ground_ok fates_le_file\<close>)

lemma ground_write_at: "ground x s \<Longrightarrow> i \<notin> cx_keep x \<Longrightarrow> ground x (write_at i pos bs s)"
  by (simp add: write_at_def ground_set_file store_ok_file ground_ok)

lemma ground_remove:
  assumes g: "ground x s" and n: "n < u64_limit"
  shows "ground x (change_dir [(segment_path n, None)] s)"
proof (rule groundI)
  show "store_ok (change_dir [(segment_path n, None)] s)"
    using ground_ok [OF g] by (intro store_ok_change [of _ WalDir]) (simp_all add: in_dir_def)
  show "fates_le (Not \<circ> is_seg) (change_dir [(segment_path n, None)] s) (cx_start x)"
    using n by (intro fates_le_trans [OF fates_le_change ground_fates [OF g]]) auto
  fix p assume "\<not> is_seg p"
  with n have "p \<noteq> segment_path n" by auto
  then show "lookup (change_dir [(segment_path n, None)] s) p = lookup (cx_start x) p"
    "settled (cx_start x) p \<Longrightarrow> settled (change_dir [(segment_path n, None)] s) p"
    using ground_other [OF g \<open>\<not> is_seg p\<close>] by (simp_all add: store_simps)
qed (use ground_sole [OF g] ground_keep [OF g] ground_kept [OF g] ground_other [OF g] in \<open>simp_all add: store_simps\<close>)

lemma ground_fresh:
  assumes g: "ground x s" and n: "n < u64_limit"
  shows "ground x (fresh_entry (segment_path n) s)"
proof (rule groundI)
  have less: "(p, i) \<in> links s \<Longrightarrow> i < dk_next s" for p i using links_less [OF ground_ok [OF g]] .
  have keep: "dk_next s \<notin> cx_keep x" using ground_kept [OF g] by blast
  show "store_ok (fresh_entry (segment_path n) s)" using ground_ok [OF g] by (rule store_ok_fresh)
  show "fates_le (Not \<circ> is_seg) (fresh_entry (segment_path n) s) (cx_start x)"
    using n by (intro fates_le_trans [OF fates_le_fresh ground_fates [OF g]]) simp
  show "q = segment_path m" if "m < u64_limit" "(segment_path m, i) \<in> links (fresh_entry (segment_path n) s)"
    "(q, i) \<in> links (fresh_entry (segment_path n) s)" for m q i
  proof (cases "i = dk_next s")
    case True
    have "(p, dk_next s) \<notin> links s" for p using less by blast
    with True that(2,3) show ?thesis by (auto simp: store_simps)
  next
    case False
    with that ground_sole [OF g that(1)] show ?thesis by (simp add: store_simps)
  qed
  show "i \<notin> cx_keep x" if "is_seg p" "(p, i) \<in> links (fresh_entry (segment_path n) s)" for p i
    using that(2) ground_keep [OF g that(1)] keep by (auto simp: store_simps)
  show "i < dk_next (fresh_entry (segment_path n) s) \<and> dk_files (fresh_entry (segment_path n) s) i = dk_files (cx_start x) i"
    if "i \<in> cx_keep x" for i
    using ground_kept [OF g that] keep that by (auto simp: store_simps)
  fix p assume p: "\<not> is_seg p"
  with n have "p \<noteq> segment_path n" by auto
  then show "lookup (fresh_entry (segment_path n) s) p = lookup (cx_start x) p"
    "settled (cx_start x) p \<Longrightarrow> settled (fresh_entry (segment_path n) s) p"
    "(p, i) \<in> links (fresh_entry (segment_path n) s) \<Longrightarrow> (p, i) \<in> links (cx_start x)" for i
    using ground_other [OF g p] by (auto simp: store_simps)
qed

lemma ground_flush:
  assumes g: "ground x s"
  shows "ground x (flush_dir WalDir s)"
proof -
  note ok = ground_ok [OF g]
  have sub: "(p, i) \<in> links (flush_dir WalDir s) \<Longrightarrow> (p, i) \<in> links s" for p i
    using flush_dir_links [OF ok] by blast
  show ?thesis
  proof (rule groundI)
    show "q = segment_path n" if "n < u64_limit" "(segment_path n, i) \<in> links (flush_dir WalDir s)"
      "(q, i) \<in> links (flush_dir WalDir s)" for n q i
      using ground_sole [OF g that(1) sub [OF that(2)] sub [OF that(3)]] .
    show "i \<notin> cx_keep x" if "is_seg p" "(p, i) \<in> links (flush_dir WalDir s)" for p i
      using ground_keep [OF g that(1) sub [OF that(2)]] .
    show "(p, i) \<in> links (cx_start x)" if "\<not> is_seg p" "(p, i) \<in> links (flush_dir WalDir s)" for p i
      using ground_other(3) [OF g that(1) sub [OF that(2)]] .
    show "fates_le (Not \<circ> is_seg) (flush_dir WalDir s) (cx_start x)"
      using fates_le_flush [OF ok] ground_fates [OF g] by (rule fates_le_trans)
  qed (use ok ground_kept [OF g] ground_other [OF g] in \<open>simp_all add: store_simps store_ok_flush_dir\<close>)
qed

lemma seg_set_file:
  assumes "ground x s" "lookup s (segment_path m) = Some i" "n < u64_limit" "m < u64_limit"
  shows "seg (set_file i f s) n P \<longleftrightarrow> (if n = m then settled s (segment_path n) \<and> P f else seg s n P)"
proof (cases "n = m")
  case True
  then show ?thesis using assms(2) by (auto simp: seg_def store_simps)
next
  case False
  then have "lookup s (segment_path n) \<noteq> Some i" using ground_distinct [OF assms(1) _ assms(2,3,4)] by blast
  then show ?thesis using False by (cases "lookup s (segment_path n)") (auto simp: seg_def store_simps)
qed

lemma seg_write_at:
  assumes "ground x s" "lookup s (segment_path m) = Some i" "n < u64_limit" "m < u64_limit"
  shows "seg (write_at i pos bs s) n P
    \<longleftrightarrow> (if n = m then settled s (segment_path n) \<and> P (write_file pos bs (dk_files s i)) else seg s n P)"
  using seg_set_file [OF assms] by (simp add: write_at_def)

lemma seg_remove:
  "n < u64_limit \<Longrightarrow> m < u64_limit \<Longrightarrow>
   seg (change_dir [(segment_path m, None)] s) n P \<longleftrightarrow> n \<noteq> m \<and> seg s n P"
  using segment_path_inj [of n m] by (auto simp: seg_def store_simps)

lemma seg_fresh:
  assumes "ground x s" "n < u64_limit" "m < u64_limit"
  shows "seg (fresh_entry (segment_path m) s) n P \<longleftrightarrow> n \<noteq> m \<and> seg s n P"
  using assms segment_path_inj [of n m] lookup_less [OF ground_ok [OF assms(1)], of "segment_path n"]
  by (cases "lookup s (segment_path n)") (auto simp: seg_def store_simps)

lemma seg_flush:
  "store_ok s \<Longrightarrow> seg (flush_dir WalDir s) n P \<longleftrightarrow> (\<exists>i. lookup s (segment_path n) = Some i \<and> P (dk_files s i))"
  by (auto simp: seg_def store_simps)

lemma seg_lookup: "seg s n P \<Longrightarrow> \<exists>i. lookup s (segment_path n) = Some i \<and> P (dk_files s i)"
  by (auto simp: seg_def)

lemma seg_mono: "seg s n P \<Longrightarrow> (\<And>f. P f \<Longrightarrow> Q f) \<Longrightarrow> seg s n Q"
  by (auto simp: seg_def)

text \<open>Files outside the log's segments are left alone.\<close>

lemma ground_replaceable:
  assumes g: "ground x s" and r: "replaceable p t G (cx_start x)" and keep: "\<And>i. (p, i) \<in> links (cx_start x) \<Longrightarrow> i \<in> cx_keep x"
    and p: "\<not> is_seg p" "\<not> is_seg t"
  shows "replaceable p t G s"
proof (rule replaceable_fates [OF r ground_fates [OF g]])
  show "(p, i) \<in> links (cx_start x) \<and> dk_files s i = dk_files (cx_start x) i" if "(p, i) \<in> links s" for i
    using ground_other(3) [OF g p(1) that] ground_kept [OF g keep] by blast
qed (use p ground_other(1) [OF g p(2)] in simp_all)

end
