(* ===== verification/Wal_Stream_Ops.thy ===== *)
theory Wal_Stream_Ops
  imports Wal_Stream
begin

text \<open>
  Opening, creating, appending to, fsyncing and truncating segments, over the stream view.
\<close>

section \<open>Stream invariants\<close>

definition loose_file :: "stream_ctx \<Rightarrow> nat \<Rightarrow> u8 list \<Rightarrow> nat \<Rightarrow> file_data \<Rightarrow> bool" where
  "loose_file x u L n f =
     (prefix (seg_header (cx_crc x) n @ chunk n L) (fd_bytes f) \<and> fd_peak f \<le> SEGMENT_HEADER_LEN + seg_bytes
      \<and> (n \<le> last_seg x (cx_durable x) \<longrightarrow> SEGMENT_HEADER_LEN + length (chunk n (take (cx_durable x) L)) \<le> fd_stable f)
      \<and> (n < u \<longrightarrow> SEGMENT_HEADER_LEN + length (chunk n L) \<le> fd_stable f) \<and> SEGMENT_HEADER_LEN \<le> fd_stable f)"

definition in_range :: "stream_ctx \<Rightarrow> u8 list \<Rightarrow> bool" where
  "in_range x L = (cx_floor x \<le> cx_durable x \<and> cx_durable x \<le> length L \<and> length L < u64_limit)"

definition loose :: "stream_ctx \<Rightarrow> nat \<Rightarrow> u8 list \<Rightarrow> nat \<Rightarrow> store \<Rightarrow> bool" where
  "loose x u L top_seg s =
     (ground x s \<and> in_range x L
      \<and> (\<forall>n. first_seg x \<le> n \<longrightarrow> n \<le> last_seg x (length L) \<longrightarrow> seg s n (loose_file x u L n))
      \<and> (\<forall>n. top_seg < n \<longrightarrow> n < u64_limit \<longrightarrow> lookup s (segment_path n) = None))"

definition exact_file :: "stream_ctx \<Rightarrow> nat \<Rightarrow> u8 list \<Rightarrow> nat \<Rightarrow> file_data \<Rightarrow> bool" where
  "exact_file x u L n f =
     (loose_file x u L n f \<and> fd_bytes f = seg_header (cx_crc x) n @ chunk n L)"

text \<open>Exactly the stream \<open>L\<close>, with every segment before \<open>u\<close> fsynced.\<close>

definition live :: "stream_ctx \<Rightarrow> nat \<Rightarrow> u8 list \<Rightarrow> store \<Rightarrow> bool" where
  "live x u L s =
     (ground x s \<and> in_range x L
      \<and> (\<forall>n. first_seg x \<le> n \<longrightarrow> n \<le> last_seg x (length L) \<longrightarrow> seg s n (exact_file x u L n))
      \<and> (\<forall>n. last_seg x (length L) < n \<longrightarrow> n < u64_limit \<longrightarrow> lookup s (segment_path n) = None))"

definition kept :: "stream_ctx \<Rightarrow> u8 list \<Rightarrow> store \<Rightarrow> bool" where
  "kept x L s = loose x 0 (take (cx_durable x) L) u64_limit s"

lemma in_range_seg:
  assumes "in_range x L" "n \<le> last_seg x (length L)"
  shows "n * seg_bytes < u64_limit" "n < u64_limit"
proof -
  have "n * seg_bytes \<le> last_seg x (length L) * seg_bytes" using assms(2) by simp
  also have "\<dots> \<le> length L" using assms(1) by (intro last_seg_bounds) (simp add: in_range_def)
  finally show "n * seg_bytes < u64_limit" using assms(1) by (simp add: in_range_def)
  then show "n < u64_limit" by (rule seg_number_less)
qed

lemma live_loose: "live x u L s \<Longrightarrow> last_seg x (length L) \<le> t \<Longrightarrow> loose x u L t s"
  unfolding live_def loose_def by (intro conjI allI impI) (auto intro: seg_mono [of s _ "exact_file x u L _"] simp: exact_file_def)

lemma loose_mono: "loose x u L t s \<Longrightarrow> t \<le> t' \<Longrightarrow> loose x u L t' s"
  unfolding loose_def by auto

lemma loose_seg_unsync: "seg s n (loose_file x u L n) \<Longrightarrow> u' \<le> u \<Longrightarrow> seg s n (loose_file x u' L n)"
  by (erule seg_mono) (simp add: loose_file_def)

lemma loose_file_take:
  assumes "loose_file x u L n f" "cx_durable x \<le> e"
  shows "loose_file x u (take e L) n f"
proof -
  have "chunk n L = chunk n (take e L) @ drop (e - n * seg_bytes) (chunk n L)" by (simp add: chunk_take)
  then have "prefix (seg_header (cx_crc x) n @ chunk n (take e L)) (seg_header (cx_crc x) n @ chunk n L)"
    by (metis append.assoc prefixI)
  with assms(1) have "prefix (seg_header (cx_crc x) n @ chunk n (take e L)) (fd_bytes f)"
    unfolding loose_file_def by (blast intro: prefix_order.trans)
  moreover have "length (chunk n (take e L)) \<le> length (chunk n L)" by (simp add: chunk_take)
  ultimately show ?thesis using assms by (auto simp: loose_file_def min_absorb2)
qed

lemma loose_take:
  assumes "loose x u L t s" "cx_durable x \<le> e" "e \<le> length L"
  shows "loose x u (take e L) t s"
proof -
  have "cx_floor x \<le> e" using assms(1,2) by (simp add: loose_def in_range_def)
  then have "last_seg x e \<le> last_seg x (length L)" using assms(3) by (rule last_seg_mono)
  then show ?thesis
    using assms unfolding loose_def in_range_def
    by (auto simp: min_absorb2 elim!: seg_mono [OF _ loose_file_take] dest: le_trans)
qed

lemma loose_unsync: "loose x u L t s \<Longrightarrow> u' \<le> u \<Longrightarrow> loose x u' L t s"
  unfolding loose_def by (auto intro!: loose_seg_unsync [of s _ x u L u'])

lemma loose_kept: "loose x u L t s \<Longrightarrow> t \<le> u64_limit \<Longrightarrow> kept x L s"
  unfolding kept_def by (rule loose_mono [OF loose_take [OF loose_unsync]]) (auto simp: loose_def in_range_def)

lemma loose_ground: "loose x u L t s \<Longrightarrow> ground x s"
  by (simp add: loose_def)

lemma loose_remove:
  assumes "loose x u L t s" "n < u64_limit" "\<not> (first_seg x \<le> n \<and> n \<le> last_seg x (length L))"
  shows "loose x u L t (change_dir [(segment_path n, None)] s)"
  using assms in_range_seg [of x L]
  unfolding loose_def by (auto simp: ground_remove seg_remove store_simps)

lemma loose_junk:
  assumes "loose x u L t s" "n < u64_limit" "last_seg x (length L) < n" "n \<le> t" "file_ok f"
  shows "loose x u L t (set_file (dk_next s) f (fresh_entry (segment_path n) s))"
proof -
  let ?s = "fresh_entry (segment_path n) s"
  have g: "ground x s" using assms(1) by (rule loose_ground)
  have gf: "ground x ?s" using g assms(2) by (rule ground_fresh)
  have l: "lookup ?s (segment_path n) = Some (dk_next s)" by (simp add: store_simps)
  have "dk_next s \<notin> cx_keep x" using ground_kept [OF g] by blast
  then have "ground x (set_file (dk_next s) f ?s)" using gf assms(5) by (simp add: ground_set_file)
  moreover have "seg (set_file (dk_next s) f ?s) m (loose_file x u L m)"
    if "first_seg x \<le> m" "m \<le> last_seg x (length L)" for m
    using that assms in_range_seg(2) [of x L m] seg_set_file [OF gf l, of m f] seg_fresh [OF g, of m n]
    by (auto simp: loose_def)
  moreover have "lookup (set_file (dk_next s) f ?s) (segment_path m) = None" if "t < m" "m < u64_limit" for m
    using that assms segment_path_inj [of m n] by (auto simp: loose_def store_simps)
  ultimately show ?thesis using assms(1) by (simp add: loose_def)
qed

lemma loose_flush: "loose x u L t s \<Longrightarrow> loose x u L t (flush_dir WalDir s)"
  unfolding loose_def by (intro conjI allI impI) (auto simp: ground_flush seg_flush ground_ok store_simps intro!: seg_lookup)

section \<open>Opening and creating\<close>

lemma wp_sync_dir_named [wp_rules]: "Q () (flush_dir dn s) \<Longrightarrow> E s \<Longrightarrow> wp (sync_dir dn) Q E s"
  unfolding sync_dir_def by (rule wp_sync_dir)

lemma wp_io_exists [wp_rules]: "Q (lookup s p \<noteq> None) s \<Longrightarrow> wp (io_exists p) Q E s"
  unfolding io_exists_def wp_def by (simp add: fs_exists_def)

lemma wp_open_segment:
  assumes "lookup s (segment_path n) = Some i" "prefix (seg_header crc n) (bytes_of s i)" "n * seg_bytes < u64_limit"
    "Q \<lparr>h_inode = i, h_pos = SEGMENT_HEADER_LEN\<rparr> s" "E s"
  shows "wp (open_segment crc n) Q E s"
proof -
  have len: "length (seg_header crc n) = SEGMENT_HEADER_LEN" using assms(3) by (rule length_seg_header)
  have "take SEGMENT_HEADER_LEN (bytes_of s i) = seg_header crc n" "SEGMENT_HEADER_LEN \<le> length (bytes_of s i)"
    using assms(2) len by (auto simp: prefix_def)
  then show ?thesis
    unfolding open_segment_def validate_segment_header_def
    by (intro wp_rules) (use assms check_header_ok [OF assms(3), of crc] in \<open>auto intro!: wp_rules\<close>)
qed

lemma open_missing:
  assumes "lookup s (segment_path n) = None"
  shows "\<exists>e fs'. open_segment crc n \<lparr>dk_store = s, dk_faults = fs\<rparr> = (Inl e, \<lparr>dk_store = s, dk_faults = fs'\<rparr>) \<and> (nf fs \<longrightarrow> nf fs')"
  using assms by (auto simp: open_segment_def io_then_def fs_open_def call_def next_fault_def nf_def split: list.splits fault.splits)

lemma wp_open_or_create_missing:
  assumes "lookup s (segment_path n) = None" "wp (create_segment crc n) Q E s"
  shows "wp (open_or_create crc n) Q E s"
  unfolding wp_def
proof
  fix fs
  obtain e fs' where o: "open_segment crc n \<lparr>dk_store = s, dk_faults = fs\<rparr> = (Inl e, \<lparr>dk_store = s, dk_faults = fs'\<rparr>)"
    "nf fs \<longrightarrow> nf fs'" using open_missing [OF assms(1)] by blast
  let ?d = "\<lparr>dk_store = s, dk_faults = fs'\<rparr>"
  have c: "open_or_create crc n \<lparr>dk_store = s, dk_faults = fs\<rparr> = create_segment crc n ?d"
    using assms(1) by (simp add: open_or_create_def o(1) fs_exists_def)
  have "wp (create_segment crc n) Q E (dk_store ?d)" using assms(2) by simp
  then show "case open_or_create crc n \<lparr>dk_store = s, dk_faults = fs\<rparr> of
      (Inl e, d) \<Rightarrow> E (dk_store d) \<and> \<not> nf fs | (Inr h, d) \<Rightarrow> Q h (dk_store d) \<and> (nf fs \<longrightarrow> nf (dk_faults d))"
    by (cases rule: wp_cases) (use o(2) c in auto)
qed

lemma wp_open_or_create_present:
  assumes "lookup s (segment_path n) = Some i" "prefix (seg_header crc n) (bytes_of s i)" "n * seg_bytes < u64_limit"
    "Q \<lparr>h_inode = i, h_pos = SEGMENT_HEADER_LEN\<rparr> s" "E s"
  shows "wp (open_or_create crc n) Q E s"
  unfolding wp_def
proof
  fix fs
  let ?d = "\<lparr>dk_store = s, dk_faults = fs\<rparr>"
  have "wp (open_segment crc n) (\<lambda>h s'. s' = s \<and> Q h s) (\<lambda>s'. s' = s) (dk_store ?d)"
    using assms by (auto intro: wp_open_segment)
  then show "case open_or_create crc n ?d of
      (Inl e, d) \<Rightarrow> E (dk_store d) \<and> \<not> nf fs | (Inr h, d) \<Rightarrow> Q h (dk_store d) \<and> (nf fs \<longrightarrow> nf (dk_faults d))"
    by (cases rule: wp_cases) (use assms(1,5) in \<open>auto simp: open_or_create_def fs_exists_def\<close>)
qed

lemma remove_and_fail:
  assumes "lookup (dk_store d) p \<noteq> None" "E (dk_store d)" "E (change_dir [(p, None)] (dk_store d))"
    "E (flush_dir dn (change_dir [(p, None)] (dk_store d)))"
  shows "\<exists>e2 d2. io_then (remove_existing e1 p) (\<lambda>_. io_then (sync_dir dn) (\<lambda>_. io_err e)) d = (Inl e2, d2) \<and> E (dk_store d2)"
  using assms by (auto simp: io_then_def remove_existing_def fs_remove_def call_def next_fault_def sync_dir_def fs_sync_dir_def
      io_ok_def io_err_def split: list.splits fault.splits)

text \<open>A new segment; a failed attempt leaves a file under its name or none.\<close>

lemma wp_create_segment:
  assumes miss: "lookup s (segment_path n) = None" and n: "n * seg_bytes < u64_limit"
    and E: "E s" "\<And>f. file_ok f \<Longrightarrow> E (set_file (dk_next s) f (fresh_entry (segment_path n) s))"
      "\<And>f. file_ok f \<Longrightarrow> E (change_dir [(segment_path n, None)] (set_file (dk_next s) f (fresh_entry (segment_path n) s)))"
      "\<And>f. file_ok f \<Longrightarrow> E (flush_dir WalDir (change_dir [(segment_path n, None)] (set_file (dk_next s) f (fresh_entry (segment_path n) s))))"
    and Q: "Q \<lparr>h_inode = dk_next s, h_pos = SEGMENT_HEADER_LEN\<rparr>
      (flush_dir WalDir (set_file (dk_next s) (sync_file (write_file 0 (seg_header crc n) empty_file)) (fresh_entry (segment_path n) s)))"
  shows "wp (create_segment crc n) Q E s"
proof -
  let ?i = "dk_next s" and ?s = "fresh_entry (segment_path n) s"
  have overwrite: "set_file ?i f (set_file ?i g t) = set_file ?i f t" for f g t by (simp add: set_file_def)
  have at: "write_at ?i 0 bs ?s = set_file ?i (write_file 0 bs empty_file) ?s" for bs
    by (simp add: write_at_def store_simps)
  let ?good = "set_file ?i (sync_file (write_file 0 (seg_header crc n) empty_file)) ?s"
  let ?bad = "\<lambda>s'. \<exists>f. file_ok f \<and> s' = set_file ?i f ?s"
  have header: "wp (write_segment_header crc n \<lparr>h_inode = ?i, h_pos = 0\<rparr>)
      (\<lambda>h s'. h = \<lparr>h_inode = ?i, h_pos = SEGMENT_HEADER_LEN\<rparr> \<and> s' = ?good) ?bad ?s"
    unfolding write_segment_header_def
    by (intro wp_rules, rule encode_header_ok [OF n])
      (auto intro!: wp_rules exI simp: at overwrite store_simps length_seg_header [OF n])
  show ?thesis unfolding create_segment_def
  proof (intro wp_rules, rule miss)
    show "wp (\<lambda>d. case write_segment_header crc n \<lparr>h_inode = ?i, h_pos = 0\<rparr> d of
        (Inl e, d) \<Rightarrow> io_then (remove_existing (db_io ''failed to remove incomplete WAL segment '') (segment_path n))
            (\<lambda>_. io_then (sync_dir WalDir) (\<lambda>_. io_err e)) d
      | (Inr h, d) \<Rightarrow> io_then (sync_dir WalDir) (\<lambda>_. io_ok h) d) Q E ?s" (is "wp ?m Q E ?s")
      unfolding wp_def
    proof
      fix fs
      let ?d = "\<lparr>dk_store = ?s, dk_faults = fs\<rparr>"
      from header have "wp (write_segment_header crc n \<lparr>h_inode = ?i, h_pos = 0\<rparr>)
          (\<lambda>h s'. h = \<lparr>h_inode = ?i, h_pos = SEGMENT_HEADER_LEN\<rparr> \<and> s' = ?good) ?bad (dk_store ?d)" by simp
      then show "case ?m ?d of (Inl e, d) \<Rightarrow> E (dk_store d) \<and> \<not> nf fs
          | (Inr h, d) \<Rightarrow> Q h (dk_store d) \<and> (nf fs \<longrightarrow> nf (dk_faults d))"
      proof (cases rule: wp_cases)
        case (ok h d)
        have "wp (io_then (sync_dir WalDir) (\<lambda>_. io_ok h)) Q E (dk_store d)"
          by (intro wp_rules) (use ok(2) Q E(2) in auto)
        then show ?thesis by (cases rule: wp_cases) (use ok in auto)
      next
        case (err e d)
        then obtain f where f: "file_ok f" "dk_store d = set_file ?i f ?s" by auto
        have "lookup (dk_store d) (segment_path n) \<noteq> None" by (simp add: f store_simps)
        from remove_and_fail [where E = E, OF this, of WalDir "db_io ''failed to remove incomplete WAL segment ''" e]
        obtain e2 d2 where "io_then (remove_existing (db_io ''failed to remove incomplete WAL segment '') (segment_path n))
            (\<lambda>_. io_then (sync_dir WalDir) (\<lambda>_. io_err e)) d = (Inl e2 :: handle result, d2)" "E (dk_store d2)"
          using E(2-4) [of f] f by auto
        then show ?thesis using err by simp
      qed
    qed
  qed (rule E(1))
qed

section \<open>Appending\<close>

text \<open>The segment the next byte goes to is there.\<close>

definition ready :: "stream_ctx \<Rightarrow> nat \<Rightarrow> u8 list \<Rightarrow> store \<Rightarrow> bool" where
  "ready x u L s =
     (ground x s \<and> in_range x L
      \<and> (\<forall>n. first_seg x \<le> n \<longrightarrow> n \<le> length L div seg_bytes \<longrightarrow> seg s n (exact_file x u L n))
      \<and> (\<forall>n. length L div seg_bytes < n \<longrightarrow> n < u64_limit \<longrightarrow> lookup s (segment_path n) = None))"

lemma last_seg_le: "last_seg x e \<le> e div seg_bytes"
  by (simp add: last_seg_def)

lemma last_seg_cases: "last_seg x e = e div seg_bytes \<or> (last_seg x e + 1 = e div seg_bytes \<and> e mod seg_bytes = 0)"
proof (cases "e mod seg_bytes = 0 \<and> cx_floor x < e")
  case True
  then have "e div seg_bytes > 0" using div_mult_mod_eq [of e seg_bytes] by (cases "e div seg_bytes") auto
  with True show ?thesis by (simp add: last_seg_def)
qed (auto simp: last_seg_def)

lemma in_range_div:
  assumes "in_range x L"
  shows "length L div seg_bytes * seg_bytes < u64_limit" "length L div seg_bytes < u64_limit"
  using assms seg_div_bounds(1) [of "length L"] seg_number_less [of "length L div seg_bytes"]
  unfolding in_range_def by linarith+

lemma exact_seg_loose: "seg s n (exact_file x u L n) \<Longrightarrow> seg s n (loose_file x u L n)"
  by (erule seg_mono) (simp add: exact_file_def)

lemma ready_loose: "ready x u L s \<Longrightarrow> length L div seg_bytes \<le> t \<Longrightarrow> loose x u L t s"
  unfolding ready_def loose_def using last_seg_le [of x "length L"]
  by (intro conjI allI impI) (auto intro!: exact_seg_loose)

lemma exact_file_sync:
  assumes "exact_file x u L n f" "n * seg_bytes < u64_limit" "in_range x L"
  shows "exact_file x u' L n (sync_file f)"
proof -
  have "length (chunk n (take (cx_durable x) L)) \<le> length (chunk n L)" by (simp add: chunk_take)
  then show ?thesis
    using assms length_seg_header [OF assms(2), of "cx_crc x"] length_chunk_le [of n L]
    by (simp add: exact_file_def loose_file_def sync_file_def)
qed

lemma exact_file_mono: "exact_file x u L n f \<Longrightarrow> (n < u' \<Longrightarrow> n < u) \<Longrightarrow> exact_file x u' L n f"
  by (simp add: exact_file_def loose_file_def)

lemma exact_seg_mono: "seg s n (exact_file x u L n) \<Longrightarrow> u' \<le> u \<Longrightarrow> seg s n (exact_file x u' L n)"
  by (erule seg_mono) (simp add: exact_file_def loose_file_def)

lemma live_mono: "live x u L s \<Longrightarrow> u' \<le> u \<Longrightarrow> live x u' L s"
  unfolding live_def by (auto intro!: exact_seg_mono [of s _ x u L u'])

lemma live_sync:
  assumes "live x u L s" "lookup s (segment_path n) = Some i" "first_seg x \<le> n" "n \<le> last_seg x (length L)"
    and u': "\<And>m. m < u' \<Longrightarrow> m < u \<or> m = n"
  shows "live x u' L (set_file i (sync_file (dk_files s i)) s)"
proof -
  have g: "ground x s" "in_range x L" using assms(1) by (simp_all add: live_def)
  note lim = in_range_seg [OF g(2)]
  have "ground x (set_file i (sync_file (dk_files s i)) s)"
    using g(1) ground_inode [OF g(1) assms(2) lim(2) [OF assms(4)]] by (simp add: ground_set_file)
  moreover have "seg (set_file i (sync_file (dk_files s i)) s) m (exact_file x u' L m)"
    if "first_seg x \<le> m" "m \<le> last_seg x (length L)" for m
  proof -
    have m: "seg s m (exact_file x u L m)" using assms(1) that by (simp add: live_def)
    show ?thesis
    proof (cases "m = n")
      case True
      with m assms(2) have "settled s (segment_path m)" "exact_file x u L m (dk_files s i)" by (auto simp: seg_def)
      then show ?thesis
        using True seg_set_file [OF g(1) assms(2) lim(2) [OF that(2)] lim(2) [OF assms(4)]]
          exact_file_sync [OF _ lim(1) [OF that(2)] g(2)] by auto
    next
      case False
      then have "seg s m (exact_file x u' L m)" 
        using u' [of m] exact_file_mono [of x u L m _ u'] by (intro seg_mono [OF m]) auto
      then show ?thesis using False seg_set_file [OF g(1) assms(2) lim(2) [OF that(2)] lim(2) [OF assms(4)]] by simp
    qed
  qed
  ultimately show ?thesis using assms(1) by (simp add: live_def store_simps)
qed

lemma ready_create:
  assumes "live x u L s" and new: "last_seg x (length L) + 1 = length L div seg_bytes" "length L mod seg_bytes = 0"
  shows "ready x u L (flush_dir WalDir (set_file (dk_next s)
      (sync_file (write_file 0 (seg_header (cx_crc x) (length L div seg_bytes)) empty_file))
      (fresh_entry (segment_path (length L div seg_bytes)) s)))"
    (is "ready x u L (flush_dir WalDir (set_file ?i ?f (fresh_entry ?p s)))")
proof -
  let ?n = "length L div seg_bytes"
  have g: "ground x s" "in_range x L" using assms(1) by (simp_all add: live_def)
  have lim: "?n * seg_bytes < u64_limit" "?n < u64_limit" using in_range_div [OF g(2)] by simp_all
  have gf: "ground x (fresh_entry ?p s)" using g(1) lim(2) by (rule ground_fresh)
  have keep: "?i \<notin> cx_keep x" using ground_kept [OF g(1)] by blast
  have gs: "ground x (set_file ?i ?f (fresh_entry ?p s))" using gf keep by (simp add: ground_set_file)
  have l: "lookup (fresh_entry ?p s) ?p = Some ?i" by (simp add: store_simps)
  have "chunk ?n L = []" using new(2) div_mult_mod_eq [of "length L" seg_bytes] by (simp add: chunk_def)
  moreover have "\<not> ?n \<le> last_seg x (cx_durable x)"
    using last_seg_mono [of x "cx_durable x" "length L"] g(2) new(1) by (simp add: in_range_def)
  ultimately have f: "exact_file x u L ?n ?f"
    using length_seg_header [OF lim(1), of "cx_crc x"]
    by (auto simp: exact_file_def loose_file_def sync_file_def write_file_def empty_file_def Let_def)
  have "seg (flush_dir WalDir (set_file ?i ?f (fresh_entry ?p s))) m (exact_file x u L m)"
    if "first_seg x \<le> m" "m \<le> ?n" for m
  proof (cases "m = ?n")
    case True
    with f show ?thesis by (simp add: seg_flush ground_ok [OF gs] store_simps)
  next
    case False
    with that new have "m \<le> last_seg x (length L)" by simp
    then have "seg s m (exact_file x u L m)" "m < u64_limit" using assms(1) that in_range_seg [OF g(2)] by (auto simp: live_def)
    then have "seg (set_file ?i ?f (fresh_entry ?p s)) m (exact_file x u L m)"
      using False seg_set_file [OF gf l, of m ?f] seg_fresh [OF g(1), of m ?n] lim by simp
    then show ?thesis by (simp add: seg_flush ground_ok [OF gs] seg_lookup)
  qed
  moreover have "lookup (flush_dir WalDir (set_file ?i ?f (fresh_entry ?p s))) (segment_path m) = None"
    if "?n < m" "m < u64_limit" for m
    using that assms new segment_path_inj [of m ?n] by (simp add: store_simps ground_ok [OF gs] live_def)
  ultimately show ?thesis using g gs by (simp add: ready_def ground_flush)
qed

lemma wp_rollover:
  assumes live: "live x u L s" and t: "length L div seg_bytes \<le> t"
    and h: "lookup s (segment_path (last_seg x (length L))) = Some (h_inode active)"
    and Q: "\<And>h s'. ready x u L s' \<Longrightarrow> lookup s' (segment_path (length L div seg_bytes)) = Some (h_inode h) \<Longrightarrow> Q h s'"
    and E: "\<And>s'. loose x u L t s' \<Longrightarrow> E s'"
  shows "wp (if length L div seg_bytes \<noteq> last_seg x (length L)
             then io_then (fs_sync e active) (\<lambda>_. open_or_create (cx_crc x) (length L div seg_bytes))
             else io_ok active) Q E s"
proof (cases "last_seg x (length L) = length L div seg_bytes")
  case True
  then have "ready x u L s" using live by (simp add: live_def ready_def)
  then show ?thesis using True h by (auto intro!: wp_rules Q)
next
  case False
  let ?n = "length L div seg_bytes" and ?l = "last_seg x (length L)"
  have new: "?l + 1 = ?n" "length L mod seg_bytes = 0" using last_seg_cases [of x "length L"] False by auto
  have g: "in_range x L" using live by (simp add: live_def)
  have lim: "?n * seg_bytes < u64_limit" "?n < u64_limit" using in_range_div [OF g] by simp_all
  have first: "first_seg x \<le> ?l" using g by (intro last_seg_bounds) (simp add: in_range_def)
  let ?s = "set_file (h_inode active) (sync_file (dk_files s (h_inode active))) s"
  have live': "live x u L ?s" using live h first by (rule live_sync) simp_all
  have loose': "loose x u L t ?s" using live' t new by (intro live_loose) auto
  have miss: "lookup ?s (segment_path ?n) = None" using live' new lim by (simp add: live_def)
  have "wp (create_segment (cx_crc x) ?n) Q E ?s"
  proof (rule wp_create_segment [OF miss lim(1)])
    fix f assume "file_ok f"
    then have junk: "loose x u L t (set_file (dk_next ?s) f (fresh_entry (segment_path ?n) ?s))"
      using new t by (intro loose_junk [OF loose' lim(2)]) auto
    then have gone: "loose x u L t (change_dir [(segment_path ?n, None)] (set_file (dk_next ?s) f (fresh_entry (segment_path ?n) ?s)))"
      using new by (intro loose_remove lim) auto
    show "E (set_file (dk_next ?s) f (fresh_entry (segment_path ?n) ?s))" using junk by (rule E)
    show "E (change_dir [(segment_path ?n, None)] (set_file (dk_next ?s) f (fresh_entry (segment_path ?n) ?s)))" using gone by (rule E)
    show "E (flush_dir WalDir (change_dir [(segment_path ?n, None)] (set_file (dk_next ?s) f (fresh_entry (segment_path ?n) ?s))))"
      using gone by (intro E loose_flush)
  next
    have r: "ready x u L (flush_dir WalDir (set_file (dk_next ?s) (sync_file (write_file 0 (seg_header (cx_crc x) ?n) empty_file))
        (fresh_entry (segment_path ?n) ?s)))" (is "ready x u L (flush_dir WalDir ?t)")
      using live' new by (rule ready_create)
    have "store_ok ?s" using live' ground_ok unfolding live_def by blast
    then have "store_ok ?t" by (simp add: store_ok_set_file store_ok_fresh)
    then have "lookup (flush_dir WalDir ?t) (segment_path ?n) = Some (dk_next ?s)" by (simp add: store_simps)
    with r show "Q \<lparr>h_inode = dk_next ?s, h_pos = SEGMENT_HEADER_LEN\<rparr> (flush_dir WalDir ?t)" by (intro Q) simp_all
  qed (rule E [OF loose'])
  then have "wp (open_or_create (cx_crc x) ?n) Q E ?s" using miss by (rule wp_open_or_create_missing [rotated])
  then show ?thesis using False live t new by (auto intro!: wp_rules E live_loose)
qed

lemma write_file_end:
  assumes "length (fd_bytes f) = pos" "bs \<noteq> []"
  shows "write_file pos bs f = f\<lparr>fd_bytes := fd_bytes f @ bs, fd_stable := min pos (fd_stable f),
    fd_peak := max (pos + length bs) (fd_peak f)\<rparr>"
  using assms by (simp add: write_file_def Let_def)

lemma length_chunk_last: "length (chunk (length L div seg_bytes) L) = length L mod seg_bytes"
proof -
  have "length L - length L div seg_bytes * seg_bytes = length L mod seg_bytes" by (simp add: minus_div_mult_eq_mod)
  then show ?thesis using mod_less_divisor [of seg_bytes "length L"] by (simp add: length_chunk)
qed

lemma chunk_extend:
  "length L mod seg_bytes + length cs \<le> seg_bytes \<Longrightarrow>
   chunk (length L div seg_bytes) (L @ cs) = chunk (length L div seg_bytes) L @ cs"
  using length_chunk_last [of L] by (simp add: chunk_def)

lemma write_chunk:
  assumes r: "ready x u L s" and u: "u \<le> length L div seg_bytes"
    and i: "lookup s (segment_path (length L div seg_bytes)) = Some i"
    and cs: "cs \<noteq> []" "length L mod seg_bytes + length cs \<le> seg_bytes" "length L + length cs < u64_limit"
  shows "live x u (L @ cs) (write_at i (SEGMENT_HEADER_LEN + length L mod seg_bytes) cs s)"
proof -
  let ?n = "length L div seg_bytes" and ?s = "write_at i (SEGMENT_HEADER_LEN + length L mod seg_bytes) cs s"
  have g: "ground x s" "in_range x L" using r by (simp_all add: ready_def)
  have lim: "?n * seg_bytes < u64_limit" "?n < u64_limit" using in_range_div [OF g(2)] by simp_all
  have floor: "cx_floor x \<le> length L" using g(2) by (simp add: in_range_def)
  have first: "first_seg x \<le> ?n" using floor by (simp add: first_seg_def div_le_mono)
  have "length (L @ cs) \<le> (?n + 1) * seg_bytes"
    using cs(2) div_mult_mod_eq [of "length L" seg_bytes] by (simp only: length_append add_mult_distrib)
  then have last: "last_seg x (length (L @ cs)) = ?n" using floor cs(1) by (intro last_seg_append) auto
  have range: "in_range x (L @ cs)" using g(2) cs(3) by (simp add: in_range_def)
  have "seg s ?n (exact_file x u L ?n)" using r first by (simp add: ready_def)
  then have f: "settled s (segment_path ?n)" "exact_file x u L ?n (dk_files s i)" using i by (auto simp: seg_def)
  have dur: "cx_durable x \<le> length L" using g(2) by (simp add: in_range_def)
  have new: "exact_file x u (L @ cs) ?n (write_file (SEGMENT_HEADER_LEN + length L mod seg_bytes) cs (dk_files s i))"
  proof -
    have len: "length (bytes_of s i) = SEGMENT_HEADER_LEN + length L mod seg_bytes"
      using f(2) length_seg_header [OF lim(1), of "cx_crc x"] by (simp add: exact_file_def length_chunk_last)
    have "length (chunk ?n (take (cx_durable x) L)) \<le> length L mod seg_bytes"
      by (metis chunk_take length_chunk_last length_take min.cobounded1)
    then show ?thesis
      using f(2) cs u len by (simp add: write_file_end [OF len] exact_file_def loose_file_def chunk_extend dur)
  qed
  have "seg ?s m (exact_file x u (L @ cs) m)" if "first_seg x \<le> m" "m \<le> ?n" for m
  proof (cases "m = ?n")
    case True
    then show ?thesis using new f(1) seg_write_at [OF g(1) i lim(2) lim(2)] by simp
  next
    case False
    then have m: "(m + 1) * seg_bytes \<le> length L"
      using that seg_div_bounds(1) [of "length L"] by (metis Suc_eq_plus1 Suc_leI le_neq_implies_less le_trans mult_le_mono1)
    have "m < u64_limit" using that lim by simp
    moreover have "seg s m (exact_file x u L m)" using r that by (simp add: ready_def)
    moreover have "exact_file x u (L @ cs) m = exact_file x u L m"
      using chunk_append [OF m] by (simp add: fun_eq_iff exact_file_def loose_file_def dur)
    ultimately show ?thesis using False seg_write_at [OF g(1) i _ lim(2)] by simp
  qed
  moreover have "ground x ?s" using g(1) ground_inode [OF g(1) i lim(2)] by (simp add: ground_write_at)
  ultimately show ?thesis using r range last by (simp add: live_def ready_def store_simps)
qed

lemma write_nothing: "write_at i pos [] s = s"
  by (simp add: write_at_def set_file_def write_file_def)

lemma live_loose_before:
  assumes "live x u (L @ cs) s" "last_seg x (length (L @ cs)) \<le> t" "cx_durable x \<le> length L"
  shows "loose x u L t s"
  using loose_take [OF live_loose [OF assms(1,2)] assms(3)] by simp

lemma append_stream_ok:
  assumes "live x u L s" "u \<le> length L div seg_bytes" "length L + length bs < u64_limit"
    "anum = last_seg x (length L)" "lookup s (segment_path anum) = Some (h_inode active)"
    "(length L + length bs) div seg_bytes \<le> t"
  shows "case append_stream (cx_crc x) active anum (length L) bs \<lparr>dk_store = s, dk_faults = fs\<rparr> of
      ((Inr _, active', anum'), d) \<Rightarrow>
        live x u (L @ bs) (dk_store d) \<and> anum' = last_seg x (length (L @ bs))
        \<and> lookup (dk_store d) (segment_path anum') = Some (h_inode active') \<and> (nf fs \<longrightarrow> nf (dk_faults d))
    | ((Inl e, active', anum'), d) \<Rightarrow> loose x u L t (dk_store d) \<and> \<not> nf fs"
  using assms
proof (induction bs arbitrary: L s fs active anum rule: length_induct)
  case (1 bs)
  note live = "1.prems"(1) and fits = "1.prems"(3) and anum = "1.prems"(4) and h = "1.prems"(5)
  show ?case
  proof (cases "bs = []")
    case True
    then show ?thesis using "1.prems" by (simp add: append_stream.simps)
  next
    case False
    let ?n = "length L div seg_bytes" and ?off = "length L mod seg_bytes"
    define k where "k = min (seg_bytes - ?off) (length bs)"
    let ?roll = "if ?n \<noteq> anum then io_then (fs_sync (db_io ''failed to fsync filled WAL segment before rollover: '') active)
      (\<lambda>_. open_or_create (cx_crc x) ?n) else io_ok active"
    let ?put = "\<lambda>active. io_then (fs_seek (db_io ''failed to seek WAL segment for append: '') active (SEGMENT_HEADER_LEN + ?off))
      (\<lambda>active. fs_write_all (db_io ''failed to append WAL segment: '') active (take k bs))"
    let ?d = "\<lparr>dk_store = s, dk_faults = fs\<rparr>"
    have off: "?off < seg_bytes" by simp
    then have k: "0 < k" "k \<le> length bs" "?off + k \<le> seg_bytes" using False by (auto simp: k_def min_def)
    have t: "?n \<le> t" using "1.prems"(6) by (meson div_le_mono le_add1 le_trans)
    have small: "\<not> u64_limit \<le> SEGMENT_HEADER_LEN + ?off" using off by (simp add: segment_consts)
    have nowrap: "\<not> u64_limit \<le> length L + k" using fits k(2) by simp
    have chunk: "live x u (L @ cs) (write_at i (SEGMENT_HEADER_LEN + ?off) cs s')"
      if "ready x u L s'" "lookup s' (segment_path ?n) = Some i" "cs \<noteq> []" "length cs \<le> k" for s' i cs
      using that k fits by (intro write_chunk [OF that(1) "1.prems"(2) that(2,3)]) auto
    have wr: "wp (?put a) (\<lambda>a' s''. live x u (L @ take k bs) s'' \<and> lookup s'' (segment_path ?n) = Some (h_inode a')) (loose x u L t) s'"
      if r: "ready x u L s'" and i: "lookup s' (segment_path ?n) = Some (h_inode a)" for s' a
    proof -
      have l: "loose x u L t s'" using r t by (rule ready_loose)
      have dur: "cx_durable x \<le> length L" using r by (simp add: ready_def in_range_def)
      have last: "last_seg x (length (L @ cs)) \<le> t" if "length cs \<le> k" for cs
      proof -
        have "length (L @ cs) \<le> length L + length bs" using that k(2) by simp
        from div_le_mono [OF this, of seg_bytes] show ?thesis
          using last_seg_le [of x "length (L @ cs)"] "1.prems"(6) by linarith
      qed
      have "loose x u L t (write_at (h_inode a) (SEGMENT_HEADER_LEN + ?off) (take n (take k bs)) s')" for n
      proof (cases "take n (take k bs) = []")
        case True
        then show ?thesis using l by (simp only: write_nothing)
      next
        case False
        have le: "length (take n (take k bs)) \<le> k" by simp
        show ?thesis using chunk [OF r i False le] last [OF le] dur by (rule live_loose_before)
      qed
      moreover have "live x u (L @ take k bs) (write_at (h_inode a) (SEGMENT_HEADER_LEN + ?off) (take k bs) s')"
        using k False by (intro chunk [OF r i]) auto
      ultimately show ?thesis using l i by (auto intro!: wp_rules simp: store_simps simp del: take_take)
    qed
    have roll: "wp ?roll (\<lambda>a s'. ready x u L s' \<and> lookup s' (segment_path ?n) = Some (h_inode a)) (loose x u L t) (dk_store ?d)"
      unfolding anum disk.select_convs using live t h [unfolded anum] by (rule wp_rollover) auto
    show ?thesis
    using roll proof (cases rule: wp_cases)
      case (err e d)
      then show ?thesis using False by (simp add: append_stream.simps [of _ _ _ _ bs] Let_def flip: k_def)
    next
      case (ok a d)
      then have r: "ready x u L (dk_store d)" "lookup (dk_store d) (segment_path ?n) = Some (h_inode a)" by auto
      from wr [OF r] show ?thesis
      proof (cases rule: wp_cases)
        case (err e d')
        then show ?thesis using False ok small by (auto simp: append_stream.simps [of _ _ _ _ bs] Let_def simp flip: k_def)
      next
        case ok2: (ok a' d')
        have step: "append_stream (cx_crc x) active anum (length L) bs ?d
            = append_stream (cx_crc x) a' ?n (length (L @ take k bs)) (drop k bs) d'"
          using False ok ok2 small nowrap k by (simp add: append_stream.simps [of _ _ _ _ bs] Let_def min_absorb2 flip: k_def)
        have shorter: "length (drop k bs) < length bs" and len: "length L + length bs = length (L @ take k bs) + length (drop k bs)"
          using k by auto
        have last: "last_seg x (length (L @ take k bs)) = ?n"
        proof (rule last_seg_append)
          have "length (L @ take k bs) = ?n * seg_bytes + (?off + k)" using k(2) by (simp add: min_absorb2)
          then show "length (L @ take k bs) \<le> (?n + 1) * seg_bytes" using k(3) by (simp only: add_mult_distrib)
        qed (use k r(1) in \<open>auto simp: ready_def in_range_def\<close>)
        have "u \<le> length (L @ take k bs) div seg_bytes"
          using "1.prems"(2) div_le_mono [of "length L" "length (L @ take k bs)" seg_bytes] by simp
        from "1.IH" [rule_format, OF shorter, of "L @ take k bs" "dk_store d'" ?n a' "dk_faults d'", OF conjunct1 [OF ok2(2)] this]
        have IH: "case append_stream (cx_crc x) a' ?n (length (L @ take k bs)) (drop k bs) d' of
            ((Inl e, active', anum'), d) \<Rightarrow> loose x u (L @ take k bs) t (dk_store d) \<and> \<not> nf (dk_faults d')
          | ((Inr _, active', anum'), d) \<Rightarrow>
            live x u (L @ bs) (dk_store d) \<and> anum' = last_seg x (length (L @ bs))
            \<and> lookup (dk_store d) (segment_path anum') = Some (h_inode active') \<and> (nf (dk_faults d') \<longrightarrow> nf (dk_faults d))"
          using ok2(2) fits "1.prems"(6) last len by (simp only: append_assoc append_take_drop_id)
            (cases d', simp)
        have shrink: "loose x u (L @ take k bs) t s' \<Longrightarrow> loose x u L t s'" for s'
          using loose_take [of x u "L @ take k bs" t s' "length L"] r(1) by (simp add: ready_def in_range_def)
        show ?thesis
          unfolding step using IH ok(3) ok2(3) by (auto split: prod.splits sum.splits intro: shrink)
      qed
    qed
  qed
qed

end
