(* ===== verification/Wal_Truncate.thy ===== *)
theory Wal_Truncate
  imports Wal_Stream_Ops Disk_Replace
begin

text \<open>
  Cutting the stream back: whatever a failed append left behind, a truncation that succeeds
  leaves exactly the stream up to the position, and one that fails leaves the stream readable
  up to it.
\<close>

lemma wp_remove_segment [wp_rules]:
  "(lookup s (segment_path n) \<noteq> None \<Longrightarrow> Q () (change_dir [(segment_path n, None)] s)) \<Longrightarrow>
   (lookup s (segment_path n) = None \<Longrightarrow> Q () s) \<Longrightarrow> E s \<Longrightarrow> wp (remove_segment n) Q E s"
  unfolding remove_segment_def by (intro wp_rules) auto

lemma loose_drop_top:
  assumes "loose x u L n s" "n < u64_limit" "last_seg x (length L) < n"
  shows "loose x u L (n - 1) (change_dir [(segment_path n, None)] s)"
    and "lookup s (segment_path n) = None \<Longrightarrow> loose x u L (n - 1) s"
proof -
  have "loose x u L n (change_dir [(segment_path n, None)] s)" using assms by (intro loose_remove) auto
  moreover have "lookup (change_dir [(segment_path n, None)] s) (segment_path n) = None" by (simp add: store_simps)
  ultimately show "loose x u L (n - 1) (change_dir [(segment_path n, None)] s)"
    unfolding loose_def by (metis Suc_diff_1 Suc_leI assms(3) le_neq_implies_less less_nat_zero_code linorder_neqE_nat)
  show "loose x u L (n - 1) s" if "lookup s (segment_path n) = None"
    using assms(1) that unfolding loose_def by (metis Suc_diff_1 Suc_leI assms(3) le_neq_implies_less less_nat_zero_code linorder_neqE_nat)
qed

lemma wp_remove_down:
  assumes "loose x u L n s" "n < u64_limit" "last_seg x (length L) < f" "f \<le> n" "n \<le> t"
  shows "wp (remove_down n f) (\<lambda>_. loose x u L (f - 1)) (loose x u L t) s"
  using assms
proof (induction n arbitrary: s)
  case (Suc n)
  have E: "loose x u L t s" using Suc.prems by (auto intro: loose_mono)
  have step: "wp (if Suc n = f then io_ok () else if Suc n = 0 then io_err (wal_error ''WAL segment number underflow'')
      else remove_down (Suc n - 1) f) (\<lambda>_. loose x u L (f - 1)) (loose x u L t) s'"
    if "loose x u L (Suc n - 1) s'" for s'
  proof (cases "Suc n = f")
    case False
    then have "wp (remove_down n f) (\<lambda>_. loose x u L (f - 1)) (loose x u L t) s'"
      using that Suc.prems by (intro Suc.IH) simp_all
    then show ?thesis using False by simp
  next
    case True
    then show ?thesis using that by (simp add: wp_ok)
  qed
  have "last_seg x (length L) < Suc n" using Suc.prems by simp
  note drop = loose_drop_top [OF Suc.prems(1,2) this]
  show ?case
    by (subst remove_down.simps, rule wp_then, rule wp_remove_segment) (use step drop E in auto)
next
  case 0
  then show ?case by simp
qed

text \<open>The kept segment, cut to length and fsynced, and the full segments before it.\<close>

lemma loose_full_exact:
  assumes "loose_file x u L n f" "length (chunk n L) = seg_bytes" "file_ok f" "n * seg_bytes < u64_limit"
  shows "exact_file x u L n f"
proof -
  obtain r where r: "fd_bytes f = seg_header (cx_crc x) n @ chunk n L @ r"
    using assms(1) by (auto simp: loose_file_def prefix_def)
  have "length (fd_bytes f) \<le> SEGMENT_HEADER_LEN + seg_bytes"
    using assms(1,3) by (simp add: loose_file_def file_ok_def)
  then have "r = []" using assms(2) length_seg_header [OF assms(4), of "cx_crc x"] by (simp add: r)
  then show ?thesis using assms(1) r by (simp add: exact_file_def)
qed

lemma loose_cut_exact:
  assumes "loose_file x u L n f" "n * seg_bytes < u64_limit" "in_range x L"
  shows "exact_file x u' L n (sync_file (resize_file (SEGMENT_HEADER_LEN + length (chunk n L)) f))"
proof -
  obtain r where r: "fd_bytes f = seg_header (cx_crc x) n @ chunk n L @ r"
    using assms(1) by (auto simp: loose_file_def prefix_def)
  have "length (chunk n (take (cx_durable x) L)) \<le> length (chunk n L)" by (simp add: chunk_take)
  then show ?thesis
    using length_seg_header [OF assms(2), of "cx_crc x"] length_chunk_le [of n L]
    by (simp add: exact_file_def loose_file_def sync_file_def resize_file_def r)
qed

lemma loose_cut_live:
  assumes l: "loose x u L (last_seg x (length L)) s" and i: "lookup s (segment_path (last_seg x (length L))) = Some i"
  shows "live x u L (set_file i (sync_file (resize_file (SEGMENT_HEADER_LEN + length (chunk (last_seg x (length L)) L)) (dk_files s i))) s)"
    (is "live x u L (set_file i ?f s)")
proof -
  let ?n = "last_seg x (length L)"
  have g: "ground x s" "in_range x L" using l by (simp_all add: loose_def)
  have floor: "cx_floor x \<le> length L" using g(2) by (simp add: in_range_def)
  note lim = in_range_seg [OF g(2)]
  have n: "seg s ?n (loose_file x u L ?n)" using l last_seg_bounds(1) [OF floor] by (simp add: loose_def)
  have "seg (set_file i ?f s) m (exact_file x u L m)" if "first_seg x \<le> m" "m \<le> ?n" for m
  proof (cases "m = ?n")
    case True
    have "settled s (segment_path ?n)" "loose_file x u L ?n (dk_files s i)" using n i by (auto simp: seg_def)
    then show ?thesis
      using True seg_set_file [OF g(1) i lim(2) lim(2), of ?n] loose_cut_exact [OF _ lim(1) g(2)] by auto
  next
    case False
    have "(m + 1) * seg_bytes \<le> ?n * seg_bytes" using that(2) False by (intro mult_le_mono1) simp
    also have "\<dots> \<le> length L" by (rule last_seg_bounds(2) [OF floor])
    finally have full: "length (chunk m L) = seg_bytes" by (simp add: length_chunk)
    have "seg s m (loose_file x u L m)" using l that by (simp add: loose_def)
    then obtain j where j: "lookup s (segment_path m) = Some j" "settled s (segment_path m)" "loose_file x u L m (dk_files s j)"
      by (auto simp: seg_def)
    have "exact_file x u L m (dk_files s j)"
      using j(3) full store_ok_file [OF ground_ok [OF g(1)]] lim(1) [OF that(2)] by (rule loose_full_exact)
    then have "seg s m (exact_file x u L m)" using j by (auto simp: seg_def)
    then show ?thesis using False seg_set_file [OF g(1) i lim(2) [OF that(2)] lim(2) [OF order_refl]] by simp
  qed
  moreover have "ground x (set_file i ?f s)"
    using g(1) ground_inode [OF g(1) i lim(2)] store_ok_file [OF ground_ok [OF g(1)]] by (simp add: ground_set_file)
  ultimately show ?thesis using l by (simp add: live_def loose_def store_simps)
qed

lemma loose_resize:
  assumes l: "loose x u L t s" and i: "lookup s (segment_path (last_seg x (length L))) = Some i"
    and t: "last_seg x (length L) \<le> t"
  shows "loose x u L t (set_file i (resize_file (SEGMENT_HEADER_LEN + length (chunk (last_seg x (length L)) L)) (dk_files s i)) s)"
    (is "loose x u L t (set_file i ?f s)")
proof -
  let ?n = "last_seg x (length L)"
  have g: "ground x s" "in_range x L" using l by (simp_all add: loose_def)
  have floor: "cx_floor x \<le> length L" using g(2) by (simp add: in_range_def)
  note lim = in_range_seg [OF g(2)]
  have n: "seg s ?n (loose_file x u L ?n)" using l last_seg_bounds(1) [OF floor] by (simp add: loose_def)
  then have "settled s (segment_path ?n)" and old: "loose_file x u L ?n (dk_files s i)" using i by (auto simp: seg_def)
  moreover obtain r where "bytes_of s i = seg_header (cx_crc x) ?n @ chunk ?n L @ r"
    using old by (auto simp: loose_file_def prefix_def)
  moreover have "length (chunk ?n (take (cx_durable x) L)) \<le> length (chunk ?n L)" by (simp add: chunk_take)
  ultimately have "loose_file x u L ?n ?f"
    using length_seg_header [OF lim(1) [OF order_refl], of "cx_crc x"] length_chunk_le [of ?n L]
    by (simp add: loose_file_def resize_file_def)
  then have "seg (set_file i ?f s) m (loose_file x u L m)" if "first_seg x \<le> m" "m \<le> ?n" for m
    using l that \<open>settled s (segment_path ?n)\<close> seg_set_file [OF g(1) i lim(2) [OF that(2)] lim(2) [OF order_refl]]
    by (auto simp: loose_def)
  moreover have "ground x (set_file i ?f s)"
    using g(1) ground_inode [OF g(1) i lim(2)] store_ok_file [OF ground_ok [OF g(1)]] by (simp add: ground_set_file)
  ultimately show ?thesis using l by (simp add: loose_def store_simps)
qed

lemma keep_segment:
  "(if e > 0 \<and> e mod seg_bytes = 0 \<and> cx_floor x < e then e div seg_bytes - 1 else e div seg_bytes) = last_seg x e"
  by (auto simp: last_seg_def)

lemma keep_payload:
  assumes "cx_floor x \<le> length L"
  shows "(if length L > 0 \<and> length L mod seg_bytes = 0 \<and> cx_floor x < length L then seg_bytes else length L mod seg_bytes)
    = length (chunk (last_seg x (length L)) L)"
proof (cases "length L mod seg_bytes = 0 \<and> cx_floor x < length L")
  case True
  then obtain k where k: "length L div seg_bytes = Suc k" using div_mult_mod_eq [of "length L" seg_bytes]
    by (cases "length L div seg_bytes") auto
  with True have "length L = Suc k * seg_bytes" using div_mult_mod_eq [of "length L" seg_bytes] by simp
  then show ?thesis using True k by (auto simp: last_seg_def length_chunk)
next
  case False
  then have "last_seg x (length L) = length L div seg_bytes" by (auto simp: last_seg_def)
  then show ?thesis using False by (auto simp: length_chunk_last)
qed

text \<open>The last step: the kept segment is cut to length and fsynced.\<close>

lemma wp_cut_last:
  assumes l: "loose x u L (last_seg x (length L)) s"
    and Q: "\<And>h s'. live x u L s' \<Longrightarrow> lookup s' (segment_path (last_seg x (length L))) = Some (h_inode h)
      \<Longrightarrow> Q (h, last_seg x (length L)) s'"
    and E: "\<And>s'. loose x u L (last_seg x (length L)) s' \<Longrightarrow> E s'"
  shows "wp (io_then (open_or_create (cx_crc x) (last_seg x (length L))) (\<lambda>file.
      if SEGMENT_HEADER_LEN + length (chunk (last_seg x (length L)) L) \<ge> u64_limit then io_err e
      else io_then (fs_set_len e2 file (SEGMENT_HEADER_LEN + length (chunk (last_seg x (length L)) L))) (\<lambda>_.
           io_then (fs_sync e3 file) (\<lambda>_. io_ok (file, last_seg x (length L)))))) Q E s"
proof -
  let ?n = "last_seg x (length L)"
  let ?len = "SEGMENT_HEADER_LEN + length (chunk ?n L)"
  have range: "in_range x L" using l by (simp add: loose_def)
  note lim = in_range_seg [OF range order_refl]
  have "first_seg x \<le> ?n" using range by (intro last_seg_bounds) (simp add: in_range_def)
  then have "seg s ?n (loose_file x u L ?n)" using l by (simp add: loose_def)
  then obtain i where i: "lookup s (segment_path ?n) = Some i" "loose_file x u L ?n (dk_files s i)" by (auto simp: seg_def)
  then have pre: "prefix (seg_header (cx_crc x) ?n) (bytes_of s i)"
    unfolding loose_file_def using append_prefixD by blast
  have small: "\<not> u64_limit \<le> ?len" using length_chunk_le [of ?n L] by (simp add: segment_consts)
  let ?h = "\<lparr>h_inode = i, h_pos = SEGMENT_HEADER_LEN\<rparr>"
  have "Q (?h, ?n) (set_file i (sync_file (resize_file ?len (dk_files s i))) s)"
    using loose_cut_live [OF l i(1)] i(1) by (intro Q) (simp_all add: store_simps)
  then have "wp (io_then (fs_set_len e2 ?h ?len) (\<lambda>_. io_then (fs_sync e3 ?h) (\<lambda>_. io_ok (?h, ?n)))) Q E s"
    using E [OF l] E [OF loose_resize [OF l i(1) order_refl]] by (intro wp_rules) (simp_all add: store_simps)
  then show ?thesis
    using small E [OF l] by (intro wp_then) (rule wp_open_or_create_present [OF i(1) pre lim(1)]; simp)
qed

text \<open>\<open>t\<close> bounds the segment files there are, \<open>old_end\<close> the position the code says was reached.\<close>

lemma wp_truncate_stream:
  assumes l: "loose x u L t s" and t: "t = old_end div seg_bytes" "old_end < u64_limit" "length L \<le> old_end"
    and Q: "\<And>h s'. live x u L s' \<Longrightarrow> lookup s' (segment_path (last_seg x (length L))) = Some (h_inode h)
      \<Longrightarrow> Q (h, last_seg x (length L)) s'"
    and E: "\<And>s'. loose x u L t s' \<Longrightarrow> E s'"
  shows "wp (truncate_stream (cx_crc x) (length L) old_end (cx_floor x)) Q E s"
proof -
  let ?n = "last_seg x (length L)"
  have range: "in_range x L" using l by (simp add: loose_def)
  then have floor: "cx_floor x \<le> length L" by (simp add: in_range_def)
  have nt: "?n \<le> t"
    using last_seg_le [of x "length L"] div_le_mono [OF t(3), of seg_bytes] t(1) by linarith
  have tlim: "t < u64_limit" "?n + 1 < u64_limit"
    using t(1,2) in_range_seg [OF range order_refl] div_le_dividend [of old_end seg_bytes] by (auto simp: segment_consts)
  have pos: "\<not> ((0 < length L \<and> length L mod seg_bytes = 0 \<and> cx_floor x < length L) \<and> length L div seg_bytes = 0)"
    by (metis add_cancel_right_left div_mult_mod_eq less_numeral_extra(3) mult_zero_left)
  have E': "loose x u L ?n s' \<Longrightarrow> E s'" for s' using nt by (blast intro: E loose_mono)
  have "wp (if ?n + 1 \<le> t then io_then (remove_down t (?n + 1)) (\<lambda>_. sync_dir WalDir) else io_ok ()) (\<lambda>_. loose x u L ?n) E s"
  proof (cases "?n + 1 \<le> t")
    case True
    have "wp (remove_down t (?n + 1)) (\<lambda>_. loose x u L ?n) (loose x u L t) s"
      using wp_remove_down [OF l tlim(1) _ True order_refl] by simp
    then have "wp (remove_down t (?n + 1)) (\<lambda>_. wp (sync_dir WalDir) (\<lambda>_. loose x u L ?n) E) E s"
      by (rule wp_conseq) (auto intro!: wp_sync_dir_named loose_flush intro: E E')
    then show ?thesis using True by (simp add: wp_then)
  next
    case False
    with nt have "t = ?n" by simp
    then show ?thesis using l by (simp add: wp_ok)
  qed
  note remove = this
  have "\<not> u64_limit \<le> ?n + 1" using tlim(2) by simp
  then show ?thesis
    unfolding truncate_stream_def Let_def keep_segment keep_payload [OF floor] t(1) [symmetric] if_not_P [OF pos]
    by (simp only: if_False, intro wp_then) (rule wp_conseq [OF remove], auto intro!: wp_cut_last Q E')
qed

lemma loose_durable:
  assumes "loose x u L t s" "length L = cx_durable x"
  shows "loose x u' L t s"
proof -
  have "loose_file x u' L n f" if "loose_file x u L n f" "n \<le> last_seg x (length L)" for n f
    using that assms(2) by (simp add: loose_file_def)
  then show ?thesis using assms(1) unfolding loose_def by (auto intro: seg_mono)
qed

end
