(* ===== verification/Wal_Manager.thy ===== *)
theory Wal_Manager
  imports Wal_Segment Clog_File
begin

text \<open>
  The file-backed log manager: crates/wal/src/file.rs and the trait defaults of
  crates/wal/src/lib.rs. One call of the manager is one function from the state behind its mutex
  and the disk to a result, a state and a disk. The iterator of a replay is the list of the items
  it yields when it is run to its end. \<open>log_env\<close> holds the parameters of the record codec and of the
  JSON codec of the status file.
\<close>

section \<open>State\<close>

record 'b log_env =
  le_wal :: "'b wal_env"
  le_clog_to_vec :: "clog_payload \<Rightarrow> u8 list option"
  le_clog_from_slice :: "u8 list \<Rightarrow> clog_payload option"

abbreviation le_crc :: "'b log_env \<Rightarrow> u8 list \<Rightarrow> u32" where
  "le_crc env \<equiv> we_crc (le_wal env)"

record wal_state =
  ws_active :: handle
  ws_active_number :: nat
  ws_unflushed_first_segment :: "nat option"
  ws_replay_floor :: nat
  ws_written_lsn :: nat
  ws_flushed_lsn :: nat
  ws_clog :: clog
  ws_pending_commits :: "u64 list"
  ws_vacuum_floor :: txn_id
  ws_clog_loaded_from_snapshot :: bool
  ws_recycle_boundary :: "nat option"
  ws_poisoned :: "db_error option"

record wal_position =
  wp_replay_from :: nat
  wp_record_lsn :: nat

definition wal_position_new :: "nat \<Rightarrow> nat \<Rightarrow> wal_position result" where
  "wal_position_new replay_from record_lsn =
     (if replay_from \<ge> record_lsn then Inl (wal_error ''WAL record position must have a start before its end'')
      else Inr \<lparr>wp_replay_from = replay_from, wp_record_lsn = record_lsn\<rparr>)"

record 'b wal_entry =
  en_replay_from :: nat
  en_record :: "'b wal_record"

section \<open>Frames in the stream\<close>

definition represents_transaction :: "'b wal_record \<Rightarrow> bool" where
  "represents_transaction r =
     (wr_txn_id r \<noteq> 0 \<and> (case wr_kind r of Checkpoint _ _ _ \<Rightarrow> False | _ \<Rightarrow> True))"

definition fold_status :: "'b wal_record \<Rightarrow> clog \<Rightarrow> clog" where
  "fold_status r c =
     (case wr_kind r of
        Commit \<Rightarrow> set_committed (wr_txn_id r) c
      | CommitWithSubxids subxids \<Rightarrow> fold set_committed subxids (set_committed (wr_txn_id r) c)
      | Abort \<Rightarrow> set_aborted (wr_txn_id r) c
      | _ \<Rightarrow> if represents_transaction r \<and> clog_status c (wr_txn_id r) = InProgress
             then set_in_progress (wr_txn_id r) c else c)"

definition read_frame :: "'b wal_env \<Rightarrow> segment_reader \<Rightarrow> ('b wal_record option \<times> segment_reader) io" where
  "read_frame env r =
     (if remaining r = 0 then io_ok (None, r)
      else
        let start = sr_position r in
        io_then (read_exact_vec (we_crc env) HEADER_LEN r) (\<lambda>(h, r). case h of
          None \<Rightarrow> io_ok (None, r)
        | Some header \<Rightarrow>
            io_then (io_lift (frame_len_from_header header)) (\<lambda>frame_len.
            if frame_len < HEADER_LEN then io_err (wal_error ''WAL frame length is shorter than its header'')
            else
              io_then (read_exact_vec (we_crc env) (frame_len - HEADER_LEN) r) (\<lambda>(b, r). case b of
                None \<Rightarrow> io_ok (None, r)
              | Some rest \<Rightarrow>
                  io_then (io_lift (decode_record env (header @ rest))) (\<lambda>rec.
                  if frame_len \<ge> u64_limit then io_err (wal_error ''WAL frame length does not fit u64'')
                  else if start + frame_len \<ge> u64_limit then io_err (wal_error ''WAL frame end overflows'')
                  else if unat (wr_lsn rec) \<noteq> start + frame_len \<or> sr_position r \<noteq> start + frame_len
                  then io_err (wal_error ''stored WAL LSN does not match its byte position'')
                  else io_ok (Some rec, r))))))"

text \<open>A frame moves the reader forward and leaves its end alone; this is why the loops below end.\<close>

lemma io_then_Inr: "io_then m f d = (Inr y, d') \<longleftrightarrow> (\<exists>x d1. m d = (Inr x, d1) \<and> f x d1 = (Inr y, d'))"
  by (auto simp: io_then_def split: prod.splits sum.splits)

lemma ensure_file_end: "ensure_file crc n off r d = (Inr r', d') \<Longrightarrow> sr_end r' = sr_end r"
  by (auto simp: ensure_file_def io_then_Inr io_ok_def io_err_def split: if_splits)

lemma read_exact_into_end: "read_exact_into crc n dn r d = (Inr (bs, r'), d') \<Longrightarrow> sr_end r' = sr_end r"
proof (induction crc n dn r arbitrary: d rule: read_exact_into.induct)
  case (1 crc n dn r)
  from "1.prems" show ?case
    by (subst (asm) read_exact_into.simps)
      (auto simp: io_then_Inr Let_def io_ok_def io_err_def split: if_splits option.splits
        dest!: ensure_file_end "1.IH" [rotated -1])
qed

lemma read_exact_vec_end: "read_exact_vec crc n r d = (Inr (b, r'), d') \<Longrightarrow> sr_end r' = sr_end r"
  by (auto simp: read_exact_vec_def io_then_Inr io_ok_def io_err_def split: if_splits dest: read_exact_into_end)

lemma frame_len_pos: "frame_len_from_header h = Inr n \<Longrightarrow> HEADER_LEN < n"
  by (auto simp: frame_len_from_header_def chain_iff CRC_LEN_def split: if_splits)

lemma read_frame_progress:
  "read_frame env r d = (Inr (Some rec, r'), d') \<Longrightarrow> sr_position r < sr_position r' \<and> sr_end r' = sr_end r"
  by (auto simp: read_frame_def io_then_Inr io_ok_def io_err_def io_lift_def Let_def
      split: if_splits option.splits dest!: read_exact_vec_end frame_len_pos)

lemma read_frame_measure:
  assumes "(Inr (Some rec, r'), d') = read_frame env r d"
  shows "remaining r' < remaining r"
proof -
  have "remaining r > 0" using assms by (auto simp: read_frame_def io_ok_def split: if_splits)
  with read_frame_progress [OF assms [symmetric]] show ?thesis by (auto simp: remaining_def)
qed

function scan_stream ::
  "'b wal_env \<Rightarrow> ('b wal_record \<Rightarrow> 'c \<Rightarrow> 'c) \<Rightarrow> segment_reader \<Rightarrow> 'c \<Rightarrow> disk \<Rightarrow> 'c result \<times> disk" where
  "scan_stream env visit r acc d =
     (if remaining r > 0 then
        case read_frame env r d of
          (Inl e, d) \<Rightarrow> (Inl e, d)
        | (Inr (None, r), d) \<Rightarrow> (Inl (wal_error ''durable WAL record is incomplete''), d)
        | (Inr (Some rec, r), d) \<Rightarrow> scan_stream env visit r (visit rec acc) d
      else (Inr acc, d))"
  by pat_completeness auto
termination
  by (relation "measure (\<lambda>(env, visit, r, acc, d). remaining r)") (auto dest: read_frame_measure)

declare scan_stream.simps [simp del]

function replay_items ::
  "'b wal_env \<Rightarrow> nat \<Rightarrow> segment_reader \<Rightarrow> disk \<Rightarrow> 'b wal_entry result list \<times> disk" where
  "replay_items env threshold r d =
     (case read_frame env r d of
        (Inl e, d) \<Rightarrow> ([Inl e], d)
      | (Inr (None, r'), d) \<Rightarrow> ([], d)
      | (Inr (Some rec, r'), d) \<Rightarrow>
          (case replay_items env threshold r' d of (items, d) \<Rightarrow>
            (if sr_position r < threshold then items
             else Inr \<lparr>en_replay_from = sr_position r, en_record = rec\<rparr> # items, d)))"
  by pat_completeness auto
termination
  by (relation "measure (\<lambda>(env, threshold, r, d). remaining r)") (auto dest: read_frame_measure)

declare replay_items.simps [simp del]

section \<open>The status file\<close>

definition MAX_CLOG_FILE_BYTES :: nat where
  "MAX_CLOG_FILE_BYTES = CLOG_HEADER_LEN + MAX_CLOG_PAYLOAD_BYTES"

definition clog_path :: path where "clog_path = (DataDir, ''clog.dat'')"
definition clog_tmp_path :: path where "clog_tmp_path = (DataDir, ''clog.tmp'')"

definition load_clog_snapshot :: "'b log_env \<Rightarrow> clog_snapshot option io" where
  "load_clog_snapshot env =
     io_then (io_exists clog_path) (\<lambda>found.
     if \<not> found then io_ok None
     else
       io_then (fs_open (db_io ''failed to read CLOG file '') clog_path) (\<lambda>file.
       io_then (fs_len (db_io ''failed to stat CLOG file: '') file) (\<lambda>len.
       if len > MAX_CLOG_FILE_BYTES then io_err (wal_error ''CLOG file exceeds the 64 MiB payload limit'')
       else
         io_then (fs_read (db_io ''failed to read CLOG file: '') clog_path) (\<lambda>bytes.
         if length bytes > MAX_CLOG_FILE_BYTES then io_err (wal_error ''CLOG file exceeds the 64 MiB payload limit'')
         else io_then (io_lift (decode_clog (le_crc env) (le_clog_from_slice env) bytes)) (\<lambda>s. io_ok (Some s))))))"

definition write_clog_file :: "'b log_env \<Rightarrow> clog_snapshot \<Rightarrow> unit io" where
  "write_clog_file env snapshot =
     io_then (io_lift (encode_clog (le_crc env) (le_clog_to_vec env) snapshot)) (\<lambda>bytes.
     io_then (fs_create_truncate (db_io ''failed to open CLOG file '') clog_tmp_path) (\<lambda>h.
     io_then (fs_write_all (db_io ''failed to write CLOG file '') h bytes) (\<lambda>h.
     io_then (fs_sync (db_io ''failed to fsync CLOG file '') h) (\<lambda>_.
     io_then (fs_rename (db_io ''failed to replace CLOG file '') clog_tmp_path clog_path) (\<lambda>_.
     sync_dir DataDir)))))"

section \<open>Opening\<close>

definition seed_clog ::
  "nat \<Rightarrow> nat \<Rightarrow> clog_snapshot option \<Rightarrow> (clog \<times> txn_id \<times> bool \<times> nat) result" where
  "seed_clog replay_floor end_lsn snapshot =
     (case snapshot of
        Some s \<Rightarrow>
          if unat (cs_clog_lsn s) < replay_floor \<or> unat (cs_authorized_replay_floor s) < replay_floor
          then Inl (wal_error ''CLOG snapshot does not cover the retained WAL replay floor'')
          else if unat (cs_clog_lsn s) > end_lsn
          then Inl (wal_error ''CLOG snapshot is ahead of the WAL stream'')
          else Inr (clog_from_snapshot s, cs_vacuum_floor s, True, unat (cs_clog_lsn s))
      | None \<Rightarrow>
          if replay_floor = 0 then Inr (clog_new, FIRST_NORMAL_XID, False, 0)
          else Inl (wal_error ''CLOG snapshot is missing after WAL segments were recycled''))"

text \<open>The parts of \<open>open\<close>: the end of the stream, the segments, and the state of the manager.\<close>

definition trim_tail :: "(u8 list \<Rightarrow> u32) \<Rightarrow> wal_meta \<Rightarrow> unit io" where
  "trim_tail crc meta =
     io_then (discover_end crc (wm_replay_floor meta) (wm_durable_end meta)) (\<lambda>physical_end.
     if wm_durable_end meta > physical_end
     then io_err (wal_error ''WAL durable end is beyond the retained stream'')
     else if physical_end > wm_durable_end meta
     then io_then (truncate_stream crc (wm_durable_end meta) physical_end (wm_replay_floor meta)) (\<lambda>_. io_ok ())
     else io_ok ())"

definition open_segments :: "(u8 list \<Rightarrow> u32) \<Rightarrow> wal_meta io" where
  "open_segments crc =
     io_then (load_meta crc) (\<lambda>meta.
     io_then (recycle_orphaned_segments (wm_replay_floor meta)) (\<lambda>_.
     if wm_replay_floor meta > wm_durable_end meta
     then io_err (wal_error ''WAL replay floor is beyond its durable end'')
     else io_then (trim_tail crc meta) (\<lambda>_. io_ok meta)))"

definition open_active :: "(u8 list \<Rightarrow> u32) \<Rightarrow> nat \<Rightarrow> (handle \<times> nat) io" where
  "open_active crc end_lsn =
     (let next_number = end_lsn div SEGMENT_PAYLOAD_BYTES in
      io_then (io_exists (segment_path next_number)) (\<lambda>next_exists.
      io_then (if end_lsn mod SEGMENT_PAYLOAD_BYTES = 0 \<and> next_exists then io_ok next_number
               else io_lift (active_segment_number end_lsn)) (\<lambda>active_number.
      io_then (open_segment crc active_number) (\<lambda>active. io_ok (active, active_number)))))"

definition restore :: "'b log_env \<Rightarrow> wal_meta \<Rightarrow> wal_state io" where
  "restore env meta =
     (let end_lsn = wm_durable_end meta in
      io_then (load_clog_snapshot env) (\<lambda>snapshot.
      io_then (io_lift (seed_clog (wm_replay_floor meta) end_lsn snapshot)) (\<lambda>(clog, vacuum_floor, loaded, clog_lsn).
      io_then (scan_stream (le_wal env) fold_status (segment_reader_new clog_lsn end_lsn) clog) (\<lambda>clog.
      io_then (open_active (le_crc env) end_lsn) (\<lambda>(active, active_number).
      io_ok \<lparr>ws_active = active, ws_active_number = active_number, ws_unflushed_first_segment = None,
             ws_replay_floor = wm_replay_floor meta, ws_written_lsn = end_lsn, ws_flushed_lsn = end_lsn,
             ws_clog = clog, ws_pending_commits = [], ws_vacuum_floor = vacuum_floor,
             ws_clog_loaded_from_snapshot = loaded,
             ws_recycle_boundary = map_option (\<lambda>s. unat (cs_authorized_replay_floor s)) snapshot,
             ws_poisoned = None\<rparr>)))))"

definition wal_open :: "'b log_env \<Rightarrow> wal_state io" where
  "wal_open env =
     io_then (io_exists (DataDir, ''wal.dat'')) (\<lambda>legacy.
     if legacy then io_err (wal_error ''unsupported legacy single-file WAL; rebuild the data directory'')
     else
       io_then (initialize (le_crc env)) (\<lambda>_.
       io_then (open_segments (le_crc env)) (\<lambda>meta.
       restore env meta)))"

section \<open>Appending\<close>

type_synonym 'a wal_op = "wal_state \<Rightarrow> disk \<Rightarrow> 'a result \<times> wal_state \<times> disk"

text \<open>\<open>lock_state\<close>: a poisoned manager answers every call with the error that poisoned it.\<close>

definition locked :: "'a wal_op \<Rightarrow> 'a wal_op" where
  "locked f st d = (case ws_poisoned st of Some e \<Rightarrow> (Inl e, st, d) | None \<Rightarrow> f st d)"

definition repair_failed_append :: "(u8 list \<Rightarrow> u32) \<Rightarrow> nat \<Rightarrow> nat \<Rightarrow> unit wal_op" where
  "repair_failed_append crc start attempted_end st d =
     (case truncate_stream crc start attempted_end (ws_replay_floor st) d of
        (Inr (active, active_number), d) \<Rightarrow>
          (Inr (), st\<lparr>ws_active := active, ws_active_number := active_number,
             ws_unflushed_first_segment :=
               (case ws_unflushed_first_segment st of
                  Some first \<Rightarrow> if first > active_number then None else Some first
                | None \<Rightarrow> None)\<rparr>, d)
      | (Inl e, d) \<Rightarrow> (Inl e, st\<lparr>ws_poisoned := Some e\<rparr>, d))"

definition is_settlement :: "'b wal_record_kind \<Rightarrow> bool" where
  "is_settlement k = (case k of Commit \<Rightarrow> True | CommitWithSubxids _ \<Rightarrow> True | Abort \<Rightarrow> True | _ \<Rightarrow> False)"

definition mark_writer :: "'b wal_record \<Rightarrow> clog \<Rightarrow> clog" where
  "mark_writer r c =
     (if wr_kind r = Abort then set_aborted (wr_txn_id r) c
      else if represents_transaction r then set_in_progress (wr_txn_id r) c else c)"

definition staged_commits :: "'b wal_record \<Rightarrow> u64 list" where
  "staged_commits r =
     (case wr_kind r of Commit \<Rightarrow> [wr_txn_id r] | CommitWithSubxids subxids \<Rightarrow> wr_txn_id r # subxids | _ \<Rightarrow> [])"

definition append_positioned :: "'b log_env \<Rightarrow> 'b wal_record \<Rightarrow> wal_position wal_op" where
  "append_positioned env r st d =
     (if represents_transaction r \<and> \<not> is_settlement (wr_kind r) \<and> must_backpressure_new_writer (ws_clog st) (wr_txn_id r)
      then (Inl (db_wal ProgramLimitExceeded ''transaction status window is pinned by an active writer; retry after older transactions finish''), st, d)
      else
        let st = st\<lparr>ws_clog := mark_writer r (ws_clog st)\<rparr> in
        case ws_poisoned st of Some e \<Rightarrow> (Inl e, st, d)
        | None \<Rightarrow>
          let start = ws_written_lsn st in
          case encode_record_at (le_wal env) r (of_nat start) of
            Inl e \<Rightarrow> (Inl e, st, d)
          | Inr (r, bytes) \<Rightarrow>
              (case append_stream (le_crc env) (ws_active st) (ws_active_number st) start bytes d of
                 ((Inl e, active, active_number), d) \<Rightarrow>
                   (case repair_failed_append (le_crc env) start (unat (wr_lsn r))
                           (st\<lparr>ws_active := active, ws_active_number := active_number\<rparr>) d of
                      (Inl e', st, d) \<Rightarrow> (Inl e', st, d)
                    | (Inr _, st, d) \<Rightarrow> (Inl e, st, d))
               | ((Inr _, active, active_number), d) \<Rightarrow>
                   (wal_position_new start (unat (wr_lsn r)),
                    st\<lparr>ws_active := active, ws_active_number := active_number,
                       ws_unflushed_first_segment :=
                         (case ws_unflushed_first_segment st of
                            Some first \<Rightarrow> Some first | None \<Rightarrow> Some (start div SEGMENT_PAYLOAD_BYTES)),
                       ws_pending_commits := List.union (staged_commits r) (ws_pending_commits st),
                       ws_written_lsn := unat (wr_lsn r)\<rparr>, d)))"

section \<open>Flushing\<close>

definition correct_failed_flush :: "(u8 list \<Rightarrow> u32) \<Rightarrow> unit wal_op" where
  "correct_failed_flush crc st d =
     (case truncate_stream crc (ws_flushed_lsn st) (ws_written_lsn st) (ws_replay_floor st) d of
        (Inl e, d) \<Rightarrow> (Inl e, st, d)
      | (Inr (active, active_number), d) \<Rightarrow>
          (Inr (), st\<lparr>ws_active := active, ws_active_number := active_number,
             ws_written_lsn := ws_flushed_lsn st, ws_pending_commits := [],
             ws_unflushed_first_segment := None\<rparr>, d))"

function sync_segments :: "(u8 list \<Rightarrow> u32) \<Rightarrow> handle \<Rightarrow> nat \<Rightarrow> nat \<Rightarrow> unit io" where
  "sync_segments crc active active_number number =
     (if number = active_number then fs_sync (db_io ''failed to fsync active WAL segment: '') active
      else
        io_then (open_segment crc number) (\<lambda>file.
        io_then (fs_sync (db_io ''failed to fsync filled WAL segment: '') file) (\<lambda>_.
        if number + 1 \<ge> u64_limit then io_err (wal_error ''WAL segment number overflow'')
        else sync_segments crc active active_number (number + 1))))"
  by pat_completeness auto
termination
  by (relation "measure (\<lambda>(crc, active, active_number, number). u64_limit - number)") auto

declare sync_segments.simps [simp del]

definition sync_unflushed :: "(u8 list \<Rightarrow> u32) \<Rightarrow> wal_state \<Rightarrow> unit io" where
  "sync_unflushed crc st =
     (case ws_unflushed_first_segment st of
        None \<Rightarrow> io_ok ()
      | Some number \<Rightarrow> sync_segments crc (ws_active st) (ws_active_number st) number)"

text \<open>A failure of the fsync or of the metadata: cut the stream back to the durable end and poison.\<close>

definition fail_flush :: "(u8 list \<Rightarrow> u32) \<Rightarrow> string \<Rightarrow> db_error \<Rightarrow> nat wal_op" where
  "fail_flush crc what e st d =
     (case correct_failed_flush crc st d of
        (Inl correction, st, d) \<Rightarrow> (Inl correction, st\<lparr>ws_poisoned := Some correction\<rparr>, d)
      | (Inr _, st, d) \<Rightarrow> (Inl e, st\<lparr>ws_poisoned := Some (wal_error (what @ message e))\<rparr>, d))"

definition flush_done :: "nat wal_op" where
  "flush_done st d =
     (Inr (ws_written_lsn st),
      st\<lparr>ws_flushed_lsn := ws_written_lsn st, ws_pending_commits := [],
         ws_clog := fold set_committed (ws_pending_commits st) (ws_clog st),
         ws_unflushed_first_segment := None\<rparr>, d)"

definition flush :: "'b log_env \<Rightarrow> nat wal_op" where
  "flush env = locked (\<lambda>st d.
     case sync_unflushed (le_crc env) st d of
       (Inl e, d) \<Rightarrow> fail_flush (le_crc env) ''WAL manager is unavailable after durability failure: '' e st d
     | (Inr _, d) \<Rightarrow>
         if ws_written_lsn st > ws_flushed_lsn st then
           (case write_meta_with_outcome (le_crc env)
                   \<lparr>wm_replay_floor = ws_replay_floor st, wm_durable_end = ws_written_lsn st\<rparr> d of
              (Inl failure, d) \<Rightarrow>
                if mwf_replacement_visible failure then
                  let e = db_durability_outcome_unknown
                            (''WAL durable-end replacement has an unknown persistence outcome: '' @ message (mwf_error failure))
                  in (Inl e, st\<lparr>ws_poisoned := Some e\<rparr>, d)
                else fail_flush (le_crc env) ''WAL manager is unavailable after durable-end update failure: '' (mwf_error failure) st d
            | (Inr _, d) \<Rightarrow> flush_done st d)
         else flush_done st d)"

section \<open>Checkpoints and recycling\<close>

definition recycle_through :: "'b log_env \<Rightarrow> nat \<Rightarrow> unit wal_op" where
  "recycle_through env lsn = locked (\<lambda>st d.
     if lsn < ws_replay_floor st \<or> lsn > ws_flushed_lsn st
     then (Inl (wal_error ''WAL recycle boundary is outside the durable retained range''), st, d)
     else if lsn = ws_replay_floor st
     then (case recycle_orphaned_segments lsn d of (r, d) \<Rightarrow> (r, st, d))
     else if ws_recycle_boundary st \<noteq> Some lsn
     then (Inl (wal_error ''WAL recycle boundary was not established by the latest CLOG snapshot''), st, d)
     else
       let number = lsn div SEGMENT_PAYLOAD_BYTES;
           successor = (if lsn = ws_written_lsn st \<and> lsn mod SEGMENT_PAYLOAD_BYTES = 0 \<and> \<not> fs_exists (segment_path number) d
                        then io_then (create_segment (le_crc env) number) (\<lambda>active. io_ok (active, number))
                        else io_ok (ws_active st, ws_active_number st))
       in case successor d of
            (Inl e, d) \<Rightarrow> (Inl e, st, d)
          | (Inr (active, active_number), d) \<Rightarrow>
              let st = st\<lparr>ws_active := active, ws_active_number := active_number\<rparr> in
              (case write_meta_with_outcome (le_crc env)
                      \<lparr>wm_replay_floor = lsn, wm_durable_end = ws_flushed_lsn st\<rparr> d of
                 (Inl failure, d) \<Rightarrow>
                   (Inl (mwf_error failure),
                    st\<lparr>ws_poisoned := Some (wal_error (''WAL manager is unavailable after replay-floor update failure: ''
                                                  @ message (mwf_error failure)))\<rparr>, d)
               | (Inr _, d) \<Rightarrow>
                   (case recycle_segments (ws_replay_floor st) lsn d of (r, d) \<Rightarrow> (r, st\<lparr>ws_replay_floor := lsn\<rparr>, d))))"

text \<open>\<open>checkpoint_clog\<close> holds the lock while it takes the snapshot and again while it installs it, not
  while it writes the file; the three parts are separate calls here.\<close>

definition wal_checkpoint_snapshot :: "nat \<Rightarrow> txn_id list \<Rightarrow> txn_id \<Rightarrow> clog_snapshot wal_op" where
  "wal_checkpoint_snapshot proposed_replay_floor captured_active allocation_boundary = locked (\<lambda>st d.
     if proposed_replay_floor < ws_replay_floor st \<or> proposed_replay_floor > ws_flushed_lsn st
     then (Inl (wal_error ''proposed CLOG replay floor is outside the durable WAL range''), st, d)
     else (Inr (live_snapshot (ws_clog st) (of_nat (ws_flushed_lsn st)) (of_nat proposed_replay_floor)
                  (ws_vacuum_floor st) captured_active allocation_boundary), st, d))"

definition checkpoint_install :: "clog_snapshot \<Rightarrow> unit wal_op" where
  "checkpoint_install snapshot = locked (\<lambda>st d.
     (Inr (), st\<lparr>ws_clog := prune_to (cs_committed_floor snapshot) (ws_clog st),
                 ws_recycle_boundary := Some (unat (cs_authorized_replay_floor snapshot))\<rparr>, d))"

definition checkpoint_clog :: "'b log_env \<Rightarrow> nat \<Rightarrow> txn_id list \<Rightarrow> txn_id \<Rightarrow> unit wal_op" where
  "checkpoint_clog env proposed_replay_floor captured_active allocation_boundary st d =
     (case flush env st d of
        (Inl e, st, d) \<Rightarrow> (Inl e, st, d)
      | (Inr _, st, d) \<Rightarrow>
          (case wal_checkpoint_snapshot proposed_replay_floor captured_active allocation_boundary st d of
             (Inl e, st, d) \<Rightarrow> (Inl e, st, d)
           | (Inr snapshot, st, d) \<Rightarrow>
               (case write_clog_file env snapshot d of
                  (Inl e, d) \<Rightarrow> (Inl e, st, d)
                | (Inr _, d) \<Rightarrow> checkpoint_install snapshot st d)))"

section \<open>Replay and recovery\<close>

definition replay_entries_from :: "'b log_env \<Rightarrow> nat \<Rightarrow> 'b wal_entry result list wal_op" where
  "replay_entries_from env replay_from = locked (\<lambda>st d.
     case replay_items (le_wal env) (max replay_from (ws_replay_floor st))
            (segment_reader_new (ws_replay_floor st) (ws_written_lsn st)) d of
       (items, d) \<Rightarrow> (Inr items, st, d))"

fun oldest_non_committed :: "clog \<Rightarrow> 'b wal_entry result list \<Rightarrow> txn_id option \<Rightarrow> txn_id option result" where
  "oldest_non_committed c [] oldest = Inr oldest"
| "oldest_non_committed c (Inl e # items) oldest = Inl e"
| "oldest_non_committed c (Inr en # items) oldest =
     (let r = en_record en in
      oldest_non_committed c items
        (if represents_transaction r \<and> \<not> clog_is_committed c (wr_txn_id r)
         then Some (case oldest of None \<Rightarrow> wr_txn_id r | Some x \<Rightarrow> min x (wr_txn_id r)) else oldest))"

definition establish_recovery_committed_floor :: "'b log_env \<Rightarrow> txn_id \<Rightarrow> unit wal_op" where
  "establish_recovery_committed_floor env allocation_boundary = locked (\<lambda>st d.
     if ws_clog_loaded_from_snapshot st then (Inr (), st, d)
     else case replay_entries_from env 0 st d of
       (Inl e, st, d) \<Rightarrow> (Inl e, st, d)
     | (Inr items, st, d) \<Rightarrow>
         (case oldest_non_committed (ws_clog st) items None of
            Inl e \<Rightarrow> (Inl e, st, d)
          | Inr oldest \<Rightarrow>
              (Inr (), st\<lparr>ws_clog := set_committed_floor
                 (case oldest of Some x \<Rightarrow> min allocation_boundary x | None \<Rightarrow> allocation_boundary) (ws_clog st)\<rparr>, d)))"

definition resolve_in_flight_as_aborted :: "u64 list \<Rightarrow> unit wal_op" where
  "resolve_in_flight_as_aborted writer_xids = locked (\<lambda>st d.
     (Inr (), st\<lparr>ws_clog := fold (\<lambda>xid c. if clog_status c xid = InProgress then set_aborted xid c else c)
                  writer_xids (ws_clog st)\<rparr>, d))"

definition resolve_all_in_flight_as_aborted :: "unit wal_op" where
  "resolve_all_in_flight_as_aborted = locked (\<lambda>st d.
     (Inr (), st\<lparr>ws_clog := resolve_all_in_progress_as_aborted (ws_clog st)\<rparr>, d))"

definition set_vacuum_floor :: "txn_id \<Rightarrow> unit wal_op" where
  "set_vacuum_floor boundary = locked (\<lambda>st d. (Inr (), st\<lparr>ws_vacuum_floor := max (ws_vacuum_floor st) boundary\<rparr>, d))"

definition wal_needs_clog_maintenance :: "bool wal_op" where
  "wal_needs_clog_maintenance = locked (\<lambda>st d. (Inr (needs_maintenance (ws_clog st) (ws_vacuum_floor st)), st, d))"

definition bytes_after :: "nat \<Rightarrow> nat wal_op" where
  "bytes_after lsn = locked (\<lambda>st d. (Inr (ws_written_lsn st - max lsn (ws_replay_floor st)), st, d))"

definition retained_range :: "(nat \<times> nat) wal_op" where
  "retained_range = locked (\<lambda>st d. (Inr (ws_replay_floor st, ws_flushed_lsn st), st, d))"

definition wal_written_lsn :: "nat wal_op" where
  "wal_written_lsn = locked (\<lambda>st d. (Inr (ws_written_lsn st), st, d))"

definition wal_flushed_lsn :: "wal_state \<Rightarrow> nat" where
  "wal_flushed_lsn st = ws_flushed_lsn st"

definition wal_status :: "wal_state \<Rightarrow> txn_id \<Rightarrow> txn_status" where
  "wal_status st xid = clog_status (ws_clog st) xid"

end
