(* ===== verification/Wal_Frame.thy ===== *)
theory Wal_Frame
  imports Wal_Codec
begin

text \<open>
  Frames of the log: decoding inverts encoding at any offset of a buffer, a cut frame is seen
  as incomplete, and only frames with a matching checksum are accepted.
\<close>

section \<open>Payloads\<close>

lemma json_payload_roundtrip:
  assumes "json_ok env" "encode_json_payload env k = Inr p" "\<not> is_legacy_catalog_type (record_type k)"
    "\<And>c. k \<noteq> CatalogChange c"
  shows "decode_json env (record_type k) p = Inr k"
proof -
  have "we_from_slice env p = Some k"
    using assms(1,2,4) by (auto simp: json_ok_def encode_json_payload_def chain_iff)
  then have "kind_from_slice env p = Some k"
    using assms(4) by (auto simp: kind_from_slice_def split: wal_record_kind.splits)
  moreover have "record_type k \<noteq> 31" using assms(4) by (cases k) auto
  ultimately show ?thesis
    using assms(3,4) by (auto simp: decode_json_def split: wal_record_kind.splits)
qed

lemma payload_roundtrip:
  assumes ok: "json_ok env" and wf: "kind_wf k" and enc: "encode_payload env k = Inr p"
  shows "decode_payload env (record_type k) p = Inr k
    \<and> validate_declared_payload_length (record_type k) (length p) = Inr () \<and> length p \<le> MAX_JSON_PAYLOAD_BYTES"
proof -
  have small: "length p \<le> MAX_JSON_PAYLOAD_BYTES"
    using enc by (cases k) (auto simp: validate_body_length_def encode_json_payload_def chain_iff wal_codec_consts)
  note json = json_payload_roundtrip [OF ok, of k p]
  show ?thesis
  proof (cases k)
    case (CatalogChange c)
    have shape: "validate_shape (we_is_finite env) c = Inr ()" and tv: "we_to_vec env k = Some p"
      using enc CatalogChange by (auto simp: chain_iff)
    then have "we_from_slice env p = Some (CatalogChange c)" using ok CatalogChange by (auto simp: json_ok_def)
    moreover have "length (ccs_mutations c) \<le> MAX_CATALOG_CHANGE_MUTATIONS"
      "length (next_column_object_ids (ccs_high_water c)) \<le> MAX_CATALOG_CHANGE_MUTATIONS"
      using shape by (auto simp: validate_shape_def split: if_splits)
    ultimately have "kind_from_slice env p = Some k"
      using wf by (simp add: kind_from_slice_def CatalogChange deserialize_mutations_def visit_mutations_eq
          deserialize_column_high_water_sorted)
    then have "decode_json env 31 p = Inr k"
      using shape small by (simp add: decode_json_def CatalogChange is_legacy_catalog_type_def wal_codec_consts)
    then show ?thesis using small
      by (simp add: CatalogChange decode_payload_def validate_declared_payload_length_def)
  next
    case (CommitWithSubxids xs)
    have "we_to_vec env k = Some p" "length xs \<le> MAX_COMMITTED_SUBXIDS"
      using enc CommitWithSubxids by (auto simp: encode_json_payload_def chain_iff)
    then have "deserialize_subxids env p = Some xs"
      using ok CommitWithSubxids by (simp add: json_ok_def deserialize_subxids_def)
    then show ?thesis using small
      by (simp add: CommitWithSubxids decode_payload_def validate_declared_payload_length_def)
  qed (use enc small json in \<open>auto simp: decode_payload_def validate_declared_payload_length_def physical_roundtrip
        validate_body_length_def chain_iff is_legacy_catalog_type_def wal_codec_consts\<close>)
qed

section \<open>Frames\<close>

definition frame_header :: "u64 \<Rightarrow> u64 \<Rightarrow> u8 \<Rightarrow> u32 \<Rightarrow> u8 list" where
  "frame_header lsn txn ty len = u64_le lsn @ u64_le txn @ [ty] @ u32_le len"

lemma length_frame_header [simp]: "length (frame_header lsn txn ty len) = 21"
  by (simp add: frame_header_def)

lemma frame_header_exists:
  assumes "21 \<le> length bs"
  obtains lsn txn ty len rest where "bs = frame_header lsn txn ty len @ rest"
proof
  let ?lsn = "from_le (take 8 bs) :: u64" and ?txn = "from_le (take 8 (drop 8 bs)) :: u64"
    and ?len = "from_le (take 4 (drop 17 bs)) :: u32"
  have "u64_le ?lsn = take 8 bs" "u64_le ?txn = take 8 (drop 8 bs)" "u32_le ?len = take 4 (drop 17 bs)"
    using assms by (simp_all add: to_from_le)
  moreover have "bs = take 8 bs @ drop 8 bs" by simp
  moreover have "drop 8 bs = take 8 (drop 8 bs) @ drop 16 bs"
    using append_take_drop_id [of 8 "drop 8 bs"] by simp
  moreover have "drop 16 bs = bs ! 16 # drop 17 bs" using assms Cons_nth_drop_Suc [of 16 bs] by simp
  moreover have "drop 17 bs = take 4 (drop 17 bs) @ drop 21 bs"
    using append_take_drop_id [of 4 "drop 17 bs"] by simp
  ultimately show "bs = frame_header ?lsn ?txn (bs ! 16) ?len @ drop 21 bs"
    unfolding frame_header_def by (metis append.assoc append_Cons append_Nil)
qed

lemma rd_at_eq: "off \<le> length bytes \<Longrightarrow> rd_at bytes off = Inr (rd_adv off (rd_new bytes))"
  by (simp add: rd_at_def rd_adv_def rd_new_def)

lemma rd_position_adv: "rd_position (rd_adv n r) = rd_position r + n" "rd_position (rd_new bs) = 0"
  by (simp_all add: rd_adv_def rd_new_def)

lemma rd_at_ok: "length bytes \<le> USIZE_MAX \<Longrightarrow> off \<le> length bytes \<Longrightarrow> rd_ok (rd_adv off (rd_new bytes))"
  by (simp add: rd_ok_def rd_adv_def rd_new_def)

text \<open>The header fields read from a reader whose unread bytes start with a header.\<close>

lemma read_header:
  assumes "rd_ok r" and "rd_rest r = frame_header lsn txn ty len @ rest"
  shows "rd_read_u64_le r = Inr (lsn, rd_adv 8 r)"
    "rd_read_u64_le (rd_adv 8 r) = Inr (txn, rd_adv 8 (rd_adv 8 r))"
    "rd_read_u8 (rd_adv 8 (rd_adv 8 r)) = Inr (ty, rd_adv 1 (rd_adv 8 (rd_adv 8 r)))"
    "rd_read_u32_le (rd_adv 1 (rd_adv 8 (rd_adv 8 r))) = Inr (len, rd_adv 4 (rd_adv 1 (rd_adv 8 (rd_adv 8 r))))"
    "rd_rest (rd_adv 4 (rd_adv 1 (rd_adv 8 (rd_adv 8 r)))) = rest"
    "rd_ok (rd_adv 4 (rd_adv 1 (rd_adv 8 (rd_adv 8 r))))"
  using assms by (simp_all add: rd_simps frame_header_def)

text \<open>What the decoder does once the header is there: the whole of \<open>decode_one\<close> on a buffer
  that continues with a header.\<close>

lemma decode_one_header:
  assumes fits: "length bytes \<le> USIZE_MAX" and off: "off \<le> length bytes"
    and hd: "drop off bytes = frame_header lsn txn ty len @ rest"
  shows "decode_one env bytes off =
    and_then (validate_declared_payload_length ty (unat len)) (\<lambda>_.
      if length rest < unat len + 4 then Inr Incomplete
      else if we_crc env (frame_header lsn txn ty len @ take (unat len) rest) \<noteq> from_le (take 4 (drop (unat len) rest))
      then Inl (wal_error ''WAL record CRC mismatch'')
      else and_then (decode_payload env ty (take (unat len) rest)) (\<lambda>k.
        Inr (DecodedRecord \<lparr>wr_lsn = lsn, wr_txn_id = txn, wr_kind = k\<rparr> (off + 21 + unat len + 4))))"
proof -
  let ?r = "rd_adv off (rd_new bytes)" and ?n = "unat len"
  let ?s = "rd_adv 4 (rd_adv 1 (rd_adv 8 (rd_adv 8 ?r)))"
  have rest: "rd_rest ?r = frame_header lsn txn ty len @ rest" by (simp add: rd_simps hd)
  note hdr = read_header [OF rd_at_ok [OF fits off] rest]
  have remaining: "\<not> rd_remaining ?r < HEADER_LEN" by (simp add: rd_remaining_rest rest HEADER_LEN_def)
  have len: "length bytes = off + 21 + length rest"
    using arg_cong [OF hd, of length] off by simp
  have slice: "slice_get bytes off (off + 21 + ?n) = Some (frame_header lsn txn ty len @ take ?n rest)" if "?n + 4 \<le> length rest"
    using that by (simp add: slice_get_def len hd)
  have crc: "rd_read_u32_le (rd_adv ?n ?s) = Inr (from_le (take 4 (drop ?n rest)), rd_adv 4 (rd_adv ?n ?s))" if "?n + 4 \<le> length rest"
    using that hdr(5,6) by (simp add: rd_read_u32_le_enough rd_ok_adv rd_rest_adv [of ?n] del: One_nat_def)
  have take: "rd_take ?s ?n = Inr (take ?n rest, rd_adv ?n ?s)" if "?n + 4 \<le> length rest"
    using that hdr(5,6) by (simp add: rd_take_enough del: One_nat_def)
  have pos: "rd_position (rd_adv ?n ?s) = off + 21 + ?n" "rd_position (rd_adv 4 (rd_adv ?n ?s)) = off + 21 + ?n + 4"
    by (simp_all add: rd_position_adv)
  have usize: "?n + CRC_LEN \<le> USIZE_MAX" using unsigned_less [of len, where ?'a = nat] by (simp add: CRC_LEN_def USIZE_MAX_def)
  have rem: "rd_remaining ?s < ?n + CRC_LEN \<longleftrightarrow> length rest < ?n + 4"
    by (simp add: rd_remaining_rest hdr(5) CRC_LEN_def del: One_nat_def)
  show ?thesis
  proof (cases "length rest < ?n + 4")
    case True
    then show ?thesis
      using usize by (simp add: decode_one_def rd_at_eq off remaining hdr(1-4) rem del: One_nat_def)
  next
    case False
    then have "?n + 4 \<le> length rest" by simp
    then show ?thesis
      using usize by (simp add: decode_one_def rd_at_eq off remaining hdr(1-4) rem take crc slice pos False Let_def
          del: One_nat_def)
  qed
qed

lemma decode_one_short: "length (drop off bytes) < 21 \<Longrightarrow> off \<le> length bytes \<Longrightarrow> decode_one env bytes off = Inr Incomplete"
  by (simp add: decode_one_def rd_at_eq rd_remaining_rest rd_rest_adv rd_rest_new HEADER_LEN_def)

lemma frame_len_header:
  "frame_len_from_header (frame_header lsn txn ty len) =
     and_then (validate_declared_payload_length ty (unat len)) (\<lambda>_. Inr (25 + unat len))"
proof -
  let ?h = "frame_header lsn txn ty len"
  have "rd_ok (rd_new ?h)" by (simp add: USIZE_MAX_def)
  note hdr = read_header [OF this, of lsn txn ty len "[]"]
  have "HEADER_LEN + unat len + CRC_LEN \<le> USIZE_MAX"
    using unsigned_less [of len, where ?'a = nat] by (simp add: HEADER_LEN_def CRC_LEN_def USIZE_MAX_def)
  then show ?thesis
    by (simp add: frame_len_from_header_def HEADER_LEN_def CRC_LEN_def hdr(1-4) rd_rest_new add.commute del: One_nat_def)
qed

lemma encode_record_shape:
  assumes "encode_record env r = Inr bs"
  obtains p len where "encode_payload env (wr_kind r) = Inr p" "unat (len :: u32) = length p"
    "bs = frame_header (wr_lsn r) (wr_txn_id r) (record_type (wr_kind r)) len @ p
          @ u32_le (we_crc env (frame_header (wr_lsn r) (wr_txn_id r) (record_type (wr_kind r)) len @ p))"
proof -
  obtain p where p: "encode_payload env (wr_kind r) = Inr p" and "\<not> 2 ^ 32 \<le> length p"
    and bs: "bs = frame_header (wr_lsn r) (wr_txn_id r) (record_type (wr_kind r)) (of_nat (length p)) @ p
      @ u32_le (we_crc env (frame_header (wr_lsn r) (wr_txn_id r) (record_type (wr_kind r)) (of_nat (length p)) @ p))"
    using assms by (auto simp: encode_record_def chain_iff Let_def frame_header_def)
  then have "unat (of_nat (length p) :: u32) = length p" by (simp add: unat_of_nat take_bit_nat_eq_self)
  with p bs show ?thesis using that by blast
qed

lemma encode_record_shape_conv:
  assumes "encode_payload env (wr_kind r) = Inr p" "unat (len :: u32) = length p"
  shows "encode_record env r = Inr (frame_header (wr_lsn r) (wr_txn_id r) (record_type (wr_kind r)) len @ p
    @ u32_le (we_crc env (frame_header (wr_lsn r) (wr_txn_id r) (record_type (wr_kind r)) len @ p)))"
proof -
  have "length p < 2 ^ 32" using unsigned_less [of len, where ?'a = nat] assms(2) by simp
  moreover have "of_nat (length p) = len" using assms(2) by (metis of_nat_unat ucast_id)
  ultimately show ?thesis
    using assms(1) by (simp add: encode_record_def Let_def frame_header_def HEADER_LEN_def CRC_LEN_def USIZE_MAX_def)
qed

section \<open>Properties\<close>

text \<open>A frame decodes wherever it stands, and its header tells its length.\<close>

lemma frame_decodes:
  assumes ok: "json_ok env" "kind_wf (wr_kind r)" and enc: "encode_record env r = Inr bs" and fits: "length (a @ bs @ b) \<le> USIZE_MAX"
  shows "decode_one env (a @ bs @ b) (length a) = Inr (DecodedRecord r (length (a @ bs)))"
    and "frame_len_from_header (take HEADER_LEN bs) = Inr (length bs)" and "HEADER_LEN < length bs"
proof -
  obtain p len where p: "encode_payload env (wr_kind r) = Inr p" "unat (len :: u32) = length p"
    and bs: "bs = frame_header (wr_lsn r) (wr_txn_id r) (record_type (wr_kind r)) len @ p
      @ u32_le (we_crc env (frame_header (wr_lsn r) (wr_txn_id r) (record_type (wr_kind r)) len @ p))"
    using enc by (rule encode_record_shape)
  let ?h = "frame_header (wr_lsn r) (wr_txn_id r) (record_type (wr_kind r)) len"
  note pay = payload_roundtrip [OF ok p(1)]
  show "decode_one env (a @ bs @ b) (length a) = Inr (DecodedRecord r (length (a @ bs)))"
    using decode_one_header [OF fits, of "length a" _ _ _ _ "p @ u32_le (we_crc env (?h @ p)) @ b" env] pay
    by (simp add: bs p(2))
  show "frame_len_from_header (take HEADER_LEN bs) = Inr (length bs)" "HEADER_LEN < length bs"
    using pay by (simp_all add: bs HEADER_LEN_def frame_len_header p(2))
qed

lemma frame_decodes_record:
  "json_ok env \<Longrightarrow> kind_wf (wr_kind r) \<Longrightarrow> encode_record env r = Inr bs \<Longrightarrow> length bs \<le> USIZE_MAX \<Longrightarrow> decode_record env bs = Inr r"
  using frame_decodes(1) [of env r bs "[]" "[]"] by (simp add: decode_record_def)


text \<open>A small codec: the length as the checksum, one JSON value (the commit record) and its text.\<close>

definition toy_wal_env :: "unit wal_env" where
  "toy_wal_env = \<lparr>we_crc = (\<lambda>bs. of_nat (length bs)),
     we_to_vec = (\<lambda>k. if k = Commit then Some [123, 125] else None),
     we_from_slice = (\<lambda>p. if p = [123, 125] then Some Commit else None),
     we_subxids = (\<lambda>_. None), we_is_finite = (\<lambda>_. True)\<rparr>"

lemma toy_json_ok: "json_ok toy_wal_env"
  by (simp add: json_ok_def toy_wal_env_def)

definition toy_commit :: "unit wal_record" where
  "toy_commit = \<lparr>wr_lsn = 27, wr_txn_id = 5, wr_kind = Commit\<rparr>"

definition toy_commit_frame :: "u8 list" where
  "toy_commit_frame = [27, 0, 0, 0, 0, 0, 0, 0, 5, 0, 0, 0, 0, 0, 0, 0, 3, 2, 0, 0, 0, 123, 125, 23, 0, 0, 0]"

lemma toy_commit_frame_length [simp]: "length toy_commit_frame = 27"
  by (simp add: toy_commit_frame_def)

lemma toy_bytes:
  "u64_le 27 = [27, 0, 0, 0, 0, 0, 0, 0]" "u64_le 5 = [5, 0, 0, 0, 0, 0, 0, 0]"
  "u32_le 2 = [2, 0, 0, 0]" "u32_le 23 = [23, 0, 0, 0]"
  by code_simp+

lemma toy_commit_encodes: "encode_record toy_wal_env toy_commit = Inr toy_commit_frame"
  by (simp add: encode_record_def encode_json_payload_def toy_wal_env_def toy_commit_def toy_commit_frame_def
      wal_codec_consts USIZE_MAX_def toy_bytes)


text \<open>C20: The decoder accepts only a frame that is whole and whose stored checksum is the checksum of
  its header and payload, consumes exactly its bytes, and does not look past them: the same
  answer comes whatever follows the frame.\<close>

theorem wal_decode_sound:
  assumes "length bytes \<le> USIZE_MAX" and "off \<le> length bytes"
    and "decode_one env bytes off = Inr (DecodedRecord r next)"
  shows "off + HEADER_LEN + CRC_LEN \<le> next \<and> next \<le> length bytes
    \<and> u32_le (we_crc env (take (next - off - CRC_LEN) (drop off bytes))) = drop (next - off - CRC_LEN) (take (next - off) (drop off bytes))
    \<and> frame_len_from_header (take HEADER_LEN (drop off bytes)) = Inr (next - off)
    \<and> (\<forall>suf. length (take next bytes @ suf) \<le> USIZE_MAX
          \<longrightarrow> decode_one env (take next bytes @ suf) off = Inr (DecodedRecord r next))"
proof -
  have "21 \<le> length (drop off bytes)"
    using assms(2,3) decode_one_short [of off bytes env] by (force simp: not_le [symmetric])
  then obtain lsn txn ty len rest where hd: "drop off bytes = frame_header lsn txn ty len @ rest"
    by (rule frame_header_exists)
  let ?n = "unat len" and ?h = "frame_header lsn txn ty len"
  obtain k where v: "validate_declared_payload_length ty ?n = Inr ()" and long: "?n + 4 \<le> length rest"
    and crc: "we_crc env (?h @ take ?n rest) = from_le (take 4 (drop ?n rest))"
    and k: "decode_payload env ty (take ?n rest) = Inr k"
    and r: "r = \<lparr>wr_lsn = lsn, wr_txn_id = txn, wr_kind = k\<rparr>" "next = off + 25 + ?n"
    using assms(3) by (auto simp: decode_one_header [OF assms(1,2) hd] chain_iff split: if_splits)
  have len: "length bytes = off + 21 + length rest" using arg_cong [OF hd, of length] assms(2) by simp
  have "u32_le (we_crc env (?h @ take ?n rest)) = take 4 (drop ?n rest)"
    using long by (simp add: crc to_from_le)
  moreover have "decode_one env (take next bytes @ suf) off = Inr (DecodedRecord r next)"
    if fits: "length (take next bytes @ suf) \<le> USIZE_MAX" for suf
  proof -
    have "drop off (take next bytes @ suf) = ?h @ take (?n + 4) rest @ suf"
      using long by (simp add: drop_take hd r len add.commute)
    moreover have "take ?n (take (?n + 4) rest @ suf) = take ?n rest"
      "take 4 (drop ?n (take (?n + 4) rest @ suf)) = take 4 (drop ?n rest)"
      "\<not> length (take (?n + 4) rest @ suf) < ?n + 4"
      using long by (simp_all add: drop_take)
    moreover have "off \<le> length (take next bytes @ suf)" by (simp add: r len)
    ultimately show ?thesis
      using decode_one_header [OF fits, of off lsn txn ty len "take (?n + 4) rest @ suf" env] v crc k
      by (simp only: and_then_simps if_False) (simp add: r)
  qed
  moreover have "take (21 + ?n) (drop off bytes) = ?h @ take ?n rest"
    "drop (21 + ?n) (take (25 + ?n) (drop off bytes)) = take 4 (drop ?n rest)" "take 21 (drop off bytes) = ?h"
    using long by (simp_all add: hd drop_take)
  moreover have "next - off - CRC_LEN = 21 + ?n" "next - off = 25 + ?n" "off + 25 \<le> next" "next \<le> length bytes"
    using long by (simp_all add: r len CRC_LEN_def)
  moreover have "frame_len_from_header ?h = Inr (25 + ?n)" using v by (simp add: frame_len_header)
  ultimately show ?thesis by (simp add: HEADER_LEN_def CRC_LEN_def)
qed

lemma toy_commit_decodes: "decode_one toy_wal_env toy_commit_frame 0 = Inr (DecodedRecord toy_commit 27)"
proof -
  have "toy_commit_frame = frame_header 27 5 3 2 @ [123, 125] @ u32_le 23"
    by (simp add: toy_commit_frame_def frame_header_def toy_bytes)
  moreover have "decode_payload toy_wal_env 3 [123, 125] = Inr Commit"
    by (simp add: decode_payload_def decode_json_def kind_from_slice_def toy_wal_env_def is_legacy_catalog_type_def
        wal_codec_consts)
  ultimately show ?thesis
    by (subst decode_one_header [where rest = "[123, 125] @ u32_le 23"])
      (simp_all add: validate_declared_payload_length_def wal_codec_consts USIZE_MAX_def,
       simp add: toy_wal_env_def toy_commit_def)
qed

theorem wal_decode_sound_witness:
  "decode_one toy_wal_env toy_commit_frame 0 = Inr (DecodedRecord toy_commit 27)
   \<and> u32_le (we_crc toy_wal_env (take 23 toy_commit_frame)) = drop 23 toy_commit_frame
   \<and> decode_one toy_wal_env (toy_commit_frame @ [255]) 0 = Inr (DecodedRecord toy_commit 27)"
proof -
  have "length toy_commit_frame \<le> USIZE_MAX" "length (take 27 toy_commit_frame @ [255]) \<le> USIZE_MAX"
    by (simp_all add: USIZE_MAX_def)
  from wal_decode_sound [OF this(1) _ toy_commit_decodes] this(2) toy_commit_decodes
  show ?thesis by (simp add: CRC_LEN_def)
qed

lemma encode_record_at_shape:
  assumes "encode_record_at env r start = Inr (r', bs)"
  obtains p len where "encode_payload env (wr_kind r) = Inr p" "unat (len :: u32) = length p"
    "r' = r\<lparr>wr_lsn := start + of_nat (length bs)\<rparr>" "unat start + length bs < 2 ^ 64"
    "bs = frame_header (wr_lsn r') (wr_txn_id r) (record_type (wr_kind r)) len @ p
      @ u32_le (we_crc env (frame_header (wr_lsn r') (wr_txn_id r) (record_type (wr_kind r)) len @ p))"
proof -
  let ?r = "r\<lparr>wr_lsn := 0\<rparr>"
  obtain b0 where b0: "encode_record env ?r = Inr b0"
    using assms by (auto simp: encode_record_at_def chain_iff)
  then obtain p len where p: "encode_payload env (wr_kind ?r) = Inr p" "unat (len :: u32) = length p"
    and shape: "b0 = frame_header 0 (wr_txn_id r) (record_type (wr_kind r)) len @ p
      @ u32_le (we_crc env (frame_header 0 (wr_txn_id r) (record_type (wr_kind r)) len @ p))"
    by (rule encode_record_shape) simp
  define e where "e = start + of_nat (length b0)"
  have r': "r' = r\<lparr>wr_lsn := e\<rparr>" and nowrap: "unat start + length b0 < 2 ^ 64"
    and bs: "bs = (let b = u64_le e @ drop 8 b0 in take (length b - 4) b @ u32_le (we_crc env (take (length b - 4) b)))"
    using assms b0 by (auto simp: encode_record_at_def Let_def e_def CRC_LEN_def split: if_splits)
  have f: "bs = frame_header e (wr_txn_id r) (record_type (wr_kind r)) len @ p
      @ u32_le (we_crc env (frame_header e (wr_txn_id r) (record_type (wr_kind r)) len @ p))"
    by (simp add: bs shape frame_header_def take_Cons')
  from arg_cong [OF this, of length] have len: "length bs = length b0" by (simp add: shape)
  show ?thesis
  proof (rule that [OF _ p(2)])
    show "encode_payload env (wr_kind r) = Inr p" using p(1) by simp
    show "r' = r\<lparr>wr_lsn := start + of_nat (length bs)\<rparr>" by (simp only: r' e_def len)
    show "unat start + length bs < 2 ^ 64" using nowrap len by simp
    have "wr_lsn r' = e" by (simp add: r')
    with f show "bs = frame_header (wr_lsn r') (wr_txn_id r) (record_type (wr_kind r)) len @ p
      @ u32_le (we_crc env (frame_header (wr_lsn r') (wr_txn_id r) (record_type (wr_kind r)) len @ p))" by (simp only:)
  qed
qed

lemma encode_record_at_ok:
  assumes "encode_record_at env r start = Inr (r', bs)"
  shows "r' = r\<lparr>wr_lsn := start + of_nat (length bs)\<rparr> \<and> unat (wr_lsn r') = unat start + length bs
    \<and> encode_record env r' = Inr bs"
proof -
  from assms obtain p len where p: "encode_payload env (wr_kind r) = Inr p" "unat (len :: u32) = length p"
    and r': "r' = r\<lparr>wr_lsn := start + of_nat (length bs)\<rparr>" "unat start + length bs < 2 ^ 64"
    and bs: "bs = frame_header (wr_lsn r') (wr_txn_id r) (record_type (wr_kind r)) len @ p
      @ u32_le (we_crc env (frame_header (wr_lsn r') (wr_txn_id r) (record_type (wr_kind r)) len @ p))"
    by (rule encode_record_at_shape)
  have "unat (start + of_nat (length bs)) = unat start + length bs"
    using r'(2) by (simp add: unat_word_ariths unat_of_nat take_bit_nat_eq_self)
  moreover have "encode_record env r' = Inr bs"
    using encode_record_shape_conv [of env r' p len] p bs r'(1) by (metis wal_record.ext_inject wal_record.surjective wal_record.update_convs(1))
  ultimately show ?thesis using r'(1) by simp
qed

text \<open>C21: A record placed at a position of the log carries as its LSN the position just past its own
  frame, and its bytes are the frame of that record; the LSN does not wrap.\<close>

theorem wal_record_at_end_lsn:
  assumes "encode_record_at env r start = Inr (r', bs)"
  shows "r' = r\<lparr>wr_lsn := start + of_nat (length bs)\<rparr> \<and> unat (wr_lsn r') = unat start + length bs
    \<and> encode_record env r' = Inr bs"
  by (rule encode_record_at_ok [OF assms])

theorem wal_record_at_end_lsn_witness:
  "encode_record_at toy_wal_env (toy_commit\<lparr>wr_lsn := 77\<rparr>) 0 = Inr (toy_commit, toy_commit_frame)
   \<and> encode_record toy_wal_env toy_commit = Inr toy_commit_frame"
proof -
  have "encode_record_at toy_wal_env (toy_commit\<lparr>wr_lsn := 77\<rparr>) 0 = Inr (toy_commit, toy_commit_frame)"
    by (simp add: encode_record_at_def encode_record_def encode_json_payload_def toy_wal_env_def toy_commit_def
        toy_commit_frame_def wal_codec_consts USIZE_MAX_def toy_bytes)
  with wal_record_at_end_lsn [OF this] show ?thesis by simp
qed

end
