(* ===== verification/Wal_Read.thy ===== *)
theory Wal_Read
  imports Wal_Truncate Wal_Manager Wal_Frame
begin

text \<open>
  Reading the stream back: the segment reader returns the bytes of the stream across segments, and
  the frame loops return the records whose frames make up the stream.
\<close>

section \<open>Bytes\<close>

definition reader_ok :: "store \<Rightarrow> segment_reader \<Rightarrow> bool" where
  "reader_ok s r = (\<forall>n. sr_file_number r = Some n \<longrightarrow>
     (\<exists>h. sr_file r = Some h \<and> lookup s (segment_path n) = Some (h_inode h)
        \<and> (sr_position r div seg_bytes = n \<longrightarrow> h_pos h = SEGMENT_HEADER_LEN + sr_position r mod seg_bytes)))"

lemma reader_new: "reader_ok s (segment_reader_new p e)"
  by (simp add: reader_ok_def segment_reader_new_def)

lemma position_seg:
  assumes "in_range x L" "p < length L" "cx_floor x \<le> p"
  shows "first_seg x \<le> p div seg_bytes" "p div seg_bytes \<le> last_seg x (length L)"
proof -
  show "first_seg x \<le> p div seg_bytes" using assms(3) by (simp add: first_seg_def div_le_mono)
  have "p < (last_seg x (length L) + 1) * seg_bytes"
    using assms last_seg_bounds(3) [of x "length L"] by (simp add: in_range_def)
  then have "p div seg_bytes < last_seg x (length L) + 1" by (rule less_mult_imp_div_less)
  then show "p div seg_bytes \<le> last_seg x (length L)" by simp
qed

lemma loose_bytes:
  assumes l: "loose x u L t s" and p: "p < length L" "cx_floor x \<le> p" and k: "p mod seg_bytes + k \<le> seg_bytes" "p + k \<le> length L"
    and i: "lookup s (segment_path (p div seg_bytes)) = Some i"
  shows "SEGMENT_HEADER_LEN + p mod seg_bytes + k \<le> length (bytes_of s i)"
    and "take k (drop (SEGMENT_HEADER_LEN + p mod seg_bytes) (bytes_of s i)) = take k (drop p L)"
    and "prefix (seg_header (cx_crc x) (p div seg_bytes)) (bytes_of s i)"
proof -
  let ?n = "p div seg_bytes"
  have range: "in_range x L" using l by (simp add: loose_def)
  note seg = position_seg [OF range p]
  have "seg s ?n (loose_file x u L ?n)" using l seg by (simp add: loose_def)
  with i have pre: "prefix (seg_header (cx_crc x) ?n @ chunk ?n L) (bytes_of s i)" by (auto simp: seg_def loose_file_def)
  then obtain r where r: "bytes_of s i = seg_header (cx_crc x) ?n @ chunk ?n L @ r" by (auto simp: prefix_def)
  have h: "length (seg_header (cx_crc x) ?n) = SEGMENT_HEADER_LEN"
    using in_range_seg [OF range seg(2)] by (intro length_seg_header)
  have "p mod seg_bytes + k \<le> length L - ?n * seg_bytes" using k(2) div_mult_mod_eq [of p seg_bytes] by linarith
  then have len: "p mod seg_bytes + k \<le> length (chunk ?n L)" using k(1) by (simp add: length_chunk)
  then show "SEGMENT_HEADER_LEN + p mod seg_bytes + k \<le> length (bytes_of s i)" by (simp add: r h)
  have "take k (drop (SEGMENT_HEADER_LEN + p mod seg_bytes) (bytes_of s i)) = take k (drop (p mod seg_bytes) (chunk ?n L))"
    using len by (simp add: r h)
  also have "\<dots> = take k (drop p L)"
  proof -
    have "drop (p mod seg_bytes) (chunk ?n L) = take (seg_bytes - p mod seg_bytes) (drop (p mod seg_bytes + ?n * seg_bytes) L)"
      by (simp only: chunk_def drop_take drop_drop)
    also have "p mod seg_bytes + ?n * seg_bytes = p" by simp
    finally show ?thesis using k(1) by (simp add: min_absorb1)
  qed
  finally show "take k (drop (SEGMENT_HEADER_LEN + p mod seg_bytes) (bytes_of s i)) = take k (drop p L)" .
  show "prefix (seg_header (cx_crc x) ?n) (bytes_of s i)" using r by simp
qed

lemma wp_ensure_file:
  assumes l: "loose x u L t s" and p: "sr_position r < length L" "cx_floor x \<le> sr_position r" and r: "reader_ok s r"
  shows "wp (ensure_file (cx_crc x) (sr_position r div seg_bytes) (sr_position r mod seg_bytes) r)
    (\<lambda>r' s'. s' = s \<and> sr_position r' = sr_position r \<and> sr_end r' = sr_end r
       \<and> (\<exists>h. sr_file r' = Some h \<and> sr_file_number r' = Some (sr_position r div seg_bytes)
            \<and> lookup s (segment_path (sr_position r div seg_bytes)) = Some (h_inode h)
            \<and> h_pos h = SEGMENT_HEADER_LEN + sr_position r mod seg_bytes)) (\<lambda>s'. s' = s) s"
proof (cases "sr_file_number r = Some (sr_position r div seg_bytes)")
  case True
  then show ?thesis using r by (auto simp: ensure_file_def reader_ok_def intro!: wp_ok)
next
  case False
  let ?n = "sr_position r div seg_bytes"
  have range: "in_range x L" using l by (simp add: loose_def)
  note seg = position_seg [OF range p]
  obtain i where i: "lookup s (segment_path ?n) = Some i" using l seg by (auto simp: loose_def seg_def)
  have pre: "prefix (seg_header (cx_crc x) ?n) (bytes_of s i)" using loose_bytes(3) [OF l p _ _ i, of 0] p by simp
  have small: "\<not> u64_limit \<le> SEGMENT_HEADER_LEN + sr_position r mod seg_bytes"
    using mod_less_divisor [of seg_bytes "sr_position r"] by (simp add: segment_consts)
  have "wp (if u64_limit \<le> SEGMENT_HEADER_LEN + sr_position r mod seg_bytes then io_err (wal_error ''WAL physical offset overflow'')
        else io_then (fs_seek (db_io ''failed to seek WAL segment: '') \<lparr>h_inode = i, h_pos = SEGMENT_HEADER_LEN\<rparr> (SEGMENT_HEADER_LEN + sr_position r mod seg_bytes)) (\<lambda>file.
          io_ok (r\<lparr>sr_file := Some file, sr_file_number := Some ?n\<rparr>)))
    (\<lambda>r' s'. s' = s \<and> sr_position r' = sr_position r \<and> sr_end r' = sr_end r
       \<and> (\<exists>h. sr_file r' = Some h \<and> sr_file_number r' = Some ?n \<and> lookup s (segment_path ?n) = Some (h_inode h)
            \<and> h_pos h = SEGMENT_HEADER_LEN + sr_position r mod seg_bytes)) (\<lambda>s'. s' = s) s"
    using small i by (auto intro!: wp_rules)
  then show ?thesis
    using False unfolding ensure_file_def
    by (simp only: if_False, intro wp_then) (rule wp_open_segment [OF i pre in_range_seg(1) [OF range seg(2)]]; simp)
qed

lemma wp_read_exact_into:
  assumes "loose x u L t s" "cx_floor x \<le> sr_position r" "sr_position r + n \<le> length L" "reader_ok s r"
  shows "wp (read_exact_into (cx_crc x) n dn r)
    (\<lambda>(bs, r') s'. s' = s \<and> bs = dn @ take n (drop (sr_position r) L) \<and> sr_position r' = sr_position r + n
       \<and> sr_end r' = sr_end r \<and> reader_ok s r') (\<lambda>s'. s' = s) s"
  using assms
proof (induction n arbitrary: dn r rule: less_induct)
  case (less n)
  let ?p = "sr_position r"
  let ?n = "?p div seg_bytes" and ?off = "?p mod seg_bytes" and ?Q = "\<lambda>(bs, r') s'. s' = s \<and> bs = dn @ take n (drop ?p L)
      \<and> sr_position r' = ?p + n \<and> sr_end r' = sr_end r \<and> reader_ok s r'"
  show ?case
  proof (cases "n = 0")
    case True
    then show ?thesis using less.prems by (subst read_exact_into.simps) (auto intro!: wp_ok)
  next
    case False
    define k where "k = min (seg_bytes - ?off) n"
    have "?off < seg_bytes" by simp
    then have k: "0 < k" "k \<le> n" "?off + k \<le> seg_bytes" using False by (auto simp: k_def min_def)
    have p: "?p < length L" using False less.prems by simp
    have lim: "\<not> u64_limit \<le> ?p + k" using less.prems k by (auto simp: loose_def in_range_def)
    have rest: "wp (case sr_file r1 of None \<Rightarrow> io_err (wal_error ''WAL segment reader has no file'')
        | Some file \<Rightarrow> io_then (fs_read_exact (db_io ''failed to read WAL segment: '') file k) (\<lambda>(chunk, file).
            if sr_position r1 + k \<ge> u64_limit then io_err (wal_error ''WAL reader position overflow'')
            else read_exact_into (cx_crc x) (n - k) (dn @ chunk)
                   (r1\<lparr>sr_position := sr_position r1 + k, sr_file := Some file\<rparr>))) ?Q (\<lambda>s'. s' = s) s"
      if r1: "sr_position r1 = ?p" "sr_end r1 = sr_end r" "sr_file r1 = Some h" "sr_file_number r1 = Some ?n"
        "lookup s (segment_path ?n) = Some (h_inode h)" "h_pos h = SEGMENT_HEADER_LEN + ?off" for r1 h
    proof -
      have b: "h_pos h + k \<le> length (bytes_of s (h_inode h))" "take k (drop (h_pos h) (bytes_of s (h_inode h))) = take k (drop ?p L)"
        using loose_bytes [OF less.prems(1) p less.prems(2) k(3) _ r1(5)] less.prems(3) k(2) by (simp_all add: r1(6))
      let ?r = "r1\<lparr>sr_position := ?p + k, sr_file := Some (h\<lparr>h_pos := h_pos h + k\<rparr>)\<rparr>"
      have "reader_ok s ?r"
      proof -
        have "h_pos h + k = SEGMENT_HEADER_LEN + (?p + k) mod seg_bytes" if "(?p + k) div seg_bytes = ?n"
        proof -
          have "(?p + k) mod seg_bytes = ?off + k"
            using div_mult_mod_eq [of "?p + k" seg_bytes, unfolded that] div_mult_mod_eq [of ?p seg_bytes] by linarith
          then show ?thesis by (simp add: r1(6))
        qed
        then show ?thesis using r1 by (simp add: reader_ok_def)
      qed
      then have "wp (read_exact_into (cx_crc x) (n - k) (dn @ take k (drop ?p L)) ?r)
          (\<lambda>(bs, r') s'. s' = s \<and> bs = (dn @ take k (drop ?p L)) @ take (n - k) (drop (sr_position ?r) L)
             \<and> sr_position r' = sr_position ?r + (n - k) \<and> sr_end r' = sr_end ?r \<and> reader_ok s r') (\<lambda>s'. s' = s) s"
        using less.prems k by (intro less.IH) simp_all
      moreover have "take k (drop ?p L) @ take (n - k) (drop (?p + k) L) = take n (drop ?p L)"
        using k(2) by (metis add.commute drop_drop le_add_diff_inverse take_add)
      ultimately have "wp (read_exact_into (cx_crc x) (n - k) (dn @ take k (drop ?p L)) ?r) ?Q (\<lambda>s'. s' = s) s"
        using k(2) r1(2) by (simp add: algebra_simps)
      then show ?thesis
        using lim b by (simp add: r1(1,3)) (intro wp_rules; simp add: r1)
    qed
    have "wp (ensure_file (cx_crc x) ?n ?off r) (\<lambda>r1. wp (case sr_file r1 of None \<Rightarrow> io_err (wal_error ''WAL segment reader has no file'')
        | Some file \<Rightarrow> io_then (fs_read_exact (db_io ''failed to read WAL segment: '') file k) (\<lambda>(chunk, file).
            if sr_position r1 + k \<ge> u64_limit then io_err (wal_error ''WAL reader position overflow'')
            else read_exact_into (cx_crc x) (n - k) (dn @ chunk)
                   (r1\<lparr>sr_position := sr_position r1 + k, sr_file := Some file\<rparr>))) ?Q (\<lambda>s'. s' = s)) (\<lambda>s'. s' = s) s"
      by (rule wp_conseq [OF wp_ensure_file [OF less.prems(1) p less.prems(2,4)]]) (use rest in blast)+
    then show ?thesis
      using False by (subst read_exact_into.simps) (simp only: Let_def if_False k_def [symmetric] wp_then)
  qed
qed

lemma wp_read_exact_vec:
  assumes "loose x u L t s" "cx_floor x \<le> sr_position r" "reader_ok s r" "sr_end r = length L" "sr_position r + n \<le> length L"
    and Q: "\<And>r'. sr_position r' = sr_position r + n \<Longrightarrow> sr_end r' = length L \<Longrightarrow> reader_ok s r'
      \<Longrightarrow> Q (Some (take n (drop (sr_position r) L)), r') s" and E: "E s"
  shows "wp (read_exact_vec (cx_crc x) n r) Q E s"
proof -
  have "\<not> u64_limit \<le> n" "\<not> remaining r < n" using assms by (auto simp: loose_def in_range_def remaining_def)
  moreover have "wp (io_then (read_exact_into (cx_crc x) n [] r) (\<lambda>(bytes, r). io_ok (Some bytes, r))) Q E s"
    by (rule wp_then, rule wp_conseq [OF wp_read_exact_into [OF assms(1,2,5,3)]]) (use assms(4) E in \<open>auto intro!: wp_ok Q\<close>)
  ultimately show ?thesis by (simp add: read_exact_vec_def)
qed

section \<open>Frames\<close>

text \<open>\<open>framed env p rs bs\<close>: the bytes \<open>bs\<close>, at position \<open>p\<close> of the stream, are the frames of the records \<open>rs\<close>.\<close>

fun framed :: "'b wal_env \<Rightarrow> nat \<Rightarrow> 'b wal_record list \<Rightarrow> u8 list \<Rightarrow> bool" where
  "framed env p [] bs = (bs = [])"
| "framed env p (r # rs) bs =
     (\<exists>b bs'. bs = b @ bs' \<and> encode_record env r = Inr b \<and> kind_wf (wr_kind r) \<and> unat (wr_lsn r) = p + length b
        \<and> framed env (p + length b) rs bs')"

lemma encode_record_nonempty: "encode_record env r = Inr b \<Longrightarrow> b \<noteq> []"
  by (erule encode_record_shape) (auto dest: arg_cong [of _ _ length])

lemma framed_append:
  "framed env p (rs @ rs') bs \<longleftrightarrow> (\<exists>b b'. bs = b @ b' \<and> framed env p rs b \<and> framed env (p + length b) rs' b')"
proof (induction rs arbitrary: p bs)
  case (Cons r rs)
  show ?case
  proof
    assume "framed env p ((r # rs) @ rs') bs"
    then obtain b bs' b1 b2 where "bs = b @ bs'" "encode_record env r = Inr b" "kind_wf (wr_kind r)" "unat (wr_lsn r) = p + length b"
      "bs' = b1 @ b2" "framed env (p + length b) rs b1" "framed env (p + length b + length b1) rs' b2"
      using Cons.IH by auto
    then show "\<exists>b b'. bs = b @ b' \<and> framed env p (r # rs) b \<and> framed env (p + length b) rs' b'"
      by (intro exI [of _ "b @ b1"] exI [of _ b2]) (auto simp: add.assoc)
  next
    assume "\<exists>b b'. bs = b @ b' \<and> framed env p (r # rs) b \<and> framed env (p + length b) rs' b'"
    then show "framed env p ((r # rs) @ rs') bs" using Cons.IH by (fastforce simp: add.assoc)
  qed
qed simp

lemma framed_unique: "framed env p rs bs \<Longrightarrow> framed env p rs bs' \<Longrightarrow> bs = bs'"
proof (induction rs arbitrary: p bs bs')
  case (Cons r rs)
  from Cons.prems obtain b b1 b2 where "bs = b @ b1" "bs' = b @ b2" "framed env (p + length b) rs b1" "framed env (p + length b) rs b2"
    by auto
  with Cons.IH show ?case by blast
qed simp

lemma framed_lsn: "framed env p rs bs \<Longrightarrow> r \<in> set rs \<Longrightarrow> p < unat (wr_lsn r) \<and> unat (wr_lsn r) \<le> p + length bs"
proof (induction rs arbitrary: p bs)
  case (Cons a rs)
  from Cons.prems(1) obtain b bs' where b: "bs = b @ bs'" "encode_record env a = Inr b" "unat (wr_lsn a) = p + length b"
    "framed env (p + length b) rs bs'" by auto
  from encode_record_nonempty [OF b(2)] show ?case using b Cons.IH [OF b(4)] Cons.prems(2) by auto
qed simp

lemma wp_read_frame:
  assumes l: "loose x u L t s" and env: "json_ok env" "cx_crc x = we_crc env"
    and r: "cx_floor x \<le> sr_position r" "reader_ok s r" "sr_end r = length L"
    and f: "framed env (sr_position r) (rec # rs) (drop (sr_position r) L)" "sr_position r \<le> length L"
    and Q: "\<And>r'. reader_ok s r' \<Longrightarrow> sr_end r' = length L \<Longrightarrow> sr_position r < sr_position r' \<Longrightarrow> sr_position r' = unat (wr_lsn rec)
      \<Longrightarrow> sr_position r' \<le> length L \<Longrightarrow> framed env (sr_position r') rs (drop (sr_position r') L) \<Longrightarrow> Q (Some rec, r') s"
    and E: "E s"
  shows "wp (read_frame env r) Q E s"
proof -
  let ?p = "sr_position r"
  from f obtain b bs where b: "drop ?p L = b @ bs" "encode_record env rec = Inr b" "kind_wf (wr_kind rec)"
    "unat (wr_lsn rec) = ?p + length b" "framed env (?p + length b) rs bs" by auto
  have len: "?p + length b + length bs = length L" using arg_cong [OF b(1), of length] f(2) by simp
  have lim: "length L < u64_limit" using l by (simp add: loose_def in_range_def)
  have usize: "length b \<le> USIZE_MAX" using len lim by (simp add: segment_consts)
  have h: "HEADER_LEN < length b" "frame_len_from_header (take HEADER_LEN b) = Inr (length b)"
    using frame_decodes [OF env(1) b(3,2), of "[]" "[]"] usize by auto
  have dec: "decode_record env b = Inr rec" using frame_decodes_record [OF env(1) b(3,2) usize] .
  have hd: "take HEADER_LEN (drop ?p L) = take HEADER_LEN b" using h by (simp add: b(1))
  have rest: "take (length b - HEADER_LEN) (drop (?p + HEADER_LEN) L) = drop HEADER_LEN b"
    using h by (simp add: b(1) add.commute flip: drop_drop)
  have tail: "drop (?p + length b) L = bs" by (simp add: b(1) add.commute flip: drop_drop)
  have "wp (read_exact_vec (cx_crc x) (length b - HEADER_LEN) r1) (\<lambda>(o', r'). wp (case o' of None \<Rightarrow> io_ok (None, r')
      | Some rest \<Rightarrow> io_then (io_lift (decode_record env (take HEADER_LEN b @ rest))) (\<lambda>rec.
          if length b \<ge> u64_limit then io_err (wal_error ''WAL frame length does not fit u64'')
          else if ?p + length b \<ge> u64_limit then io_err (wal_error ''WAL frame end overflows'')
          else if unat (wr_lsn rec) \<noteq> ?p + length b \<or> sr_position r' \<noteq> ?p + length b
          then io_err (wal_error ''stored WAL LSN does not match its byte position'')
          else io_ok (Some rec, r'))) Q E) E s"
    if r1: "sr_position r1 = ?p + HEADER_LEN" "sr_end r1 = length L" "reader_ok s r1" for r1
    by (rule wp_read_exact_vec [OF l])
      (use r r1 len h lim dec b tail in \<open>auto simp: rest intro!: wp_rules E Q\<close>)
  then have second: "wp (io_then (read_exact_vec (cx_crc x) (length b - HEADER_LEN) r1) (\<lambda>(o', r'). case o' of None \<Rightarrow> io_ok (None, r')
      | Some rest \<Rightarrow> io_then (io_lift (decode_record env (take HEADER_LEN b @ rest))) (\<lambda>rec.
          if length b \<ge> u64_limit then io_err (wal_error ''WAL frame length does not fit u64'')
          else if ?p + length b \<ge> u64_limit then io_err (wal_error ''WAL frame end overflows'')
          else if unat (wr_lsn rec) \<noteq> ?p + length b \<or> sr_position r' \<noteq> ?p + length b
          then io_err (wal_error ''stored WAL LSN does not match its byte position'')
          else io_ok (Some rec, r')))) Q E s"
    if "sr_position r1 = ?p + HEADER_LEN" "sr_end r1 = length L" "reader_ok s r1" for r1
    using that by (intro wp_then) (auto simp: case_prod_unfold)
  have "remaining r \<noteq> 0" using len h r by (simp add: remaining_def)
  then show ?thesis unfolding read_frame_def Let_def env(2) [symmetric]
    by (simp only: if_False, intro wp_then, intro wp_read_exact_vec [OF l])
      (use r len h second in \<open>auto simp: hd intro!: E wp_then wp_lift\<close>)
qed

lemma scan_stream_io:
  "scan_stream env visit r acc =
     (if remaining r > 0 then io_then (read_frame env r) (\<lambda>(o', r'). case o' of
        None \<Rightarrow> io_err (wal_error ''durable WAL record is incomplete'') | Some rec \<Rightarrow> scan_stream env visit r' (visit rec acc))
      else io_ok acc)"
  by (rule ext, subst scan_stream.simps)
    (auto simp: io_then_def io_ok_def io_err_def split: prod.splits sum.splits option.splits)

lemma wp_scan_stream:
  assumes l: "loose x u L t s" and env: "json_ok env" "cx_crc x = we_crc env"
    and "cx_floor x \<le> sr_position r" "reader_ok s r" "sr_end r = length L"
      "framed env (sr_position r) rs (drop (sr_position r) L)" "sr_position r \<le> length L"
    and "Q (fold visit rs acc) s" "E s"
  shows "wp (scan_stream env visit r acc) Q E s"
  using assms(4-)
proof (induction rs arbitrary: r acc)
  case Nil
  then show ?case by (subst scan_stream_io) (auto simp: remaining_def intro: wp_ok)
next
  case (Cons rec rs)
  from Cons.prems(4) have "drop (sr_position r) L \<noteq> []" by (auto dest: encode_record_nonempty)
  then have "remaining r > 0" using Cons.prems by (simp add: remaining_def)
  then show ?case
    by (subst scan_stream_io, simp only: if_True, intro wp_then wp_read_frame [OF l env Cons.prems(1-5)])
      (use Cons in \<open>auto\<close>)
qed

text \<open>The records with the positions they start at.\<close>

fun entries_from :: "nat \<Rightarrow> 'b wal_record list \<Rightarrow> 'b wal_entry list" where
  "entries_from p [] = []"
| "entries_from p (r # rs) = \<lparr>en_replay_from = p, en_record = r\<rparr> # entries_from (unat (wr_lsn r)) rs"

lemma replay_items_ok:
  assumes l: "loose x u L t (dk_store d)" and env: "json_ok env" "cx_crc x = we_crc env"
    and "cx_floor x \<le> sr_position r" "reader_ok (dk_store d) r" "sr_end r = length L"
      "framed env (sr_position r) rs (drop (sr_position r) L)" "sr_position r \<le> length L"
  shows "\<exists>items d'. replay_items env threshold r d = (items, d') \<and> dk_store d' = dk_store d
    \<and> (nf (dk_faults d) \<longrightarrow> nf (dk_faults d')
        \<and> items = map Inr (filter (\<lambda>e. threshold \<le> en_replay_from e) (entries_from (sr_position r) rs)))"
  using assms
proof (induction rs arbitrary: r d)
  case Nil
  then have "read_frame env r d = (Inr (None, r), d)" by (simp add: read_frame_def remaining_def io_ok_def)
  then show ?case by (subst replay_items.simps) simp
next
  case (Cons rec rs)
  let ?s = "dk_store d"
  have "wp (read_frame env r) (\<lambda>(o', r') s'. s' = ?s \<and> o' = Some rec \<and> reader_ok ?s r' \<and> sr_end r' = length L
      \<and> sr_position r < sr_position r' \<and> sr_position r' = unat (wr_lsn rec) \<and> sr_position r' \<le> length L
      \<and> framed env (sr_position r') rs (drop (sr_position r') L)) (\<lambda>s'. s' = ?s) ?s"
    by (rule wp_read_frame [OF Cons.prems]) auto
  then show ?case
  proof (cases rule: wp_cases)
    case (ok a d1)
    then obtain r1 where a: "a = (Some rec, r1)" "dk_store d1 = ?s" "reader_ok ?s r1" "sr_end r1 = length L"
      "sr_position r < sr_position r1" "sr_position r1 = unat (wr_lsn rec)" "sr_position r1 \<le> length L"
      "framed env (sr_position r1) rs (drop (sr_position r1) L)" by auto
    have "\<exists>items d'. replay_items env threshold r1 d1 = (items, d') \<and> dk_store d' = dk_store d1
      \<and> (nf (dk_faults d1) \<longrightarrow> nf (dk_faults d')
          \<and> items = map Inr (filter (\<lambda>e. threshold \<le> en_replay_from e) (entries_from (sr_position r1) rs)))"
      using Cons.prems(1,4) a by (intro Cons.IH env) simp_all
    then obtain items d2 where i: "replay_items env threshold r1 d1 = (items, d2)" "dk_store d2 = ?s"
      "nf (dk_faults d1) \<longrightarrow> nf (dk_faults d2) \<and> items = map Inr (filter (\<lambda>e. threshold \<le> en_replay_from e) (entries_from (unat (wr_lsn rec)) rs))"
      using a by auto
    then show ?thesis using ok(1,3) a by (subst replay_items.simps) (simp add: not_less)
  next
    case (err e d1)
    then show ?thesis by (subst replay_items.simps) simp
  qed
qed

end
