(* ===== verification/Wal_Anchor.thy ===== *)
theory Wal_Anchor
  imports Wal_Read
begin

text \<open>
  The files beside the segments: the metadata and the status file, and how replacing them leaves the
  stream alone.
\<close>

section \<open>Contexts taken at a store\<close>

definition anchors :: "store \<Rightarrow> inode set" where
  "anchors s = {i. (meta_path, i) \<in> links s \<or> (clog_path, i) \<in> links s}"

definition at_ctx :: "(u8 list \<Rightarrow> u32) \<Rightarrow> nat \<Rightarrow> nat \<Rightarrow> store \<Rightarrow> stream_ctx" where
  "at_ctx crc fl du s = \<lparr>cx_crc = crc, cx_floor = fl, cx_durable = du, cx_start = s, cx_keep = anchors s\<rparr>"

lemma at_ctx_simps [simp]:
  "cx_crc (at_ctx crc fl du s) = crc" "cx_floor (at_ctx crc fl du s) = fl" "cx_durable (at_ctx crc fl du s) = du"
  "cx_start (at_ctx crc fl du s) = s" "cx_keep (at_ctx crc fl du s) = anchors s"
  by (simp_all add: at_ctx_def)

definition grounded :: "store \<Rightarrow> bool" where
  "grounded s = (store_ok s \<and> (\<forall>n < u64_limit. sole s (segment_path n)))"

lemma ground_grounded: "ground x s \<Longrightarrow> grounded s"
  unfolding ground_def grounded_def by blast

lemma grounded_sole:
  "grounded s \<Longrightarrow> n < u64_limit \<Longrightarrow> (segment_path n, i) \<in> links s \<Longrightarrow> (q, i) \<in> links s \<Longrightarrow> q = segment_path n"
  unfolding grounded_def sole_def by blast

lemma grounded_ok: "grounded s \<Longrightarrow> store_ok s"
  unfolding grounded_def by blast

lemma clog_not_seg [simp]: "\<not> is_seg clog_path" "\<not> is_seg clog_tmp_path"
  by (simp_all add: clog_path_def clog_tmp_path_def)

lemma ground_at: "ground (at_ctx crc fl du s) s \<longleftrightarrow> grounded s"
proof
  assume g: "grounded s"
  show "ground (at_ctx crc fl du s) s"
  proof (rule groundI)
    show "store_ok s" using g by (rule grounded_ok)
    show "i \<notin> cx_keep (at_ctx crc fl du s)" if "is_seg p" "(p, i) \<in> links s" for p i
    proof
      assume "i \<in> cx_keep (at_ctx crc fl du s)"
      then have "(meta_path, i) \<in> links s \<or> (clog_path, i) \<in> links s" by (simp add: anchors_def)
      then obtain q where "(q, i) \<in> links s" "\<not> is_seg q" using not_seg(1) clog_not_seg(1) by blast
      moreover from that(1) obtain n where "n < u64_limit" "p = segment_path n" by (auto simp: is_seg_def)
      ultimately show False using grounded_sole [OF g _ _ \<open>(q, i) \<in> links s\<close>] that by metis
    qed
    show "i < dk_next s \<and> dk_files s i = dk_files (cx_start (at_ctx crc fl du s)) i" if "i \<in> cx_keep (at_ctx crc fl du s)" for i
      using that links_less [OF grounded_ok [OF g], of meta_path i] links_less [OF grounded_ok [OF g], of clog_path i]
      by (auto simp: anchors_def)
  qed (use grounded_sole [OF g] in \<open>simp_all add: fates_le_refl\<close>)
qed (rule ground_grounded)

lemma last_seg_at: "last_seg (at_ctx crc fl du s) e = last_seg (at_ctx crc fl du' s') e"
  by (simp add: last_seg_def)

lemma at_ctx_indep:
  "loose_file (at_ctx crc fl du s) = loose_file (at_ctx crc fl du s')" "exact_file (at_ctx crc fl du s) = exact_file (at_ctx crc fl du s')"
  "first_seg (at_ctx crc fl du s) = first_seg (at_ctx crc fl du s')" "in_range (at_ctx crc fl du s) = in_range (at_ctx crc fl du s')"
  "last_seg (at_ctx crc fl du s) = last_seg (at_ctx crc fl du s')"
  by (auto simp: fun_eq_iff loose_file_def exact_file_def first_seg_def in_range_def last_seg_def)

text \<open>A change beside the segments.\<close>

definition segs_same :: "store \<Rightarrow> store \<Rightarrow> bool" where
  "segs_same s s' =
     (grounded s' \<and> (\<forall>n < u64_limit. lookup s' (segment_path n) = lookup s (segment_path n)
        \<and> (settled s (segment_path n) \<longrightarrow> settled s' (segment_path n))
        \<and> (\<forall>i. lookup s (segment_path n) = Some i \<longrightarrow> dk_files s' i = dk_files s i)))"

lemma segs_same_refl: "grounded s \<Longrightarrow> segs_same s s"
  by (simp add: segs_same_def)

lemma segs_same_trans: "segs_same s s1 \<Longrightarrow> segs_same s1 s2 \<Longrightarrow> segs_same s s2"
  unfolding segs_same_def by auto

lemma segs_same_grounded: "segs_same s s' \<Longrightarrow> grounded s'"
  unfolding segs_same_def by blast

lemma segs_same_lookup: "segs_same s s' \<Longrightarrow> n < u64_limit \<Longrightarrow> lookup s' (segment_path n) = lookup s (segment_path n)"
  unfolding segs_same_def by blast

lemma segs_same_seg: "segs_same s s' \<Longrightarrow> n < u64_limit \<Longrightarrow> seg s n P \<Longrightarrow> seg s' n P"
  unfolding segs_same_def seg_def by force

lemma loose_same:
  assumes "loose (at_ctx crc fl du s0) u L t s" "segs_same s s'"
  shows "loose (at_ctx crc fl du s') u L t s'"
  using assms in_range_seg [of "at_ctx crc fl du s0" L] segs_same_seg [OF assms(2)] segs_same_lookup [OF assms(2)]
  unfolding loose_def ground_at at_ctx_indep [where s = s' and s' = s0]
  by (auto dest: segs_same_grounded)

lemma live_same:
  assumes "live (at_ctx crc fl du s0) u L s" "segs_same s s'"
  shows "live (at_ctx crc fl du s') u L s'"
  using assms in_range_seg [of "at_ctx crc fl du s0" L] segs_same_seg [OF assms(2)] segs_same_lookup [OF assms(2)]
  unfolding live_def ground_at at_ctx_indep [where s = s' and s' = s0]
  by (auto dest: segs_same_grounded)

lemma live_rebase: "live (at_ctx crc fl du s0) u L s \<Longrightarrow> live (at_ctx crc fl du s) u L s"
  using live_same segs_same_refl ground_grounded unfolding live_def by blast

lemma loose_rebase: "loose (at_ctx crc fl du s0) u L t s \<Longrightarrow> loose (at_ctx crc fl du s) u L t s"
  using loose_same segs_same_refl ground_grounded unfolding loose_def by blast

section \<open>Steps of a replacement\<close>

lemma grounded_inode:
  assumes "grounded s" "lookup s t = Some i" "\<not> is_seg t" "n < u64_limit"
  shows "(segment_path n, i) \<notin> links s"
  using grounded_sole [OF assms(1,4) _ lookup_links [OF assms(2)]] assms(3,4) by auto

lemma same_set_file:
  assumes "grounded s" "file_ok f" "\<And>n. n < u64_limit \<Longrightarrow> lookup s (segment_path n) \<noteq> Some i"
  shows "segs_same s (set_file i f s)"
  using assms by (auto simp: segs_same_def grounded_def sole_def store_simps store_ok_set_file)

lemma same_fresh:
  assumes g: "grounded s" and t: "\<not> is_seg t"
  shows "segs_same s (fresh_entry t s)"
proof -
  have new: "(q, dk_next s) \<notin> links s" for q using links_less [OF grounded_ok [OF g]] by blast
  have nt: "n < u64_limit \<Longrightarrow> segment_path n \<noteq> t" for n using t by auto
  have "sole (fresh_entry t s) (segment_path n)" if "n < u64_limit" for n
    unfolding sole_def fresh_entry_simps using grounded_sole [OF g that] new nt [OF that] by blast
  moreover have "dk_files (fresh_entry t s) i = dk_files s i" if "lookup s (segment_path n) = Some i" for n i
    using lookup_less [OF grounded_ok [OF g] that] by (simp add: store_simps)
  ultimately show ?thesis
    using g nt by (auto simp: segs_same_def grounded_def store_simps store_ok_fresh)
qed

lemma same_scratched:
  assumes g: "grounded s" and t: "\<not> is_seg t" and s': "scratched t s s'"
  shows "segs_same s s'"
proof -
  consider "s' = s" | i f where "file_ok f" "lookup s t = Some i" "s' = set_file i f s"
    | f where "file_ok f" "s' = set_file (dk_next s) f (fresh_entry t s)"
    using s' unfolding scratched_def by blast
  then show ?thesis
  proof cases
    case 1 then show ?thesis using g by (simp add: segs_same_refl)
  next
    case (2 i f)
    have "lookup s (segment_path n) \<noteq> Some i" if "n < u64_limit" for n
      using grounded_inode [OF g 2(2) t that] lookup_links by blast
    then show ?thesis unfolding 2(3) by (intro same_set_file g 2(1))
  next
    case (3 f)
    have new: "lookup s q \<noteq> Some (dk_next s)" for q using lookup_less [OF grounded_ok [OF g]] by blast
    have f: "segs_same s (fresh_entry t s)" using g t by (rule same_fresh)
    have nt: "n < u64_limit \<Longrightarrow> segment_path n \<noteq> t" for n using t by auto
    have "segs_same (fresh_entry t s) s'" unfolding 3(2)
      using 3(1) new nt by (intro same_set_file segs_same_grounded [OF f]) (auto simp: store_simps)
    with f show ?thesis by (rule segs_same_trans)
  qed
qed

lemma same_rename:
  assumes g: "grounded s" and p: "\<not> is_seg p" "\<not> is_seg t" "fst p = fst t" and i: "lookup s t = Some i"
  shows "segs_same s (change_dir [(t, None), (p, Some i)] s)" (is "segs_same s ?s")
proof -
  have "store_ok ?s"
    using grounded_ok [OF g] lookup_less [OF grounded_ok [OF g] i] p(3)
    by (intro store_ok_change [of _ "fst p"]) (auto simp: in_dir_def)
  moreover have "sole ?s (segment_path n)" if "n < u64_limit" for n
    unfolding sole_def change_dir_simps using grounded_sole [OF g that] grounded_inode [OF g i p(2) that] p(1) is_seg_path [OF that]
    by auto
  moreover have "n < u64_limit \<Longrightarrow> segment_path n \<noteq> t \<and> segment_path n \<noteq> p" for n using p by auto
  ultimately show ?thesis by (auto simp: segs_same_def grounded_def store_simps)
qed

lemma same_flush:
  assumes "grounded s"
  shows "segs_same s (flush_dir dn s)"
proof -
  have "sole (flush_dir dn s) (segment_path n)" if "n < u64_limit" for n
    unfolding sole_def using grounded_sole [OF assms that] flush_dir_links [OF grounded_ok [OF assms], of dn] by blast
  then show ?thesis
    using grounded_ok [OF assms] by (simp add: segs_same_def grounded_def store_simps store_ok_flush_dir)
qed

lemma same_replaced:
  assumes g: "grounded s" and p: "\<not> is_seg p" "\<not> is_seg t" "fst p = fst t" and r: "replaced p t bs s s'"
  shows "segs_same s s'"
proof -
  obtain s1 i where s1: "scratched t s s1" "lookup s1 t = Some i" "s' = change_dir [(t, None), (p, Some i)] s1"
    using r unfolding replaced_def by blast
  have "segs_same s s1" using g p(2) s1(1) by (rule same_scratched)
  moreover from this have "segs_same s1 s'" unfolding s1(3) by (intro same_rename p s1(2) segs_same_grounded)
  ultimately show ?thesis by (rule segs_same_trans)
qed

section \<open>The two directories\<close>

definition tidy :: "store \<Rightarrow> bool" where
  "tidy s = ((\<forall>p i. (p, i) \<in> links s \<longrightarrow> fst p = WalDir \<longrightarrow> is_seg p \<or> p = meta_path \<or> p = meta_tmp_path)
     \<and> (\<forall>p q i. (p, i) \<in> links s \<longrightarrow> (q, i) \<in> links s \<longrightarrow> fst p = fst q))"

lemma tidy_wal: "tidy s \<Longrightarrow> (p, i) \<in> links s \<Longrightarrow> fst p = WalDir \<Longrightarrow> is_seg p \<or> p = meta_path \<or> p = meta_tmp_path"
  unfolding tidy_def by blast

lemma tidy_parted: "tidy s \<Longrightarrow> (p, i) \<in> links s \<Longrightarrow> (q, i) \<in> links s \<Longrightarrow> fst p = fst q"
  unfolding tidy_def by blast

lemma tidy_sub: "tidy s \<Longrightarrow> links s' \<subseteq> links s \<Longrightarrow> tidy s'"
  unfolding tidy_def by blast

lemma tidyI:
  assumes "\<And>p i. (p, i) \<in> links s \<Longrightarrow> fst p = WalDir \<Longrightarrow> is_seg p \<or> p = meta_path \<or> p = meta_tmp_path"
    "\<And>p q i. (p, i) \<in> links s \<Longrightarrow> (q, i) \<in> links s \<Longrightarrow> fst p = fst q"
  shows "tidy s"
  unfolding tidy_def using assms by blast

lemma tidy_fresh:
  assumes "tidy s" "store_ok s" "fst t = DataDir \<or> is_seg t \<or> t = meta_tmp_path \<or> t = meta_path"
  shows "tidy (fresh_entry t s)"
proof -
  have new: "(q, dk_next s) \<notin> links s" for q using links_less [OF assms(2)] by blast
  have "fst p = fst q" if "(p, i) \<in> links (fresh_entry t s)" "(q, i) \<in> links (fresh_entry t s)" for p q i
    using that tidy_parted [OF assms(1)] new unfolding fresh_entry_simps by blast
  moreover have "is_seg p \<or> p = meta_path \<or> p = meta_tmp_path" if "(p, i) \<in> links (fresh_entry t s)" "fst p = WalDir" for p i
    using that tidy_wal [OF assms(1)] assms(3) unfolding fresh_entry_simps by fastforce
  ultimately show ?thesis by (intro tidyI) blast+
qed

lemma tidy_set_file: "tidy (set_file i f s) = tidy s"
  by (simp add: tidy_def store_simps)

lemma tidy_scratched: "tidy s \<Longrightarrow> store_ok s \<Longrightarrow> fst t = DataDir \<or> t = meta_tmp_path \<Longrightarrow> scratched t s s' \<Longrightarrow> tidy s'"
  unfolding scratched_def using tidy_fresh [of s t] by (auto simp: tidy_set_file)

lemma tidy_rename:
  assumes "tidy s" "lookup s t = Some i" "fst p = fst t" "fst p = DataDir \<or> p = meta_path"
  shows "tidy (change_dir [(t, None), (p, Some i)] s)"
proof -
  have t: "(t, i) \<in> links s" using assms(2) by (rule lookup_links)
  have links: "links (change_dir [(t, None), (p, Some i)] s) = insert (p, i) (links s)" by (auto simp: store_simps)
  have "fst q = fst r" if "(q, j) \<in> insert (p, i) (links s)" "(r, j) \<in> insert (p, i) (links s)" for q r j
    using that tidy_parted [OF assms(1) _ t] tidy_parted [OF assms(1)] assms(3) by (metis Pair_inject insert_iff)
  then show ?thesis
    unfolding tidy_def links using tidy_wal [OF assms(1)] assms(4) by fastforce
qed

lemma tidy_flush: "tidy s \<Longrightarrow> store_ok s \<Longrightarrow> tidy (flush_dir dn s)"
  using tidy_sub flush_dir_links by blast

lemma tidy_ground:
  assumes g: "ground x s" and t: "tidy (cx_start x)"
  shows "tidy s"
proof (rule tidyI)
  show "is_seg p \<or> p = meta_path \<or> p = meta_tmp_path" if "(p, i) \<in> links s" "fst p = WalDir" for p i
    using ground_other(3) [OF g _ that(1)] tidy_wal [OF t _ that(2)] by blast
  fix p q i assume l: "(p, i) \<in> links s" "(q, i) \<in> links s"
  have sole: "q' = p'" if "is_seg p'" "(p', i) \<in> links s" "(q', i) \<in> links s" for p' q'
    using that ground_sole [OF g] unfolding is_seg_def by blast
  show "fst p = fst q"
  proof (cases "is_seg p \<or> is_seg q")
    case True
    then show ?thesis using sole l by blast
  next
    case False
    then show ?thesis using ground_other(3) [OF g] tidy_parted [OF t] l by blast
  qed
qed

text \<open>A change in the other directory, or an fsync.\<close>

definition dir_same :: "dir_name \<Rightarrow> store \<Rightarrow> store \<Rightarrow> bool" where
  "dir_same dn s s' =
     (fates_le (\<lambda>q. fst q = dn) s' s
      \<and> (\<forall>q i. fst q = dn \<longrightarrow> (q, i) \<in> links s' \<longrightarrow> (q, i) \<in> links s \<and> dk_files s' i = dk_files s i)
      \<and> (\<forall>q. fst q = dn \<longrightarrow> lookup s' q = lookup s q \<and> (settled s q \<longrightarrow> settled s' q)))"

lemma dir_sameI:
  assumes "fates_le (\<lambda>q. fst q = dn) s' s"
    "\<And>q i. fst q = dn \<Longrightarrow> (q, i) \<in> links s' \<Longrightarrow> (q, i) \<in> links s \<and> dk_files s' i = dk_files s i"
    "\<And>q. fst q = dn \<Longrightarrow> lookup s' q = lookup s q" "\<And>q. fst q = dn \<Longrightarrow> settled s q \<Longrightarrow> settled s' q"
  shows "dir_same dn s s'"
  unfolding dir_same_def using assms by blast

lemma dir_sameD:
  assumes "dir_same dn s s'"
  shows "fates_le (\<lambda>q. fst q = dn) s' s"
    "fst q = dn \<Longrightarrow> (q, i) \<in> links s' \<Longrightarrow> (q, i) \<in> links s \<and> dk_files s' i = dk_files s i"
    "fst q = dn \<Longrightarrow> lookup s' q = lookup s q" "fst q = dn \<Longrightarrow> settled s q \<Longrightarrow> settled s' q"
  using assms unfolding dir_same_def by blast+

lemma dir_same_refl: "dir_same dn s s"
  by (simp add: dir_same_def fates_le_refl)

lemma dir_same_trans:
  assumes "dir_same dn s s1" "dir_same dn s1 s2"
  shows "dir_same dn s s2"
proof (rule dir_sameI)
  show "fates_le (\<lambda>q. fst q = dn) s2 s" using dir_sameD(1) [OF assms(2)] dir_sameD(1) [OF assms(1)] by (rule fates_le_trans)
  show "(q, i) \<in> links s \<and> dk_files s2 i = dk_files s i" if "fst q = dn" "(q, i) \<in> links s2" for q i
    using dir_sameD(2) [OF assms(2) that] dir_sameD(2) [OF assms(1) that(1)] by simp
qed (use dir_sameD(3,4) [OF assms(1)] dir_sameD(3,4) [OF assms(2)] in simp_all)

lemma dir_same_replaceable:
  assumes "dir_same dn s s'" "replaceable p t G s" "fst p = dn" "fst t = dn"
  shows "replaceable p t G s'"
  using replaceable_fates [OF assms(2) dir_sameD(1) [OF assms(1)] assms(3,4) dir_sameD(2) [OF assms(1,3)] dir_sameD(3) [OF assms(1,4)]] .

lemma dir_same_set_file:
  assumes "\<And>q. fst q = dn \<Longrightarrow> (q, i) \<notin> links s"
  shows "dir_same dn s (set_file i f s)"
  by (rule dir_sameI) (use assms in \<open>auto simp: store_simps fates_le_file fates_le_refl\<close>)

lemma dir_same_fresh:
  assumes "store_ok s" "fst t \<noteq> dn"
  shows "dir_same dn s (fresh_entry t s)"
proof (rule dir_sameI)
  show "fates_le (\<lambda>q. fst q = dn) (fresh_entry t s) s" using assms(2) by (rule fates_le_fresh)
  show "(q, i) \<in> links s \<and> dk_files (fresh_entry t s) i = dk_files s i" if "fst q = dn" "(q, i) \<in> links (fresh_entry t s)" for q i
    using that assms links_less [OF assms(1), of q i] by (auto simp: store_simps)
qed (use assms(2) in \<open>auto simp: store_simps\<close>)

lemma dir_same_change:
  assumes "\<And>p. fst p = dn \<Longrightarrow> p \<notin> fst ` set c"
  shows "dir_same dn s (change_dir c s)"
proof (rule dir_sameI)
  show "fates_le (\<lambda>q. fst q = dn) (change_dir c s) s" using assms by (rule fates_le_change)
  fix q :: path
  assume q: "fst q = dn"
  show "(q, i) \<in> links s \<and> dk_files (change_dir c s) i = dk_files s i" if "(q, i) \<in> links (change_dir c s)" for i
    using that assms [OF q] by (force simp: store_simps)
  show "lookup (change_dir c s) q = lookup s q" "settled s q \<Longrightarrow> settled (change_dir c s) q"
    using assms [OF q] by (simp_all add: store_simps fold_untouched)
qed

lemma dir_same_flush: "store_ok s \<Longrightarrow> dir_same dn s (flush_dir dn' s)"
  by (rule dir_sameI) (use flush_dir_links [of s dn'] in \<open>auto simp: store_simps fates_le_flush\<close>)

lemma dir_same_scratched:
  assumes "tidy s" "store_ok s" "fst t \<noteq> dn" and s': "scratched t s s'"
  shows "dir_same dn s s'"
proof -
  consider "s' = s" | i f where "lookup s t = Some i" "s' = set_file i f s"
    | f where "s' = set_file (dk_next s) f (fresh_entry t s)"
    using s' unfolding scratched_def by blast
  then show ?thesis
  proof cases
    case (2 i f)
    have "(q, i) \<notin> links s" if "fst q = dn" for q
      using tidy_parted [OF assms(1) lookup_links [OF 2(1)]] that assms(3) by blast
    then show ?thesis unfolding 2(2) by (rule dir_same_set_file)
  next
    case (3 f)
    have new: "(q, dk_next s) \<notin> links s" for q using links_less [OF assms(2)] by blast
    have "(q, dk_next s) \<notin> links (fresh_entry t s)" if "fst q = dn" for q
      using new that assms(3) unfolding fresh_entry_simps by blast
    then have "dir_same dn (fresh_entry t s) s'" unfolding 3 by (rule dir_same_set_file)
    with dir_same_fresh [OF assms(2,3)] show ?thesis by (rule dir_same_trans)
  qed (simp add: dir_same_refl)
qed

lemma store_ok_scratched: "store_ok s \<Longrightarrow> scratched t s s' \<Longrightarrow> store_ok s'"
  unfolding scratched_def by (auto intro: store_ok_set_file store_ok_fresh)

lemma dir_same_replaced:
  assumes "tidy s" "store_ok s" "fst t \<noteq> dn" "fst p \<noteq> dn" and r: "replaced p t bs s s'"
  shows "dir_same dn s s'"
proof -
  obtain s1 i where s1: "scratched t s s1" "s' = change_dir [(t, None), (p, Some i)] s1"
    using r unfolding replaced_def by blast
  have "dir_same dn s1 s'" unfolding s1(2) using assms(3,4) by (intro dir_same_change) auto
  with dir_same_scratched [OF assms(1-3) s1(1)] show ?thesis by (rule dir_same_trans)
qed

end
