(* ===== verification/Wal_Stable.thy ===== *)
theory Wal_Stable
  imports Wal_Anchor
begin

text \<open>
  What a crash of the machine leaves of the log: the metadata names a durable end, the records up to
  it are in the segments, and the status file fits them.
\<close>

section \<open>Records and positions\<close>

definition boundary :: "'b wal_record list \<Rightarrow> nat \<Rightarrow> bool" where
  "boundary rs p = (p = 0 \<or> (\<exists>r \<in> set rs. unat (wr_lsn r) = p))"

definition log_upto :: "nat \<Rightarrow> 'b wal_record list \<Rightarrow> 'b wal_record list" where
  "log_upto e rs = takeWhile (\<lambda>r. unat (wr_lsn r) \<le> e) rs"

definition log_after :: "nat \<Rightarrow> 'b wal_record list \<Rightarrow> 'b wal_record list" where
  "log_after e rs = dropWhile (\<lambda>r. unat (wr_lsn r) \<le> e) rs"

lemma upto_after: "log_upto e rs @ log_after e rs = rs"
  by (simp add: log_upto_def log_after_def)

lemma framed_split:
  assumes "framed env p rs L" "p \<le> e" "e = p \<or> (\<exists>r \<in> set rs. unat (wr_lsn r) = e)"
  shows "framed env p (log_upto e rs) (take (e - p) L) \<and> framed env e (log_after e rs) (drop (e - p) L) \<and> e \<le> p + length L"
  using assms
proof (induction rs arbitrary: p L)
  case Nil
  then show ?case by (simp add: log_upto_def log_after_def)
next
  case (Cons r rs)
  from Cons.prems(1) obtain b L' where b: "L = b @ L'" "encode_record env r = Inr b" "kind_wf (wr_kind r)"
    "unat (wr_lsn r) = p + length b" "framed env (p + length b) rs L'" by auto
  have pos: "0 < length b" using encode_record_nonempty [OF b(2)] by simp
  show ?case
  proof (cases "p + length b \<le> e")
    case True
    have "e = p + length b \<or> (\<exists>r \<in> set rs. unat (wr_lsn r) = e)" using Cons.prems(3) b(4) pos True by auto
    from Cons.IH [OF b(5) True this] show ?thesis using b True by (auto simp: log_upto_def log_after_def)
  next
    case False
    have "e = p"
    proof (rule ccontr)
      assume "e \<noteq> p"
      then obtain r' where "r' \<in> set (r # rs)" "unat (wr_lsn r') = e" using Cons.prems(3) by blast
      then show False using False b(4) framed_lsn [OF b(5), of r'] by auto
    qed
    then show ?thesis using Cons.prems(1) False b(4) by (simp add: log_upto_def log_after_def)
  qed
qed

lemma framed_upto: "framed env 0 rs L \<Longrightarrow> boundary rs e \<Longrightarrow> framed env 0 (log_upto e rs) (take e L)"
  using framed_split [of env 0 rs L e] by (auto simp: boundary_def)

lemma framed_after: "framed env 0 rs L \<Longrightarrow> boundary rs e \<Longrightarrow> framed env e (log_after e rs) (drop e L)"
  using framed_split [of env 0 rs L e] by (auto simp: boundary_def)

lemma boundary_le: "framed env 0 rs L \<Longrightarrow> boundary rs e \<Longrightarrow> e \<le> length L"
  using framed_split [of env 0 rs L e] by (auto simp: boundary_def)

lemma framed_end: "framed env p rs L \<Longrightarrow> rs \<noteq> [] \<Longrightarrow> \<exists>r \<in> set rs. unat (wr_lsn r) = p + length L"
proof (induction rs arbitrary: p L)
  case (Cons r rs)
  from Cons.prems(1) obtain b L' where b: "L = b @ L'" "unat (wr_lsn r) = p + length b" "framed env (p + length b) rs L'" by auto
  show ?case
  proof (cases rs)
    case Nil then show ?thesis using b by simp
  next
    case (Cons r' rs')
    then show ?thesis using Cons.IH [OF b(3)] b(1) by (auto simp: add.assoc)
  qed
qed simp

lemma boundary_end: "framed env 0 rs L \<Longrightarrow> boundary rs (length L)"
  using framed_end [of env 0 rs L] by (cases rs) (auto simp: boundary_def)

lemma upto_upto: "e \<le> e' \<Longrightarrow> log_upto e (log_upto e' rs) = log_upto e rs"
  unfolding log_upto_def by (induction rs) auto

lemma upto_all: "framed env 0 rs L \<Longrightarrow> length L \<le> e \<Longrightarrow> log_upto e rs = rs"
  unfolding log_upto_def by (intro takeWhile_eq_all_conv [THEN iffD2]) (auto dest: framed_lsn)

lemma boundary_upto:
  assumes "framed env 0 rs L" "boundary rs e'"
  shows "boundary (log_upto e' rs) e \<longleftrightarrow> boundary rs e \<and> e \<le> e'"
proof -
  have "framed env 0 (log_upto e' rs @ log_after e' rs) L" using assms(1) by (simp add: upto_after)
  have up: "\<And>r. r \<in> set (log_upto e' rs) \<Longrightarrow> unat (wr_lsn r) \<le> e'" unfolding log_upto_def by (auto dest: set_takeWhileD)
  have "\<And>r. r \<in> set (log_after e' rs) \<Longrightarrow> e' < unat (wr_lsn r)"
    using framed_after [OF assms] by (auto dest: framed_lsn)
  moreover have "set rs = set (log_upto e' rs) \<union> set (log_after e' rs)" by (metis set_append upto_after)
  ultimately show ?thesis unfolding boundary_def using up by force
qed

section \<open>The status file\<close>

definition fits :: "('b wal_record list \<Rightarrow> clog_snapshot \<Rightarrow> bool) \<Rightarrow> 'b wal_record list \<Rightarrow> nat \<Rightarrow> nat \<Rightarrow> clog_snapshot \<Rightarrow> bool" where
  "fits P rs fl du sn =
     (fl \<le> unat (cs_clog_lsn sn) \<and> fl \<le> unat (cs_authorized_replay_floor sn) \<and> unat (cs_clog_lsn sn) \<le> du
      \<and> boundary rs (unat (cs_clog_lsn sn)) \<and> boundary rs (unat (cs_authorized_replay_floor sn))
      \<and> unat (cs_authorized_replay_floor sn) \<le> unat (cs_clog_lsn sn) \<and> P (log_upto (unat (cs_clog_lsn sn)) rs) sn)"

definition clog_good ::
  "'b log_env \<Rightarrow> ('b wal_record list \<Rightarrow> clog_snapshot \<Rightarrow> bool) \<Rightarrow> 'b wal_record list \<Rightarrow> nat \<Rightarrow> nat \<Rightarrow> u8 list option \<Rightarrow> bool" where
  "clog_good env P rs fl du b =
     (case b of None \<Rightarrow> fl = 0
      | Some b \<Rightarrow> length b \<le> MAX_CLOG_FILE_BYTES
          \<and> (\<exists>sn. decode_clog (le_crc env) (le_clog_from_slice env) b = Inr sn \<and> fits P rs fl du sn))"

lemma fits_upto:
  assumes "framed env 0 rs L" "boundary rs e" "fits P rs fl du sn" "unat (cs_clog_lsn sn) \<le> e" "fl' \<le> fl" "unat (cs_clog_lsn sn) \<le> du'"
  shows "fits P (log_upto e rs) fl' du' sn"
  using assms by (auto simp: fits_def boundary_upto upto_upto)

section \<open>Metadata and the rest of the disk\<close>

definition meta_holds :: "(u8 list \<Rightarrow> u32) \<Rightarrow> (wal_meta \<Rightarrow> bool) \<Rightarrow> store \<Rightarrow> bool" where
  "meta_holds crc M = replaceable meta_path meta_tmp_path (\<lambda>b. \<exists>m. M m \<and> b = Some (encode_meta crc m))"

definition disk_base :: "store \<Rightarrow> bool" where
  "disk_base s = (grounded s \<and> tidy s \<and> wal_entry_ok s \<and> (\<forall>i. ((DataDir, ''wal.dat''), i) \<notin> links s))"

definition manifest_path :: path where "manifest_path = (DataDir, ''manifest.dat'')"

definition fresh_log :: "store \<Rightarrow> bool" where
  "fresh_log s = (lookup s clog_path = None \<and> lookup s manifest_path = None)"

definition quiet :: "store \<Rightarrow> bool" where
  "quiet s = (settled s clog_path \<and> settled s manifest_path)"

text \<open>What stands beside the segments, with the metadata in place.\<close>

definition beside ::
  "'b log_env \<Rightarrow> ('b wal_record list \<Rightarrow> clog_snapshot \<Rightarrow> bool) \<Rightarrow> 'b wal_record list \<Rightarrow> nat \<Rightarrow> nat \<Rightarrow> store \<Rightarrow> bool" where
  "beside env P rs fl du s =
     (disk_base s \<and> settled s meta_path \<and> settled s meta_tmp_path
      \<and> meta_holds (le_crc env) (\<lambda>m. m = \<lparr>wm_replay_floor = fl, wm_durable_end = du\<rparr>) s
      \<and> replaceable clog_path clog_tmp_path (clog_good env P rs fl du) s)"

text \<open>The log at rest: after a crash, or between attempts to open it.\<close>

definition at_rest ::
  "'b log_env \<Rightarrow> ('b wal_record list \<Rightarrow> clog_snapshot \<Rightarrow> bool) \<Rightarrow> 'b wal_record list \<Rightarrow> nat \<Rightarrow> u8 list \<Rightarrow> store \<Rightarrow> bool" where
  "at_rest env P rs fl L s =
     (beside env P rs fl (length L) s \<and> quiet s
      \<and> (loose (at_ctx (le_crc env) fl (length L) s) 0 L u64_limit s \<or> (L = [] \<and> fresh_log s)))"

definition whole_log :: "'b log_env \<Rightarrow> 'b wal_record list \<Rightarrow> nat \<Rightarrow> u8 list \<Rightarrow> bool" where
  "whole_log env rs fl L = (framed (le_wal env) 0 rs L \<and> boundary rs fl \<and> length L + seg_bytes < u64_limit)"

definition down ::
  "'b log_env \<Rightarrow> ('b wal_record list \<Rightarrow> clog_snapshot \<Rightarrow> bool) \<Rightarrow> 'b wal_record list \<Rightarrow> nat \<Rightarrow> store \<Rightarrow> bool" where
  "down env P rs c s = (\<exists>fl L. fl \<le> c \<and> whole_log env rs fl L \<and> at_rest env P rs fl L s)"

text \<open>
  What may stand on the disk while the outcome of a call is open: a set of metadata a crash can leave,
  for each of them its part of the stream, a status file that fits it and a snapshot about to be
  written that will. \<open>a\<close> is the position acknowledged to callers and \<open>c\<close> the position up to which they
  allowed the log to be dropped.
\<close>

definition candidate ::
  "'b log_env \<Rightarrow> ('b wal_record list \<Rightarrow> clog_snapshot \<Rightarrow> bool) \<Rightarrow> 'b wal_record list \<Rightarrow> u8 list \<Rightarrow> nat \<Rightarrow> nat
   \<Rightarrow> clog_snapshot option \<Rightarrow> store \<Rightarrow> wal_meta \<Rightarrow> bool" where
  "candidate env P rs L a c pend s m =
     (a \<le> wm_durable_end m \<and> wm_replay_floor m \<le> c \<and> boundary rs (wm_durable_end m) \<and> boundary rs (wm_replay_floor m)
      \<and> wm_replay_floor m \<le> wm_durable_end m \<and> wm_durable_end m + seg_bytes < u64_limit
      \<and> loose (at_ctx (le_crc env) (wm_replay_floor m) (wm_durable_end m) s) 0 (take (wm_durable_end m) L) u64_limit s
      \<and> replaceable clog_path clog_tmp_path (clog_good env P (log_upto (wm_durable_end m) rs) (wm_replay_floor m) (wm_durable_end m)) s
      \<and> (\<forall>sn. pend = Some sn \<longrightarrow> fits P (log_upto (wm_durable_end m) rs) (wm_replay_floor m) (wm_durable_end m) sn))"

definition frozen_at ::
  "'b log_env \<Rightarrow> ('b wal_record list \<Rightarrow> clog_snapshot \<Rightarrow> bool) \<Rightarrow> 'b wal_record list \<Rightarrow> u8 list \<Rightarrow> (wal_meta \<Rightarrow> bool) \<Rightarrow> nat \<Rightarrow> nat
   \<Rightarrow> clog_snapshot option \<Rightarrow> store \<Rightarrow> bool" where
  "frozen_at env P rs L M a c pend s =
     (framed (le_wal env) 0 rs L \<and> disk_base s \<and> meta_holds (le_crc env) M s \<and> (\<forall>m. M m \<longrightarrow> candidate env P rs L a c pend s m))"

definition frozen ::
  "'b log_env \<Rightarrow> ('b wal_record list \<Rightarrow> clog_snapshot \<Rightarrow> bool) \<Rightarrow> 'b wal_record list \<Rightarrow> nat \<Rightarrow> nat
   \<Rightarrow> clog_snapshot option \<Rightarrow> store \<Rightarrow> bool" where
  "frozen env P rs a c pend s = (\<exists>L M. frozen_at env P rs L M a c pend s)"

section \<open>Crashes\<close>

lemma crash_grounded: "grounded s \<Longrightarrow> crash s s' \<Longrightarrow> grounded s'"
  unfolding grounded_def sole_def using crash_store_ok crash_links by blast

lemma crash_tidy: "tidy s \<Longrightarrow> crash s s' \<Longrightarrow> tidy s'"
  using tidy_sub crash_links by blast

lemma crash_disk_base: "disk_base s \<Longrightarrow> crash s s' \<Longrightarrow> disk_base s'"
  unfolding disk_base_def using crash_grounded crash_tidy crash_wal_entry crash_links by blast

lemma crash_loose_file:
  assumes "loose_file x u L n f" "length L = cx_durable x" "n \<le> last_seg x (length L)" "n * seg_bytes < u64_limit" "file_after_crash f f'"
  shows "loose_file x u' L n f'"
proof -
  let ?b = "seg_header (cx_crc x) n @ chunk n L"
  have len: "length ?b \<le> fd_stable f" using assms(1-4) by (simp add: loose_file_def length_seg_header)
  have f': "fd_stable f \<le> length (fd_bytes f')" "length (fd_bytes f') \<le> fd_peak f" "take (fd_stable f) (fd_bytes f') = take (fd_stable f) (fd_bytes f)"
    "fd_stable f' = length (fd_bytes f')" "fd_peak f' = length (fd_bytes f')"
    using assms(5) by (simp_all add: file_after_crash_def Let_def)
  have "take (length ?b) (fd_bytes f) = ?b" using assms(1) by (auto simp: loose_file_def prefix_def)
  moreover have "take (length ?b) (fd_bytes f') = take (length ?b) (fd_bytes f)"
    using f'(3) len by (metis min_absorb1 take_take)
  ultimately have "prefix ?b (fd_bytes f')" by (metis take_is_prefix)
  moreover have "fd_peak f' \<le> SEGMENT_HEADER_LEN + seg_bytes" using assms(1) f' by (simp add: loose_file_def)
  ultimately show ?thesis using f' len assms(2,4) by (simp add: loose_file_def length_seg_header)
qed

lemma crash_loose:
  assumes l: "loose (at_ctx crc fl (length L) s) 0 L t s" and c: "crash s s'" and w: "wal_entry_ok s"
  shows "loose (at_ctx crc fl (length L) s') 0 L u64_limit s'"
proof -
  let ?x = "at_ctx crc fl (length L) s"
  have g: "ground ?x s" "in_range ?x L" using l by (simp_all add: loose_def)
  have "seg s' n (loose_file ?x 0 L n)" if n: "first_seg ?x \<le> n" "n \<le> last_seg ?x (length L)" for n
  proof -
    obtain i where i: "lookup s (segment_path n) = Some i" "settled s (segment_path n)" "loose_file ?x 0 L n (dk_files s i)"
      using l n unfolding loose_def seg_def by blast
    have "lookup s' (segment_path n) = Some i"
      using crash_lookup [OF c i(2)] w i(1) by (simp add: wal_entry_ok_def)
    moreover have "loose_file ?x 0 L n (dk_files s' i)"
      using crash_loose_file [OF i(3) _ n(2) in_range_seg(1) [OF g(2) n(2)] crash_file [OF c]] by simp
    ultimately show ?thesis using crash_settled [OF c] by (auto simp: seg_def)
  qed
  then show ?thesis
    using g(2) crash_grounded [OF ground_grounded [OF g(1)] c]
    unfolding loose_def ground_at at_ctx_indep [where s = s' and s' = s] by simp
qed

lemma frozen_crash:
  assumes "frozen env P rs a c pend s" and cr: "crash s s'"
  shows "\<exists>e \<ge> a. boundary rs e \<and> down env P (log_upto e rs) c s'"
proof -
  obtain L M where f: "framed (le_wal env) 0 rs L" and base: "disk_base s" and meta: "meta_holds (le_crc env) M s"
    and M: "\<And>m. M m \<Longrightarrow> candidate env P rs L a c pend s m"
    using assms(1) unfolding frozen_def frozen_at_def by blast
  have w: "wal_entry_ok s" using base by (simp add: disk_base_def)
  have meta': "meta_holds (le_crc env) M s'"
    using meta unfolding meta_holds_def by (rule crash_replaceable [OF _ cr]) (simp add: w)
  then obtain m i where m: "M m" "lookup s' meta_path = Some i" "bytes_of s' i = encode_meta (le_crc env) m"
    using replaceable_now unfolding meta_holds_def by fastforce
  let ?fl = "wm_replay_floor m" and ?e = "wm_durable_end m"
  note Mm = M [OF m(1), unfolded candidate_def]
  have len: "length (take ?e L) = ?e" using boundary_le [OF f] Mm by auto
  have "settled s' p" for p using cr by (rule crash_settled)
  moreover have eta: "\<lparr>wm_replay_floor = ?fl, wm_durable_end = ?e\<rparr> = m" by (cases m) simp
  moreover have "meta_holds (le_crc env) (\<lambda>m'. m' = \<lparr>wm_replay_floor = ?fl, wm_durable_end = ?e\<rparr>) s'"
    using meta' unfolding meta_holds_def eta
    by (intro replaceable_settled) (use m crash_settled [OF cr] in \<open>auto dest: replaceable_file [OF _ lookup_links]\<close>)
  moreover have "framed (le_wal env) 0 (log_upto ?e rs) (take ?e L)" using f Mm by (intro framed_upto) auto
  moreover have "boundary (log_upto ?e rs) ?fl" using boundary_upto [OF f] Mm by auto
  moreover have "replaceable clog_path clog_tmp_path (clog_good env P (log_upto ?e rs) ?fl ?e) s'"
    using Mm by (intro crash_replaceable [OF _ cr]) (auto simp: clog_path_def clog_tmp_path_def)
  moreover have "loose (at_ctx (le_crc env) ?fl (length (take ?e L)) s') 0 (take ?e L) u64_limit s'"
    using Mm cr w unfolding len by (intro crash_loose [of _ _ "take ?e L", unfolded len]) auto
  ultimately have "down env P (log_upto ?e rs) c s'"
    unfolding down_def at_rest_def whole_log_def beside_def quiet_def using crash_disk_base [OF base cr] Mm len by (intro exI [of _ ?fl] exI [of _ "take ?e L"]) (auto simp: len)
  then show ?thesis using Mm by blast
qed

section \<open>Work on the segments leaves the rest alone\<close>

lemma disk_base_ground:
  assumes g: "ground x s" and b: "disk_base (cx_start x)"
  shows "disk_base s"
proof -
  have "tidy s" using tidy_ground [OF g] b by (simp add: disk_base_def)
  moreover have "wal_entry_ok s"
    using b ground_other(1,2) [OF g not_seg(3)] by (simp add: disk_base_def wal_entry_ok_def)
  moreover have "((DataDir, ''wal.dat''), i) \<notin> links s" for i
    using b ground_other(3) [OF g not_seg(3)] unfolding disk_base_def by blast
  ultimately show ?thesis using ground_grounded [OF g] by (simp add: disk_base_def)
qed

lemma ground_meta:
  assumes g: "ground (at_ctx crc fl du s) s'" and m: "meta_holds c M s"
  shows "meta_holds c M s'"
  using m unfolding meta_holds_def by (intro ground_replaceable [OF g]) (simp_all add: anchors_def)

lemma ground_clog:
  assumes g: "ground (at_ctx crc fl du s) s'" and m: "replaceable clog_path clog_tmp_path G s"
  shows "replaceable clog_path clog_tmp_path G s'"
  using m by (intro ground_replaceable [OF g]) (simp_all add: anchors_def)

lemma beside_ground:
  assumes g: "ground (at_ctx crc fl' du' s) s'" and b: "beside env P rs fl du s"
  shows "beside env P rs fl du s'"
  using b disk_base_ground [OF g] ground_meta [OF g] ground_clog [OF g] ground_other(2) [OF g] by (simp add: beside_def)

lemma quiet_ground: "ground (at_ctx crc fl du s) s' \<Longrightarrow> quiet s \<Longrightarrow> quiet s'"
  using ground_other(2) [of "at_ctx crc fl du s" s'] by (simp add: quiet_def manifest_path_def)

lemma fresh_log_ground: "ground (at_ctx crc fl du s) s' \<Longrightarrow> fresh_log s' = fresh_log s"
  using ground_other(1) [of "at_ctx crc fl du s" s'] by (simp add: fresh_log_def manifest_path_def)

lemma disk_base_flush:
  assumes b: "disk_base s"
  shows "disk_base (flush_dir dn s)"
proof -
  have ok: "store_ok s" "grounded s" using b grounded_ok by (auto simp: disk_base_def)
  then have "grounded (flush_dir dn s)" using same_flush segs_same_grounded by blast
  then show ?thesis
    using b tidy_flush [of s dn] flush_dir_links [OF ok(1), of dn] ok(1)
    unfolding disk_base_def wal_entry_ok_def by (auto simp: store_simps)
qed

lemma replaceable_flush_any:
  assumes "store_ok s" "fst p = fst t" "replaceable p t G s"
  shows "replaceable p t G (flush_dir dn s)"
  using dir_same_replaceable [OF dir_same_flush [OF assms(1)] assms(3) refl] assms(2) by simp

lemma beside_flush: "beside env P rs fl du s \<Longrightarrow> beside env P rs fl du (flush_dir dn s)"
proof -
  assume b: "beside env P rs fl du s"
  have ok: "store_ok s" using b grounded_ok by (auto simp: beside_def disk_base_def)
  show ?thesis
    using b disk_base_flush [of s dn] replaceable_flush_any [OF ok, of meta_path meta_tmp_path]
      replaceable_flush_any [OF ok, of clog_path clog_tmp_path]
    by (simp add: beside_def store_simps ok meta_holds_def meta_path_def meta_tmp_path_def clog_path_def clog_tmp_path_def)
qed

lemma beside_ok: "beside env P rs fl du s \<Longrightarrow> store_ok s \<and> grounded s \<and> tidy s"
  using grounded_ok by (auto simp: beside_def disk_base_def)

end
