(* ===== verification/Wal_Recover.thy ===== *)
theory Wal_Recover
  imports Wal_Stable
begin

text \<open>
  Opening the log after a crash: whatever call fails the log stays recoverable, and without
  failing calls opening succeeds, with exactly the durable records.
\<close>

section \<open>Listing and removing segments\<close>

lemma plain_meta: "plain_name (snd meta_path)" "plain_name (snd meta_tmp_path)"
  by (simp_all add: plain_name_def meta_path_def meta_tmp_path_def)

lemma dir_names: "y \<in> set (map snd (filter (\<lambda>p. fst p = dn) ps)) \<longleftrightarrow> (dn, y) \<in> set ps"
proof
  assume "y \<in> set (map snd (filter (\<lambda>p. fst p = dn) ps))"
  then obtain p where "p \<in> set ps" "fst p = dn" "y = snd p" by auto
  then show "(dn, y) \<in> set ps" by (metis prod.collapse)
qed force

lemma wp_segment_numbers:
  assumes "tidy s" and Q: "\<And>ns. set ns = {n. n < u64_limit \<and> lookup s (segment_path n) \<noteq> None} \<Longrightarrow> Q ns s" and E: "E s"
  shows "wp segment_numbers Q E s"
proof -
  let ?names = "map snd (filter (\<lambda>p. fst p = WalDir) (hm_keys (entries s)))"
  have mem: "p \<in> set (hm_keys (entries s)) \<longleftrightarrow> lookup s p \<noteq> None" for p
    by (simp add: map_of_eq_None_iff)
  have "plain_name y \<or> is_seg (WalDir, y)" if "y \<in> set ?names" for y
  proof -
    from that have "lookup s (WalDir, y) \<noteq> None" using mem unfolding dir_names by blast
    then obtain i where "((WalDir, y), i) \<in> links s" using lookup_links by blast
    from tidy_wal [OF assms(1) this] show ?thesis using plain_meta by (metis fst_conv snd_conv)
  qed
  from segment_number_list_ok [OF this] obtain ns where
    ns: "segment_number_list ?names = Inr ns" "set ns = {n. n < u64_limit \<and> snd (segment_path n) \<in> set ?names}" by blast
  have "snd (segment_path n) \<in> set ?names \<longleftrightarrow> lookup s (segment_path n) \<noteq> None" for n
  proof -
    have "(WalDir, snd (segment_path n)) = segment_path n" by (simp add: segment_path_def)
    then show ?thesis unfolding dir_names using mem by metis
  qed
  with ns have "set ns = {n. n < u64_limit \<and> lookup s (segment_path n) \<noteq> None}" by simp
  then show ?thesis
    unfolding segment_numbers_def using ns(1) Q E by (intro wp_rules)
qed

lemma wp_remove_numbers:
  assumes J: "\<And>s n. J s \<Longrightarrow> n < u64_limit \<Longrightarrow> unwanted n \<Longrightarrow> J (change_dir [(segment_path n, None)] s)"
    and "J s" "\<And>n. n \<in> set ns \<Longrightarrow> n < u64_limit"
    and "\<And>r s'. J s' \<Longrightarrow> (\<And>n. n < u64_limit \<Longrightarrow> lookup s' (segment_path n) = (if unwanted n \<and> n \<in> set ns then None else lookup s (segment_path n)))
      \<Longrightarrow> Q r s'"
    and E: "\<And>s'. J s' \<Longrightarrow> E s'"
  shows "wp (remove_numbers unwanted ns removed) Q E s"
  using assms(2-4)
proof (induction ns arbitrary: removed s)
  case Nil
  then show ?case by (auto intro!: wp_ok)
next
  case (Cons n ns)
  have lim: "n < u64_limit" "\<And>m. m \<in> set ns \<Longrightarrow> m < u64_limit" using Cons.prems(2) by auto
  show ?case
  proof (cases "unwanted n")
    case True
    have go: "wp (remove_numbers unwanted ns True) Q E s1"
      if s1: "J s1" "\<And>m. m < u64_limit \<Longrightarrow> lookup s1 (segment_path m) = (if m = n then None else lookup s (segment_path m))" for s1
      by (rule Cons.IH [OF s1(1) lim(2)]) (use s1(2) True in \<open>auto intro!: Cons.prems(3)\<close>)
    have "wp (remove_segment n) (\<lambda>_. wp (remove_numbers unwanted ns True) Q E) E s"
    proof (rule wp_remove_segment)
      show "wp (remove_numbers unwanted ns True) Q E (change_dir [(segment_path n, None)] s)"
        using J [OF Cons.prems(1) lim(1) True] lim(1) by (intro go) (auto simp: store_simps segment_path_inj)
      show "wp (remove_numbers unwanted ns True) Q E s" if "lookup s (segment_path n) = None"
        using that Cons.prems(1) by (intro go) auto
    qed (rule E [OF Cons.prems(1)])
    then show ?thesis using True by (simp add: wp_then)
  next
    case False
    then have "wp (remove_numbers unwanted ns removed) Q E s"
      by (intro Cons.IH [OF Cons.prems(1) lim(2)] Cons.prems(3)) auto
    then show ?thesis using False by simp
  qed
qed

lemma wp_remove_unwanted:
  assumes J: "\<And>s n. J s \<Longrightarrow> n < u64_limit \<Longrightarrow> unwanted n \<Longrightarrow> J (change_dir [(segment_path n, None)] s)"
    "\<And>s. J s \<Longrightarrow> J (flush_dir WalDir s)" "\<And>s. J s \<Longrightarrow> store_ok s" and s: "J s" "tidy s"
    and Q: "\<And>s'. J s' \<Longrightarrow> (\<And>n. n < u64_limit \<Longrightarrow> lookup s' (segment_path n) = (if unwanted n then None else lookup s (segment_path n)))
      \<Longrightarrow> Q () s'"
    and E: "\<And>s'. J s' \<Longrightarrow> E s'"
  shows "wp (remove_unwanted unwanted) Q E s"
  unfolding remove_unwanted_def
proof (rule wp_then, rule wp_segment_numbers [OF s(2)])
  fix ns assume ns: "set ns = {n. n < u64_limit \<and> lookup s (segment_path n) \<noteq> None}"
  show "wp (io_then (remove_numbers unwanted ns False) (\<lambda>removed. if removed then sync_dir WalDir else io_ok ())) Q E s"
  proof (rule wp_then, rule wp_remove_numbers [where J = J and unwanted = unwanted and ns = ns])
    show "J s" by (rule s(1))
    show "J (change_dir [(segment_path n, None)] s')" if "J s'" "n < u64_limit" "unwanted n" for s' n using that by (rule J(1))
    show "n < u64_limit" if "n \<in> set ns" for n using that ns by simp
    show "E s'" if "J s'" for s' using that by (rule E)
    fix r s' assume s': "J s'" "\<And>n. n < u64_limit \<Longrightarrow> lookup s' (segment_path n) = (if unwanted n \<and> n \<in> set ns then None else lookup s (segment_path n))"
    have gone: "lookup s' (segment_path n) = (if unwanted n then None else lookup s (segment_path n))" if "n < u64_limit" for n
      using s'(2) [OF that] ns that by auto
    then have "Q () s'" "Q () (flush_dir WalDir s')"
      using Q s'(1) J(2) [OF s'(1)] J(3) [OF s'(1)] by (auto simp: store_simps)
    then show "wp (if r then sync_dir WalDir else io_ok ()) Q E s'"
      using E [OF s'(1)] by (auto intro!: wp_rules)
  qed
qed (rule E [OF s(1)])

section \<open>The end of the stream\<close>

lemma wp_recycle_orphaned:
  assumes l: "loose x u L t s" and t: "tidy s" and fl: "cx_floor x = fl"
    and Q: "\<And>s'. loose x u L t s' \<Longrightarrow> Q () s'" and E: "\<And>s'. loose x u L t s' \<Longrightarrow> E s'"
  shows "wp (recycle_orphaned_segments fl) Q E s"
  unfolding recycle_orphaned_segments_def Let_def
proof (rule wp_remove_unwanted [where J = "loose x u L t", OF _ _ _ l t])
  show "loose x u L t (change_dir [(segment_path n, None)] s)"
    if "loose x u L t s" "n < u64_limit" "n < fl div seg_bytes" for s n
    using that fl by (intro loose_remove) (auto simp: first_seg_def)
qed (use Q E in \<open>auto intro: loose_flush ground_ok loose_ground\<close>)

lemma loose_payload:
  assumes l: "loose x u L t s" and n: "first_seg x \<le> n" "n \<le> last_seg x (length L)"
  obtains i k where "lookup s (segment_path n) = Some i" "prefix (seg_header (cx_crc x) n) (bytes_of s i)"
    "length (bytes_of s i) = SEGMENT_HEADER_LEN + k" "length (chunk n L) \<le> k" "k \<le> seg_bytes"
    "k = length (chunk n L) \<Longrightarrow> bytes_of s i = seg_header (cx_crc x) n @ chunk n L"
proof -
  have range: "in_range x L" and ok: "store_ok s" using l ground_ok by (auto simp: loose_def)
  from l n have "seg s n (loose_file x u L n)" by (simp add: loose_def)
  then obtain i where i: "lookup s (segment_path n) = Some i" "loose_file x u L n (dk_files s i)" by (auto simp: seg_def)
  obtain r where r: "bytes_of s i = seg_header (cx_crc x) n @ chunk n L @ r"
    using i(2) by (auto simp: loose_file_def prefix_def)
  have h: "length (seg_header (cx_crc x) n) = SEGMENT_HEADER_LEN"
    using in_range_seg [OF range n(2)] by (intro length_seg_header)
  have "length (bytes_of s i) \<le> SEGMENT_HEADER_LEN + seg_bytes"
    using i(2) store_ok_file [OF ok, of i] by (simp add: loose_file_def file_ok_def)
  then show ?thesis using that [of i "length (chunk n L @ r)"] i(1) r h by auto
qed

lemma full_chunk:
  assumes "in_range x L" "n < last_seg x (length L)"
  shows "length (chunk n L) = seg_bytes"
proof -
  have "(n + 1) * seg_bytes \<le> last_seg x (length L) * seg_bytes" using assms(2) by (intro mult_le_mono1) simp
  also have "\<dots> \<le> length L" using assms(1) by (intro last_seg_bounds) (simp add: in_range_def)
  finally show ?thesis by (simp add: length_chunk)
qed

text \<open>One round of the loop on a segment with payload \<open>k\<close>.\<close>

lemma wp_measure_step:
  assumes "lookup s (segment_path n) = Some i" "prefix (seg_header crc n) (bytes_of s i)" "n * seg_bytes < u64_limit"
    "length (bytes_of s i) = SEGMENT_HEADER_LEN + k" "k \<le> seg_bytes"
    and last: "n = highest \<Longrightarrow> n * seg_bytes + k < u64_limit \<and> Q (n * seg_bytes + k) s"
    and more: "n \<noteq> highest \<Longrightarrow> n < highest \<and> k = seg_bytes \<and> n + 1 < u64_limit \<and> wp (measure_segments crc highest (n + 1)) Q E s"
    and E: "E s"
  shows "wp (measure_segments crc highest n) Q E s"
proof -
  let ?h = "\<lparr>h_inode = i, h_pos = SEGMENT_HEADER_LEN\<rparr>"
  have len: "wp (fs_len e ?h) R E s" if "R (SEGMENT_HEADER_LEN + k) s" for e R
    using that assms(4) E by (intro wp_len) simp_all
  show ?thesis
    by (subst measure_segments.simps, rule wp_then, rule wp_open_segment [OF assms(1-3)], rule wp_then, rule len)
      (use assms(3,5) last more E in \<open>cases "n = highest"; simp add: wp_ok\<close>)+
qed

lemma wp_measure_segments:
  assumes l: "loose x u L t s" and room: "length L + seg_bytes < u64_limit"
    and n: "first_seg x \<le> n" "n \<le> last_seg x (length L)"
    and Q: "\<And>i k. lookup s (segment_path (last_seg x (length L))) = Some i \<Longrightarrow> length (bytes_of s i) = SEGMENT_HEADER_LEN + k
      \<Longrightarrow> length (chunk (last_seg x (length L)) L) \<le> k \<Longrightarrow> k \<le> seg_bytes \<Longrightarrow> Q (last_seg x (length L) * seg_bytes + k) s"
    and E: "E s"
  shows "wp (measure_segments (cx_crc x) (last_seg x (length L)) n) Q E s"
  using n
proof (induction "last_seg x (length L) - n" arbitrary: n)
  case (0 n)
  then have n: "n = last_seg x (length L)" by simp
  have range: "in_range x L" using l by (simp add: loose_def)
  obtain i k where i: "lookup s (segment_path n) = Some i" "prefix (seg_header (cx_crc x) n) (bytes_of s i)"
    "length (bytes_of s i) = SEGMENT_HEADER_LEN + k" "length (chunk n L) \<le> k" "k \<le> seg_bytes"
    by (rule loose_payload [OF l "0.prems"])
  have "n * seg_bytes \<le> length L" unfolding n using range by (intro last_seg_bounds) (simp add: in_range_def)
  then have "n * seg_bytes + k < u64_limit" using i(5) room by simp
  then show ?case
    using Q [of i k] i n E by (intro wp_measure_step [OF i(1,2) in_range_seg(1) [OF range "0.prems"(2)] i(3,5)]) auto
next
  case (Suc d n)
  then have n: "n < last_seg x (length L)" by simp
  have range: "in_range x L" using l by (simp add: loose_def)
  obtain i k where i: "lookup s (segment_path n) = Some i" "prefix (seg_header (cx_crc x) n) (bytes_of s i)"
    "length (bytes_of s i) = SEGMENT_HEADER_LEN + k" "length (chunk n L) \<le> k" "k \<le> seg_bytes"
    by (rule loose_payload [OF l Suc.prems])
  have "wp (measure_segments (cx_crc x) (last_seg x (length L)) (n + 1)) Q E s"
    using Suc n by (intro Suc.hyps(1)) simp_all
  moreover have "k = seg_bytes" using full_chunk [OF range n] i(4,5) by simp
  moreover have "n + 1 < u64_limit" using in_range_seg(2) [OF range order_refl] n by simp
  ultimately show ?case
    using n E by (intro wp_measure_step [OF i(1,2) in_range_seg(1) [OF range Suc.prems(2)] i(3,5)]) auto
qed

lemma loose_first:
  assumes "loose x u L t s"
  shows "first_seg x \<le> last_seg x (length L)"
  using assms by (intro last_seg_bounds) (simp add: loose_def in_range_def)

lemma loose_seg: "loose x u L t s \<Longrightarrow> first_seg x \<le> n \<Longrightarrow> n \<le> last_seg x (length L) \<Longrightarrow> seg s n (loose_file x u L n)"
  unfolding loose_def by blast

lemma loose_above: "loose x u L t s \<Longrightarrow> t < n \<Longrightarrow> n < u64_limit \<Longrightarrow> lookup s (segment_path n) = None"
  unfolding loose_def by blast

lemma loose_topI: "loose x u L t s \<Longrightarrow> (\<And>n. t' < n \<Longrightarrow> n < u64_limit \<Longrightarrow> lookup s (segment_path n) = None) \<Longrightarrow> loose x u L t' s"
  unfolding loose_def by blast

lemma iter_max_eq: "m \<in> set xs \<Longrightarrow> (\<And>x. x \<in> set xs \<Longrightarrow> x \<le> m) \<Longrightarrow> iter_max xs = Some m"
  by (cases "iter_max xs") (auto dest: iter_maxD intro: order_antisym)

lemma durable_last_seg:
  "(let at_boundary = (e > fl \<and> e mod seg_bytes = 0) in if at_boundary then e div seg_bytes - 1 else e div seg_bytes)
    = last_seg x e" if "cx_floor x = fl"
  using that by (auto simp: last_seg_def Let_def)

lemma wp_discover_end:
  assumes l: "loose x u L u64_limit s" and room: "length L + seg_bytes < u64_limit" and t: "\<And>s'. ground x s' \<Longrightarrow> tidy s'"
    and fl: "cx_floor x = fl" "length L = du"
    and Q: "\<And>i k s'. loose x u L (last_seg x (length L)) s' \<Longrightarrow> lookup s' (segment_path (last_seg x (length L))) = Some i
      \<Longrightarrow> length (bytes_of s' i) = SEGMENT_HEADER_LEN + k \<Longrightarrow> length (chunk (last_seg x (length L)) L) \<le> k \<Longrightarrow> k \<le> seg_bytes
      \<Longrightarrow> Q (last_seg x (length L) * seg_bytes + k) s'"
    and E: "\<And>s'. loose x u L u64_limit s' \<Longrightarrow> E s'"
  shows "wp (discover_end (cx_crc x) fl du) Q E s"
proof -
  let ?n = "last_seg x (length L)"
  have range: "in_range x L" using l by (simp add: loose_def)
  have nlim: "?n < u64_limit" using in_range_seg(2) [OF range order_refl] .
  have last: "(if du > fl \<and> du mod seg_bytes = 0 then du div seg_bytes - 1 else du div seg_bytes) = ?n"
    using durable_last_seg [OF fl(1), of du] by (simp add: fl(2) Let_def)
  have pos: "\<not> ((du > fl \<and> du mod seg_bytes = 0) \<and> du div seg_bytes = 0)"
    by (metis add_cancel_right_left div_mult_mod_eq less_nat_zero_code mult_zero_left)
  have rest: "wp (io_then segment_numbers (\<lambda>numbers.
           case iter_max (filter (\<lambda>number. number \<ge> first_seg x) numbers) of
             None \<Rightarrow> io_err (wal_error ''WAL has no segment at its replay floor'')
           | Some highest \<Rightarrow>
               io_then (shrink_highest (first_seg x) highest) (\<lambda>highest. measure_segments (cx_crc x) highest (first_seg x)))) Q E s'"
    if l': "loose x u L ?n s'" for s'
  proof (rule wp_then, rule wp_segment_numbers [OF t [OF loose_ground [OF l']]])
    show E': "E s'" using loose_mono [OF l'] nlim by (intro E) simp
    fix ns assume ns: "set ns = {n. n < u64_limit \<and> lookup s' (segment_path n) \<noteq> None}"
    have "?n \<in> set ns" using ns nlim seg_lookup [OF loose_seg [OF l' loose_first [OF l'] order_refl]] by auto
    moreover have "n \<le> ?n" if "n \<in> set ns" for n using that ns loose_above [OF l', of n] by (cases "n \<le> ?n") auto
    ultimately have "iter_max (filter (\<lambda>number. number \<ge> first_seg x) ns) = Some ?n"
      using loose_first [OF l'] by (intro iter_max_eq) auto
    moreover obtain i k where i: "lookup s' (segment_path ?n) = Some i" "length (bytes_of s' i) = SEGMENT_HEADER_LEN + k"
      by (rule loose_payload [OF l' loose_first [OF l'] order_refl])
    moreover have "wp (measure_segments (cx_crc x) ?n (first_seg x)) Q E s'"
      by (rule wp_measure_segments [OF l' room _ loose_first [OF l']]) (use Q l' E' in auto)
    ultimately show "wp (case iter_max (filter (\<lambda>number. number \<ge> first_seg x) ns) of
             None \<Rightarrow> io_err (wal_error ''WAL has no segment at its replay floor'')
           | Some highest \<Rightarrow>
               io_then (shrink_highest (first_seg x) highest) (\<lambda>highest. measure_segments (cx_crc x) highest (first_seg x))) Q E s'"
      using E' by (subst shrink_highest.simps) (auto intro!: wp_then wp_path_len wp_ok)
  qed
  have "wp (remove_unwanted (\<lambda>number. number > ?n)) (\<lambda>_. loose x u L ?n) E s"
  proof (rule wp_remove_unwanted [where J = "loose x u L u64_limit", OF _ _ _ l t [OF loose_ground [OF l]]])
    show "loose x u L u64_limit (change_dir [(segment_path n, None)] s)"
      if "loose x u L u64_limit s" "n < u64_limit" "?n < n" for s n
      using that by (intro loose_remove) auto
    show "loose x u L ?n s'" if "loose x u L u64_limit s'"
      "\<And>n. n < u64_limit \<Longrightarrow> lookup s' (segment_path n) = (if ?n < n then None else lookup s (segment_path n))" for s'
      using that by (auto intro: loose_topI)
  qed (use E in \<open>auto intro: loose_flush ground_ok loose_ground\<close>)
  then have "wp (remove_unwanted (\<lambda>number. number > ?n)) (\<lambda>_. wp (io_then segment_numbers (\<lambda>numbers.
           case iter_max (filter (\<lambda>number. number \<ge> first_seg x) numbers) of
             None \<Rightarrow> io_err (wal_error ''WAL has no segment at its replay floor'')
           | Some highest \<Rightarrow>
               io_then (shrink_highest (first_seg x) highest) (\<lambda>highest. measure_segments (cx_crc x) highest (first_seg x)))) Q E) E s"
    by (rule wp_conseq) (use rest in auto)
  moreover have "fl div seg_bytes = first_seg x" by (simp add: first_seg_def fl)
  ultimately show ?thesis
    using pos by (simp only: discover_end_def Let_def last if_False wp_then)
qed

section \<open>Start\<close>

lemma wp_exists_eq: "wp (io_then (io_exists p) f) Q E s = wp (f (lookup s p \<noteq> None)) Q E s"
  by (simp add: wp_def io_then_def io_exists_def fs_exists_def)

lemma then_ok [simp]: "io_then (io_ok x) f = f x"
  by (simp add: fun_eq_iff io_then_def io_ok_def)

lemma wp_load_meta:
  assumes b: "beside env P rs fl du s" and lim: "fl < u64_limit" "du < u64_limit"
    and Q: "Q \<lparr>wm_replay_floor = fl, wm_durable_end = du\<rparr> s" and E: "E s"
  shows "wp (load_meta (le_crc env)) Q E s"
proof -
  let ?m = "\<lparr>wm_replay_floor = fl, wm_durable_end = du\<rparr>"
  obtain i where i: "lookup s meta_path = Some i" "bytes_of s i = encode_meta (le_crc env) ?m"
    using b replaceable_now unfolding beside_def meta_holds_def by fastforce
  then show ?thesis
    unfolding load_meta_def using Q E lim decode_encode_meta [of ?m "le_crc env"] by (auto intro!: wp_rules)
qed

lemma meta_present: "beside env P rs fl du s \<Longrightarrow> lookup s meta_path \<noteq> None"
  using replaceable_now unfolding beside_def meta_holds_def by fastforce

text \<open>Segment 0 of an empty log.\<close>

lemma empty_loose:
  assumes g: "ground x s" and x: "cx_floor x = 0" "cx_durable x = 0" and miss: "lookup s (segment_path 0) = None"
  shows "loose x 0 [] u64_limit (flush_dir WalDir (set_file (dk_next s)
      (sync_file (write_file 0 (seg_header (cx_crc x) 0) empty_file)) (fresh_entry (segment_path 0) s)))"
    (is "loose x 0 [] u64_limit (flush_dir WalDir (set_file ?i ?f (fresh_entry ?p s)))")
proof -
  have gf: "ground x (fresh_entry ?p s)" using g by (rule ground_fresh) (simp add: u64_limit_def)
  have keep: "?i \<notin> cx_keep x" using ground_kept [OF g] by blast
  have gs: "ground x (set_file ?i ?f (fresh_entry ?p s))" using gf keep by (simp add: ground_set_file)
  have f: "loose_file x 0 [] 0 ?f"
    using length_seg_header [of 0 "cx_crc x"]
    by (auto simp: loose_file_def sync_file_def write_file_def empty_file_def Let_def chunk_def u64_limit_def)
  have "seg (flush_dir WalDir (set_file ?i ?f (fresh_entry ?p s))) 0 (loose_file x 0 [] 0)"
    using f by (simp add: seg_flush ground_ok [OF gs] store_simps)
  then show ?thesis
    using ground_flush [OF gs] x by (auto simp: loose_def in_range_def first_seg_def last_seg_def u64_limit_def)
qed

lemma rest_fresh:
  assumes "beside env P rs 0 0 s" "quiet s" "fresh_log s" and g: "ground (at_ctx crc 0 0 s) s'"
  shows "at_rest env P rs 0 [] s'"
  using beside_ground [OF g] quiet_ground [OF g] fresh_log_ground [OF g] assms by (simp add: at_rest_def)

lemma wp_create_first:
  assumes b: "beside env P rs 0 0 s" "quiet s" "fresh_log s" and miss: "lookup s (segment_path 0) = None"
    and Q: "\<And>h s'. loose (at_ctx (le_crc env) 0 0 s) 0 [] u64_limit s' \<Longrightarrow> Q h s'"
    and E: "\<And>s'. ground (at_ctx (le_crc env) 0 0 s) s' \<Longrightarrow> E s'"
  shows "wp (create_segment (le_crc env) 0) Q E s"
proof -
  let ?x = "at_ctx (le_crc env) 0 0 s"
  have g: "ground ?x s" using beside_ok [OF b(1)] by (simp add: ground_at)
  have lim: "0 < u64_limit" by (simp add: u64_limit_def)
  have keep: "dk_next s \<notin> cx_keep ?x" using ground_kept [OF g] by blast
  have junk: "ground ?x (set_file (dk_next s) f (fresh_entry (segment_path 0) s))" if "file_ok f" for f
    using ground_fresh [OF g lim] keep that by (rule ground_set_file)
  show ?thesis
    by (rule wp_create_segment [OF miss])
      (use lim junk ground_remove [OF junk lim] ground_flush [OF ground_remove [OF junk lim]] empty_loose [OF g _ _ miss] g in
        \<open>auto intro: E Q\<close>)
qed

lemma wp_remove_existing:
  "lookup s p \<noteq> None \<Longrightarrow> Q () (change_dir [(p, None)] s) \<Longrightarrow> E s \<Longrightarrow> wp (remove_existing e p) Q E s"
  unfolding remove_existing_def by (intro wp_rules) (auto intro: wp_rules)

definition intact ::
  "'b log_env \<Rightarrow> ('b wal_record list \<Rightarrow> clog_snapshot \<Rightarrow> bool) \<Rightarrow> 'b wal_record list \<Rightarrow> nat \<Rightarrow> u8 list \<Rightarrow> store \<Rightarrow> bool" where
  "intact env P rs fl L s =
     (beside env P rs fl (length L) s \<and> quiet s \<and> loose (at_ctx (le_crc env) fl (length L) s) 0 L u64_limit s)"

lemma intact_rest: "intact env P rs fl L s \<Longrightarrow> at_rest env P rs fl L s"
  by (simp add: intact_def at_rest_def)

lemma intact_loose:
  assumes b: "beside env P rs fl (length L) s" "quiet s" and l: "loose (at_ctx (le_crc env) fl (length L) s) 0 L u64_limit s'"
  shows "intact env P rs fl L s'"
  using beside_ground [OF loose_ground [OF l] b(1)] quiet_ground [OF loose_ground [OF l] b(2)] loose_rebase [OF l]
  by (simp add: intact_def)

lemma intact_flush: "intact env P rs fl L s \<Longrightarrow> intact env P rs fl L (flush_dir dn s)"
proof -
  assume i: "intact env P rs fl L s"
  then have b: "beside env P rs fl (length L) s" by (simp add: intact_def)
  have "segs_same s (flush_dir dn s)" using beside_ok [OF b] by (intro same_flush) simp
  then show ?thesis
    using i beside_flush [OF b] beside_ok [OF b] loose_same unfolding intact_def quiet_def by (auto simp: store_simps)
qed

lemma wp_initialize_with_meta:
  assumes w: "whole_log env rs fl L" and r: "at_rest env P rs fl L s"
    and Q: "\<And>s'. intact env P rs fl L s' \<Longrightarrow> Q () s'" and E: "\<And>s'. at_rest env P rs fl L s' \<Longrightarrow> E s'"
  shows "wp (initialize_with_meta (le_crc env) (lookup s manifest_path \<noteq> None \<or> lookup s clog_path \<noteq> None)) Q E s"
proof -
  let ?crc = "le_crc env" and ?has = "lookup s manifest_path \<noteq> None \<or> lookup s clog_path \<noteq> None"
  let ?first = "segment_path (fl div seg_bytes)"
  have b: "beside env P rs fl (length L) s" and q: "quiet s" using r by (auto simp: at_rest_def)
  have le: "fl \<le> length L" using w boundary_le by (auto simp: whole_log_def)
  have lim: "fl < u64_limit" "length L < u64_limit" using w le by (auto simp: whole_log_def)
  have Es: "E s" using r by (rule E)
  have fresh: "wp (create_segment ?crc 0) (\<lambda>_. wp (io_ok ()) Q E) E s'"
    if "L = []" "fl = 0" "beside env P rs 0 0 s'" "quiet s'" "fresh_log s'" "lookup s' (segment_path 0) = None" for s'
    using that intact_loose [of env P rs fl L s'] rest_fresh [of env P rs s' ?crc] Q E
    by (intro wp_create_first [OF that(3-6)]) (auto intro: wp_ok)
  have "wp (let first_path = ?first in io_then (io_exists first_path) (\<lambda>first_exists.
     if first_exists \<and> fl = 0 \<and> length L = 0 \<and> \<not> ?has then
       io_then (remove_existing (db_io ''failed to remove incomplete initial WAL segment '') first_path) (\<lambda>_.
       io_then (sync_dir WalDir) (\<lambda>_.
       io_then (create_segment ?crc 0) (\<lambda>_. io_ok ())))
     else if \<not> first_exists then
       if fl \<noteq> 0 \<or> ?has
       then io_err (wal_error ''WAL segment is missing beside initialized durable state'')
       else io_then (create_segment ?crc 0) (\<lambda>_. io_ok ())
     else io_ok ())) Q E s"
  proof (cases "L = [] \<and> \<not> ?has")
    case True
    then have L: "L = []" "fl = 0" "fresh_log s" using le by (auto simp: fresh_log_def)
    note b0 = b [unfolded L, simplified]
    let ?s = "change_dir [(segment_path 0, None)] s"
    have g: "ground (at_ctx ?crc 0 0 s) ?s" "ground (at_ctx ?crc 0 0 s) (flush_dir WalDir ?s)"
      using beside_ok [OF b0] by (auto simp: ground_at u64_limit_def intro!: ground_remove ground_flush)
    have again: "wp (create_segment ?crc 0) (\<lambda>_. wp (io_ok ()) Q E) E (flush_dir WalDir ?s)"
      using L beside_ground [OF g(2) b0] quiet_ground [OF g(2) q] fresh_log_ground [OF g(2)] ground_ok [OF g(1)]
      by (intro fresh) (simp_all add: store_simps)
    have "E ?s" using rest_fresh [OF b0 q L(3) g(1)] L by (auto intro: E)
    with again have remove: "wp (io_then (remove_existing (db_io ''failed to remove incomplete initial WAL segment '') (segment_path 0)) (\<lambda>_.
       io_then (sync_dir WalDir) (\<lambda>_. io_then (create_segment ?crc 0) (\<lambda>_. io_ok ())))) Q E s" if "lookup s (segment_path 0) \<noteq> None"
      using Es that by (intro wp_then wp_remove_existing wp_sync_dir_named)
    have create: "wp (io_then (create_segment ?crc 0) (\<lambda>_. io_ok ())) Q E s" if "lookup s (segment_path 0) = None"
      using L b0 q that by (intro wp_then fresh) auto
    show ?thesis
      unfolding Let_def using True L remove create by (intro wp_then wp_io_exists) auto
  next
    case False
    then have "loose (at_ctx ?crc fl (length L) s) 0 L u64_limit s" using r by (auto simp: at_rest_def fresh_log_def)
    then have i: "intact env P rs fl L s" using b q by (simp add: intact_def)
    have "lookup s ?first \<noteq> None"
      using seg_lookup [OF loose_seg [OF \<open>loose _ 0 L _ s\<close> order_refl loose_first [OF \<open>loose _ 0 L _ s\<close>]]] by (auto simp: first_seg_def)
    then show ?thesis
      unfolding Let_def using False Q [OF i] by (intro wp_then wp_io_exists) (auto intro: wp_ok)
  qed
  then show ?thesis
    unfolding initialize_with_meta_def using Es by (intro wp_then wp_load_meta [OF b lim]) (simp_all only: wal_meta.select_convs)
qed

lemma wp_initialize:
  assumes w: "whole_log env rs fl L" and r: "at_rest env P rs fl L s"
    and Q: "\<And>s'. intact env P rs fl L s' \<Longrightarrow> Q () s'" and E: "\<And>s'. at_rest env P rs fl L s' \<Longrightarrow> E s'"
  shows "wp (initialize (le_crc env)) Q E s"
proof -
  have b: "beside env P rs fl (length L) s" using r by (simp add: at_rest_def)
  then have base: "disk_base s" by (simp add: beside_def)
  have dat: "lookup s (DataDir, ''wal.dat'') = None"
    using base lookup_links [of s "(DataDir, ''wal.dat'')"] by (cases "lookup s (DataDir, ''wal.dat'')") (auto simp: disk_base_def)
  have dir: "lookup s wal_dir_path \<noteq> None" using base by (simp add: disk_base_def wal_entry_ok_def wal_dir_path_def)
  note meta = meta_present [OF b]
  let ?has = "lookup s manifest_path \<noteq> None \<or> lookup s clog_path \<noteq> None"
  have "wp (initialize_with_meta (le_crc env) ?has) (\<lambda>_. wp (sync_dir DataDir) Q E) E s"
    by (rule wp_initialize_with_meta [OF w r]) (auto intro!: wp_sync_dir_named intro: Q E intact_flush intact_rest)
  then have go: "wp (io_then (initialize_with_meta (le_crc env) ?has) (\<lambda>_. sync_dir DataDir)) Q E s" by (rule wp_then)
  show ?thesis
    unfolding initialize_def Let_def
    using dat dir meta go by (simp add: wp_exists_eq manifest_path_def clog_path_def)
qed

lemma last_seg_payload:
  assumes "cx_floor x \<le> length L"
  shows "last_seg x (length L) * seg_bytes + length (chunk (last_seg x (length L)) L) = length L"
  using last_seg_bounds [OF assms] by (simp add: length_chunk min_def) linarith

lemma loose_exact_live:
  assumes l: "loose x u L (last_seg x (length L)) s" and i: "lookup s (segment_path (last_seg x (length L))) = Some i"
    and len: "length (bytes_of s i) = SEGMENT_HEADER_LEN + length (chunk (last_seg x (length L)) L)"
  shows "live x u L s"
proof -
  have range: "in_range x L" using l by (simp add: loose_def)
  have "seg s n (exact_file x u L n)" if n: "first_seg x \<le> n" "n \<le> last_seg x (length L)" for n
  proof -
    obtain j k where j: "lookup s (segment_path n) = Some j" "length (bytes_of s j) = SEGMENT_HEADER_LEN + k" "length (chunk n L) \<le> k"
      "k \<le> seg_bytes" "k = length (chunk n L) \<Longrightarrow> bytes_of s j = seg_header (cx_crc x) n @ chunk n L"
      by (rule loose_payload [OF l n]) blast
    have "k = length (chunk n L)"
    proof (cases "n = last_seg x (length L)")
      case True then show ?thesis using i j len by simp
    next
      case False then show ?thesis using full_chunk [OF range, of n] n(2) j by simp
    qed
    then show ?thesis using loose_seg [OF l n] j(1,5) by (auto simp: seg_def exact_file_def)
  qed
  then show ?thesis using l by (simp add: live_def loose_def)
qed

lemma wp_truncate_tail:
  assumes l: "loose x u L (last_seg x (length L)) s" and i: "lookup s (segment_path (last_seg x (length L))) = Some i"
    and k: "length (bytes_of s i) = SEGMENT_HEADER_LEN + k" "length (chunk (last_seg x (length L)) L) \<le> k" "k \<le> seg_bytes"
    and room: "length L + seg_bytes < u64_limit" and fl: "cx_floor x = fl" "length L = du"
    and Q: "\<And>s'. live x u L s' \<Longrightarrow> Q () s'" and E: "\<And>s'. loose x u L u64_limit s' \<Longrightarrow> E s'"
  shows "wp (if last_seg x (length L) * seg_bytes + k > du
      then io_then (truncate_stream (cx_crc x) du (last_seg x (length L) * seg_bytes + k) fl) (\<lambda>_. io_ok ()) else io_ok ()) Q E s"
proof -
  let ?n = "last_seg x (length L)" and ?e = "last_seg x (length L) * seg_bytes + k"
  have floor: "cx_floor x \<le> length L" using l by (simp add: loose_def in_range_def)
  note pay = last_seg_payload [OF floor]
  show ?thesis
  proof (cases "?e > du")
    case True
    have e: "?e < u64_limit" using room k(3) pay by linarith
    have t: "?n \<le> ?e div seg_bytes" "?e div seg_bytes \<le> u64_limit"
      using e div_le_dividend [of ?e seg_bytes] by (auto simp: le_div_geq less_imp_le intro: le_trans)
    have "wp (truncate_stream (cx_crc x) (length L) ?e (cx_floor x)) (\<lambda>_. wp (io_ok ()) Q E) E s"
      using True e t fl by (intro wp_truncate_stream [OF loose_mono [OF l t(1)] refl]) (auto intro: Q E wp_ok loose_mono)
    then show ?thesis using True by (simp add: fl wp_then)
  next
    case False
    then have "k = length (chunk ?n L)" using pay k(2) fl by linarith
    then show ?thesis using False loose_exact_live [OF l i] k(1) by (auto intro: Q wp_ok)
  qed
qed

lemma wp_trim_tail:
  assumes l: "loose x u L u64_limit s" and x: "cx_crc x = crc" "cx_floor x = wm_replay_floor meta" "length L = wm_durable_end meta"
    and room: "length L + seg_bytes < u64_limit" and t: "\<And>s'. ground x s' \<Longrightarrow> tidy s'"
    and Q: "\<And>s'. live x u L s' \<Longrightarrow> Q () s'" and E: "\<And>s'. loose x u L u64_limit s' \<Longrightarrow> E s'"
  shows "wp (trim_tail crc meta) Q E s"
  unfolding trim_tail_def x(1) [symmetric]
proof (rule wp_then, rule wp_discover_end [OF l room t x(2,3)])
  fix i k s3 assume a: "loose x u L (last_seg x (length L)) s3" "lookup s3 (segment_path (last_seg x (length L))) = Some i"
    "length (bytes_of s3 i) = SEGMENT_HEADER_LEN + k" "length (chunk (last_seg x (length L)) L) \<le> k" "k \<le> seg_bytes"
  have "cx_floor x \<le> length L" using l by (simp add: loose_def in_range_def)
  then have "\<not> wm_durable_end meta > last_seg x (length L) * seg_bytes + k"
    using last_seg_payload [of x L] a(4) x(3) by simp
  moreover have "wp (if last_seg x (length L) * seg_bytes + k > wm_durable_end meta
      then io_then (truncate_stream (cx_crc x) (wm_durable_end meta) (last_seg x (length L) * seg_bytes + k) (wm_replay_floor meta)) (\<lambda>_. io_ok ())
      else io_ok ()) Q E s3"
    by (rule wp_truncate_tail [OF a room x(2,3)]) (auto intro: Q E)
  ultimately show "wp (if wm_durable_end meta > last_seg x (length L) * seg_bytes + k
      then io_err (wal_error ''WAL durable end is beyond the retained stream'')
      else if last_seg x (length L) * seg_bytes + k > wm_durable_end meta
      then io_then (truncate_stream (cx_crc x) (wm_durable_end meta) (last_seg x (length L) * seg_bytes + k) (wm_replay_floor meta)) (\<lambda>_. io_ok ())
      else io_ok ()) Q E s3"
    by (simp only: if_False)
qed (use E in auto)

lemma wp_open_segments:
  assumes w: "whole_log env rs fl L" and i: "intact env P rs fl L s"
    and Q: "\<And>s'. beside env P rs fl (length L) s' \<Longrightarrow> quiet s' \<Longrightarrow> live (at_ctx (le_crc env) fl (length L) s') 0 L s'
      \<Longrightarrow> Q \<lparr>wm_replay_floor = fl, wm_durable_end = length L\<rparr> s'"
    and E: "\<And>s'. at_rest env P rs fl L s' \<Longrightarrow> E s'"
  shows "wp (open_segments (le_crc env)) Q E s"
proof -
  have le: "\<not> length L < fl" and room: "length L + seg_bytes < u64_limit"
    using w boundary_le by (auto simp: whole_log_def not_less)
  let ?m = "\<lparr>wm_replay_floor = fl, wm_durable_end = length L\<rparr>" and ?x = "at_ctx (le_crc env) fl (length L) s"
  have b: "beside env P rs fl (length L) s" "quiet s" and l: "loose ?x 0 L u64_limit s" using i by (auto simp: intact_def)
  have t: "tidy s'" if "ground ?x s'" for s' using that beside_ok [OF b(1)] by (auto intro: tidy_ground)
  have E': "E s'" if "loose ?x 0 L u64_limit s'" for s' using intact_rest [OF intact_loose [OF b that]] by (rule E)
  have Q': "Q ?m s'" if "live ?x 0 L s'" for s'
  proof -
    have g: "ground ?x s'" using that by (simp add: live_def)
    show ?thesis using beside_ground [OF g b(1)] quiet_ground [OF g b(2)] live_rebase [OF that] by (rule Q)
  qed
  have d: "wp (io_then (trim_tail (le_crc env) ?m) (\<lambda>_. io_ok ?m)) Q E s2" if l2: "loose ?x 0 L u64_limit s2" for s2
    by (rule wp_then, rule wp_trim_tail [OF l2]) (use room t Q' E' in \<open>auto intro: wp_ok\<close>)
  have go: "wp (io_then (recycle_orphaned_segments fl) (\<lambda>_. io_then (trim_tail (le_crc env) ?m) (\<lambda>_. io_ok ?m))) Q E s"
    by (rule wp_then, rule wp_recycle_orphaned [OF l]) (use t loose_ground [OF l] d E' in auto)
  have lim: "fl < u64_limit" "length L < u64_limit" using le room by auto
  show ?thesis
    unfolding open_segments_def
  proof (rule wp_then, rule wp_load_meta [OF b(1) lim])
    show "E s" by (rule E' [OF l])
  qed (use le go in \<open>simp only: wal_meta.select_convs if_False\<close>)
qed

end
