(* ===== verification/Wal_Running.thy ===== *)
theory Wal_Running
  imports Wal_Recover
begin

text \<open>
  The invariant of a running log manager and its disk, opening the log, and what a crash of a
  running manager leaves.
\<close>

section \<open>Invariant\<close>

definition unflushed_ok :: "stream_ctx \<Rightarrow> u8 list \<Rightarrow> wal_state \<Rightarrow> store \<Rightarrow> bool" where
  "unflushed_ok x L st s =
     (case ws_unflushed_first_segment st of
        None \<Rightarrow> length L = ws_flushed_lsn st
      | Some m \<Rightarrow> m = ws_flushed_lsn st div seg_bytes \<and> ws_flushed_lsn st < length L \<and> live x m L s)"

definition active_ok :: "stream_ctx \<Rightarrow> u8 list \<Rightarrow> wal_state \<Rightarrow> store \<Rightarrow> bool" where
  "active_ok x L st s =
     (ws_active_number st = last_seg x (length L)
      \<and> lookup s (segment_path (last_seg x (length L))) = Some (h_inode (ws_active st)))"

definition positions_ok :: "'b log_env \<Rightarrow> 'b wal_record list \<Rightarrow> u8 list \<Rightarrow> wal_state \<Rightarrow> bool" where
  "positions_ok env rs L st =
     (whole_log env rs (ws_replay_floor st) L \<and> boundary rs (ws_flushed_lsn st)
      \<and> ws_replay_floor st \<le> ws_flushed_lsn st \<and> ws_written_lsn st = length L)"

definition recycle_ok ::
  "'b log_env \<Rightarrow> ('b wal_record list \<Rightarrow> clog_snapshot \<Rightarrow> bool) \<Rightarrow> 'b wal_record list \<Rightarrow> wal_state \<Rightarrow> store \<Rightarrow> bool" where
  "recycle_ok env P rs st s =
     (\<forall>b. ws_recycle_boundary st = Some b \<longrightarrow>
        boundary rs b \<and> replaceable clog_path clog_tmp_path (clog_good env P rs b (ws_flushed_lsn st)) s)"

abbreviation run_ctx :: "'b log_env \<Rightarrow> wal_state \<Rightarrow> store \<Rightarrow> stream_ctx" where
  "run_ctx env st s \<equiv> at_ctx (le_crc env) (ws_replay_floor st) (ws_flushed_lsn st) s"

definition run_ok ::
  "'b log_env \<Rightarrow> ('b wal_record list \<Rightarrow> clog_snapshot \<Rightarrow> bool) \<Rightarrow> 'b wal_record list \<Rightarrow> u8 list \<Rightarrow> wal_state \<Rightarrow> store \<Rightarrow> bool" where
  "run_ok env P rs L st s =
     (positions_ok env rs L st \<and> map_wf (statuses (ws_clog st))
      \<and> beside env P rs (ws_replay_floor st) (ws_flushed_lsn st) s \<and> live (run_ctx env st s) 0 L s
      \<and> active_ok (run_ctx env st s) L st s \<and> unflushed_ok (run_ctx env st s) L st s \<and> recycle_ok env P rs st s)"

definition running ::
  "'b log_env \<Rightarrow> ('b wal_record list \<Rightarrow> clog_snapshot \<Rightarrow> bool) \<Rightarrow> 'b wal_record list \<Rightarrow> wal_state \<Rightarrow> store \<Rightarrow> bool" where
  "running env P rs st s = (ws_poisoned st = None \<and> (\<exists>L. run_ok env P rs L st s))"

section \<open>Crashes of a running manager\<close>

lemma live_kept:
  assumes l: "live (at_ctx crc fl du s) 0 L s"
  shows "loose (at_ctx crc fl du s) 0 (take du L) u64_limit s"
proof -
  have range: "in_range (at_ctx crc fl du s) L" using l by (simp add: live_def)
  then have "loose (at_ctx crc fl du s) 0 L u64_limit s"
    using l in_range_seg(2) [OF range order_refl] by (intro live_loose) auto
  then show ?thesis using range by (intro loose_take) (auto simp: in_range_def)
qed

lemma clog_good_upto:
  assumes "framed env' 0 rs L" "boundary rs e" "clog_good env P rs fl du b" "du \<le> e"
  shows "clog_good env P (log_upto e rs) fl du b"
  using assms fits_upto [OF assms(1,2), of P fl du] by (auto simp: clog_good_def fits_def split: option.splits)

lemma run_frozen:
  assumes r: "run_ok env P rs L st s" and c: "ws_replay_floor st \<le> c"
    and pend: "\<And>sn. pend = Some sn \<Longrightarrow> fits P rs (ws_replay_floor st) (ws_flushed_lsn st) sn"
  shows "frozen_at env P rs L (\<lambda>m. m = \<lparr>wm_replay_floor = ws_replay_floor st, wm_durable_end = ws_flushed_lsn st\<rparr>)
    (ws_flushed_lsn st) c pend s"
proof -
  let ?fl = "ws_replay_floor st" and ?du = "ws_flushed_lsn st"
  have b: "beside env P rs ?fl ?du s" and f: "framed (le_wal env) 0 rs L" "boundary rs ?du" "boundary rs ?fl" "?fl \<le> ?du"
    and room: "length L + seg_bytes < u64_limit" and l: "live (run_ctx env st s) 0 L s"
    using r by (auto simp: run_ok_def positions_ok_def whole_log_def)
  have le: "?du \<le> length L" using f boundary_le by blast
  have "replaceable clog_path clog_tmp_path (clog_good env P (log_upto ?du rs) ?fl ?du) s"
    using b clog_good_upto [OF f(1,2)] by (auto simp: beside_def elim: replaceable_mono)
  moreover have "fits P (log_upto ?du rs) ?fl ?du sn" if "pend = Some sn" for sn
    using pend [OF that] by (intro fits_upto [OF f(1,2)]) (auto simp: fits_def)
  ultimately have "candidate env P rs L ?du c pend s \<lparr>wm_replay_floor = ?fl, wm_durable_end = ?du\<rparr>"
    using f live_kept [OF l] room le c by (simp add: candidate_def)
  then show ?thesis using f(1) b by (simp add: frozen_at_def beside_def)
qed

section \<open>Opening\<close>

lemma wp_load_clog_snapshot:
  assumes b: "beside env P rs fl du s"
    and none: "lookup s clog_path = None \<Longrightarrow> fl = 0 \<Longrightarrow> Q None s"
    and some: "\<And>sn i. lookup s clog_path = Some i \<Longrightarrow> decode_clog (le_crc env) (le_clog_from_slice env) (bytes_of s i) = Inr sn
      \<Longrightarrow> fits P rs fl du sn \<Longrightarrow> Q (Some sn) s"
    and E: "E s"
  shows "wp (load_clog_snapshot env) Q E s"
proof (cases "lookup s clog_path")
  case None
  then show ?thesis
    using none b replaceable_now [of clog_path clog_tmp_path "clog_good env P rs fl du" s]
    by (auto simp: load_clog_snapshot_def wp_exists_eq beside_def clog_good_def intro: wp_ok)
next
  case (Some i)
  then obtain sn where sn: "length (bytes_of s i) \<le> MAX_CLOG_FILE_BYTES"
    "decode_clog (le_crc env) (le_clog_from_slice env) (bytes_of s i) = Inr sn" "fits P rs fl du sn"
    using b replaceable_now [of clog_path clog_tmp_path "clog_good env P rs fl du" s] by (auto simp: beside_def clog_good_def)
  then have "wp (io_then (fs_open (db_io ''failed to read CLOG file '') clog_path) (\<lambda>file.
       io_then (fs_len (db_io ''failed to stat CLOG file: '') file) (\<lambda>len.
       if len > MAX_CLOG_FILE_BYTES then io_err (wal_error ''CLOG file exceeds the 64 MiB payload limit'')
       else
         io_then (fs_read (db_io ''failed to read CLOG file: '') clog_path) (\<lambda>bytes.
         if length bytes > MAX_CLOG_FILE_BYTES then io_err (wal_error ''CLOG file exceeds the 64 MiB payload limit'')
         else io_then (io_lift (decode_clog (le_crc env) (le_clog_from_slice env) bytes)) (\<lambda>s. io_ok (Some s)))))) Q E s"
    using Some E some [OF Some sn(2,3)] by (auto intro!: wp_rules)
  then show ?thesis using Some by (simp add: load_clog_snapshot_def wp_exists_eq)
qed

lemma active_number:
  assumes "live x u L s"
  shows "(if length L mod seg_bytes = 0 \<and> lookup s (segment_path (length L div seg_bytes)) \<noteq> None then Inr (length L div seg_bytes)
          else active_segment_number (length L)) = Inr (last_seg x (length L))"
proof -
  let ?e = "length L"
  have range: "in_range x L" using assms by (simp add: live_def)
  have first: "first_seg x \<le> last_seg x ?e" using range by (intro last_seg_bounds) (simp add: in_range_def)
  have there: "lookup s (segment_path (last_seg x ?e)) \<noteq> None" using assms first by (auto simp: live_def seg_def)
  have gone: "lookup s (segment_path (?e div seg_bytes)) = None" if "last_seg x ?e < ?e div seg_bytes"
    using that assms in_range_div(2) [OF range] by (simp add: live_def)
  show ?thesis
    using last_seg_cases [of x ?e]
  proof
    assume l: "last_seg x ?e = ?e div seg_bytes"
    then show ?thesis using there by (auto simp: active_segment_number_def)
  next
    assume l: "last_seg x ?e + 1 = ?e div seg_bytes \<and> ?e mod seg_bytes = 0"
    then have "0 < ?e" "0 < ?e div seg_bytes" "?e div seg_bytes - 1 = last_seg x ?e" by (auto intro: ccontr)
    then show ?thesis using l gone by (simp add: active_segment_number_def)
  qed
qed

lemma map_wf_status:
  "map_wf (statuses c) \<Longrightarrow> map_wf (statuses (set_committed x c))" "map_wf (statuses c) \<Longrightarrow> map_wf (statuses (set_aborted x c))"
  "map_wf (statuses c) \<Longrightarrow> map_wf (statuses (set_in_progress x c))"
  by (simp_all add: set_committed_def set_aborted_def set_in_progress_def)

lemma map_wf_committed: "map_wf (statuses c) \<Longrightarrow> map_wf (statuses (fold set_committed xs c))"
  by (induction xs arbitrary: c) (simp_all add: map_wf_status)

lemma map_wf_fold_status: "map_wf (statuses c) \<Longrightarrow> map_wf (statuses (fold_status r c))"
  by (auto simp: fold_status_def map_wf_status map_wf_committed split: wal_record_kind.splits)

lemma map_wf_replay: "map_wf (statuses c) \<Longrightarrow> map_wf (statuses (fold fold_status rs c))"
  by (induction rs arbitrary: c) (simp_all add: map_wf_fold_status)

lemma map_wf_inserts: "map_wf m \<Longrightarrow> map_wf (fold (\<lambda>x. hm_insert x v) xs m)"
  by (induction xs arbitrary: m) simp_all

lemma map_wf_snapshot: "map_wf (statuses (clog_from_snapshot sn))"
  by (simp add: clog_from_snapshot_def Let_def map_wf_inserts map_wf_def [of "[]"])

text \<open>The status map a restart rebuilds.\<close>

definition recovered :: "'b wal_record list \<Rightarrow> clog_snapshot option \<Rightarrow> clog" where
  "recovered rs o' = (case o' of
     None \<Rightarrow> fold fold_status rs clog_new
   | Some sn \<Rightarrow> fold fold_status (log_after (unat (cs_clog_lsn sn)) rs) (clog_from_snapshot sn))"

definition opened :: "'b log_env \<Rightarrow> ('b wal_record list \<Rightarrow> clog_snapshot \<Rightarrow> bool) \<Rightarrow> 'b wal_record list \<Rightarrow> wal_state \<Rightarrow> store \<Rightarrow> bool" where
  "opened env P rs st s =
     (running env P rs st s \<and> ws_flushed_lsn st = ws_written_lsn st \<and> ws_pending_commits st = []
      \<and> (\<exists>o'. (case o' of None \<Rightarrow> ws_replay_floor st = 0 | Some sn \<Rightarrow> fits P rs (ws_replay_floor st) (ws_flushed_lsn st) sn)
             \<and> ws_clog st = recovered rs o'))"

lemma after_0: "framed env 0 rs L \<Longrightarrow> log_after 0 rs = rs"
  unfolding log_after_def by (cases rs) (auto dest: encode_record_nonempty)

lemma seed_clog_ok:
  assumes f: "framed env' 0 rs L" and o': "case o' of None \<Rightarrow> fl = 0 | Some sn \<Rightarrow> fits P rs fl (length L) sn"
  obtains c vf loaded where
    "seed_clog fl (length L) o' = Inr (c, vf, loaded, case o' of None \<Rightarrow> 0 | Some sn \<Rightarrow> unat (cs_clog_lsn sn))"
    "map_wf (statuses c)" "fold fold_status (log_after (case o' of None \<Rightarrow> 0 | Some sn \<Rightarrow> unat (cs_clog_lsn sn)) rs) c = recovered rs o'"
proof (cases o')
  case None
  then show ?thesis using that [of clog_new FIRST_NORMAL_XID False] o' after_0 [OF f]
    by (simp add: seed_clog_def recovered_def clog_new_def map_wf_def)
next
  case (Some sn)
  then show ?thesis using that [of "clog_from_snapshot sn" "cs_vacuum_floor sn" True] o'
    by (simp add: seed_clog_def fits_def recovered_def map_wf_snapshot)
qed

text \<open>From the segments in place to the state of the manager.\<close>

lemma opened_state:
  assumes w: "whole_log env rs fl L" and b: "beside env P rs fl (length L) s" "quiet s"
    and l: "live (at_ctx (le_crc env) fl (length L) s) 0 L s"
    and o': "case o' of None \<Rightarrow> fl = 0 | Some sn \<Rightarrow> fits P rs fl (length L) sn"
      "\<And>sn. o' = Some sn \<Longrightarrow> \<exists>i. lookup s clog_path = Some i \<and> decode_clog (le_crc env) (le_clog_from_slice env) (bytes_of s i) = Inr sn"
    and st: "ws_replay_floor st = fl" "ws_written_lsn st = length L" "ws_flushed_lsn st = length L" "ws_clog st = recovered rs o'"
      "map_wf (statuses (ws_clog st))"
      "ws_pending_commits st = []" "ws_unflushed_first_segment st = None" "ws_poisoned st = None"
      "ws_recycle_boundary st = map_option (\<lambda>s. unat (cs_authorized_replay_floor s)) o'"
      "active_ok (at_ctx (le_crc env) fl (length L) s) L st s"
  shows "opened env P rs st s"
proof -
  have f: "framed (le_wal env) 0 rs L" using w by (simp add: whole_log_def)
  have "recycle_ok env P rs st s"
    unfolding recycle_ok_def
  proof (intro allI impI)
    fix p assume "ws_recycle_boundary st = Some p"
    then obtain sn where sn: "o' = Some sn" "p = unat (cs_authorized_replay_floor sn)" using st(9) by auto
    then obtain i where i: "lookup s clog_path = Some i" "decode_clog (le_crc env) (le_clog_from_slice env) (bytes_of s i) = Inr sn"
      using o'(2) by blast
    have fit: "fits P rs fl (length L) sn" using o'(1) sn by simp
    have r: "replaceable clog_path clog_tmp_path (clog_good env P rs fl (length L)) s" using b(1) by (simp add: beside_def)
    have "clog_good env P rs p (length L) (map_option (bytes_of s) (lookup s clog_path))"
      using fit sn i replaceable_now [OF r] by (auto simp: clog_good_def fits_def)
    then have "replaceable clog_path clog_tmp_path (clog_good env P rs p (length L)) s"
      using replaceable_pinned [OF r] b(2) by (auto simp: quiet_def elim: replaceable_mono)
    then show "boundary rs p \<and> replaceable clog_path clog_tmp_path (clog_good env P rs p (ws_flushed_lsn st)) s"
      using fit sn st(3) by (simp add: fits_def)
  qed
  moreover have "positions_ok env rs L st" using w st boundary_end [OF f] boundary_le [OF f] by (simp add: positions_ok_def whole_log_def)
  ultimately have "run_ok env P rs L st s"
    using b l st by (simp add: run_ok_def unflushed_ok_def)
  then show ?thesis using st(2-) o'(1) unfolding opened_def running_def st(1,3) by (intro conjI exI [of _ o'] exI [of _ L]) simp_all
qed

lemma wp_open_active:
  assumes l: "live x u L s" and x: "cx_crc x = crc"
    and Q: "\<And>h. lookup s (segment_path (last_seg x (length L))) = Some (h_inode h) \<Longrightarrow> Q (h, last_seg x (length L)) s" and E: "E s"
  shows "wp (open_active crc (length L)) Q E s"
proof -
  let ?n = "last_seg x (length L)"
  have range: "in_range x L" using l by (simp add: live_def)
  have lo: "loose x u L u64_limit s" using l in_range_seg(2) [OF range order_refl] by (intro live_loose) auto
  obtain i where i: "lookup s (segment_path ?n) = Some i" "prefix (seg_header (cx_crc x) ?n) (bytes_of s i)"
    by (rule loose_payload [OF lo loose_first [OF lo] order_refl])
  have "wp (io_then (open_segment crc ?n) (\<lambda>active. io_ok (active, ?n))) Q E s"
    using i x in_range_seg(1) [OF range order_refl] E by (intro wp_then wp_open_segment [of _ ?n i]) (auto intro!: wp_ok Q)
  then have "wp (io_then (if length L mod SEGMENT_PAYLOAD_BYTES = 0 \<and> lookup s (segment_path (length L div seg_bytes)) \<noteq> None
      then io_ok (length L div seg_bytes) else io_lift (active_segment_number (length L)))
      (\<lambda>active_number. io_then (open_segment crc active_number) (\<lambda>active. io_ok (active, active_number)))) Q E s"
    using active_number [OF l] by (intro wp_then wp_if) (auto intro!: wp_ok wp_lift split: if_splits)
  then show ?thesis unfolding open_active_def Let_def wp_exists_eq .
qed

text \<open>The state of the manager, once the segments are in place.\<close>

lemma wp_restore:
  assumes json: "json_ok (le_wal env)" and w: "whole_log env rs fl L"
    and s: "beside env P rs fl (length L) s" "quiet s" "live (at_ctx (le_crc env) fl (length L) s) 0 L s"
    and Q: "\<And>st. opened env P rs st s \<Longrightarrow> ws_written_lsn st = length L \<Longrightarrow> ws_replay_floor st = fl \<Longrightarrow> Q st s" and E: "E s"
  shows "wp (restore env \<lparr>wm_replay_floor = fl, wm_durable_end = length L\<rparr>) Q E s"
proof -
  let ?x = "at_ctx (le_crc env) fl (length L) s"
  have f: "framed (le_wal env) 0 rs L" using w by (simp add: whole_log_def)
  have range: "in_range ?x L" using s(3) by (simp add: live_def)
  have l: "loose ?x 0 L u64_limit s" using s(3) in_range_seg(2) [OF range order_refl] by (intro live_loose) auto
  have go: "wp (io_then (io_lift (seed_clog fl (length L) o')) (\<lambda>(clog, vacuum_floor, loaded, clog_lsn).
      io_then (scan_stream (le_wal env) fold_status (segment_reader_new clog_lsn (length L)) clog) (\<lambda>clog.
      io_then (open_active (le_crc env) (length L)) (\<lambda>(active, active_number).
      io_ok \<lparr>ws_active = active, ws_active_number = active_number, ws_unflushed_first_segment = None,
             ws_replay_floor = fl, ws_written_lsn = length L, ws_flushed_lsn = length L,
             ws_clog = clog, ws_pending_commits = [], ws_vacuum_floor = vacuum_floor,
             ws_clog_loaded_from_snapshot = loaded,
             ws_recycle_boundary = map_option (\<lambda>s. unat (cs_authorized_replay_floor s)) o', ws_poisoned = None\<rparr>)))) Q E s"
    if o': "case o' of None \<Rightarrow> fl = 0 | Some sn \<Rightarrow> fits P rs fl (length L) sn"
      "\<And>sn. o' = Some sn \<Longrightarrow> \<exists>i. lookup s clog_path = Some i \<and> decode_clog (le_crc env) (le_clog_from_slice env) (bytes_of s i) = Inr sn" for o'
  proof -
    let ?lsn = "case o' of None \<Rightarrow> 0 | Some sn \<Rightarrow> unat (cs_clog_lsn sn)"
    obtain c vf loaded where seed: "seed_clog fl (length L) o' = Inr (c, vf, loaded, ?lsn)" "map_wf (statuses c)"
      "fold fold_status (log_after ?lsn rs) c = recovered rs o'"
      by (rule seed_clog_ok [OF f o'(1)])
    have lsn: "fl \<le> ?lsn" "?lsn \<le> length L" "boundary rs ?lsn"
      using o'(1) by (auto simp: fits_def boundary_def split: option.splits)
    have wf: "map_wf (statuses (recovered rs o'))" using map_wf_replay [OF seed(2), of "log_after ?lsn rs"] seed(3) by simp
    show ?thesis
    proof (rule wp_then, rule wp_lift [OF seed(1)], simp only: prod.case, rule wp_then, rule wp_scan_stream [OF l json])
      show "framed (le_wal env) (sr_position (segment_reader_new ?lsn (length L))) (log_after ?lsn rs)
          (drop (sr_position (segment_reader_new ?lsn (length L))) L)"
        using framed_after [OF f lsn(3)] by (simp add: segment_reader_new_def)
      show "wp (io_then (open_active (le_crc env) (length L)) (\<lambda>(active, active_number).
         io_ok \<lparr>ws_active = active, ws_active_number = active_number, ws_unflushed_first_segment = None,
             ws_replay_floor = fl, ws_written_lsn = length L, ws_flushed_lsn = length L,
             ws_clog = fold fold_status (log_after ?lsn rs) c, ws_pending_commits = [], ws_vacuum_floor = vf,
             ws_clog_loaded_from_snapshot = loaded,
             ws_recycle_boundary = map_option (\<lambda>s. unat (cs_authorized_replay_floor s)) o', ws_poisoned = None\<rparr>)) Q E s"
        unfolding seed(3)
        by (rule wp_then, rule wp_open_active [OF s(3)])
          (use E wf in \<open>auto intro!: wp_ok Q opened_state [OF w s o'] simp: active_ok_def\<close>)
    qed (use lsn E in \<open>simp_all add: segment_reader_new_def reader_new [unfolded segment_reader_new_def]\<close>)
  qed
  show ?thesis
    unfolding restore_def Let_def wal_meta.select_convs
  proof (rule wp_then, rule wp_load_clog_snapshot [OF s(1)])
    show "E s" by (rule E)
  qed (rule go; simp)+
qed

lemma wp_wal_open:
  assumes json: "json_ok (le_wal env)" and w: "whole_log env rs fl L" and r: "at_rest env P rs fl L s"
    and Q: "\<And>st s'. opened env P rs st s' \<Longrightarrow> ws_written_lsn st = length L \<Longrightarrow> ws_replay_floor st = fl \<Longrightarrow> Q st s'"
    and E: "\<And>s'. at_rest env P rs fl L s' \<Longrightarrow> E s'"
  shows "wp (wal_open env) Q E s"
proof -
  have base: "disk_base s" using r by (simp add: at_rest_def beside_def)
  have dat: "lookup s (DataDir, ''wal.dat'') = None"
    using base lookup_links [of s "(DataDir, ''wal.dat'')"] by (cases "lookup s (DataDir, ''wal.dat'')") (auto simp: disk_base_def)
  have rest: "at_rest env P rs fl L s1"
    if s1: "beside env P rs fl (length L) s1" "quiet s1" "live (at_ctx (le_crc env) fl (length L) s1) 0 L s1" for s1
  proof -
    have "in_range (at_ctx (le_crc env) fl (length L) s1) L" using s1(3) by (simp add: live_def)
    then have "loose (at_ctx (le_crc env) fl (length L) s1) 0 L u64_limit s1"
      using live_loose [OF s1(3)] in_range_seg(2) [OF _ order_refl] less_imp_le by blast
    then show ?thesis using s1 by (intro intact_rest) (simp add: intact_def)
  qed
  show ?thesis
    unfolding wal_open_def
    apply (subst wp_exists_eq, simp only: dat simp_thms if_False, rule wp_then, rule wp_initialize [OF w r])
     apply (rule wp_then, rule wp_open_segments [OF w], assumption)
    subgoal by (rule wp_restore [OF json w]) (auto intro: Q E rest)
    by (rule E, assumption)+
qed

end
