(* ===== verification/Wal_Files.thy ===== *)
theory Wal_Files
  imports Wal_Running
begin

text \<open>
  Replacing the metadata file and the status file: what each does to the other and to the segments,
  while it runs, when it fails and when it is done.
\<close>

section \<open>A scratch file and its rename\<close>

lemma scratched_other:
  assumes "scratched t s s'" "q \<noteq> t"
  shows "lookup s' q = lookup s q" "settled s q \<Longrightarrow> settled s' q" "(q, i) \<in> links s' \<Longrightarrow> (q, i) \<in> links s"
  using assms by (auto simp: scratched_def store_simps)

lemma replaceable_scratched:
  assumes r: "replaceable p t G s" and s: "store_ok s" "p \<noteq> t" "scratched t s s'"
  shows "replaceable p t G s'"
  using s(3) unfolding scratched_def
proof (elim disjE exE conjE)
  fix i f assume "lookup s t = Some i" "s' = set_file i f s"
  then show ?thesis using replaceable_set_file [OF r] replaceable_file [OF r] by blast
next
  fix i f assume i: "i = dk_next s" "s' = set_file i f (fresh_entry t s)"
  have "(p, i) \<notin> links (fresh_entry t s)" using i s links_less [of s p i] by (auto simp: store_simps)
  then show ?thesis using replaceable_set_file [OF replaceable_fresh [OF r s(1,2)]] i by simp
qed (use r in simp)

definition file_pair :: "path \<Rightarrow> path \<Rightarrow> bool" where
  "file_pair p t = (p = meta_path \<and> t = meta_tmp_path \<or> p = clog_path \<and> t = clog_tmp_path)"

lemma file_pair_facts:
  assumes "file_pair p t"
  shows "p \<noteq> t" "\<not> is_seg p" "\<not> is_seg t" "fst t = fst p" "fst p = DataDir \<or> p = meta_path" "fst t = DataDir \<or> t = meta_tmp_path"
    "p \<noteq> (DataDir, ''wal'')" "t \<noteq> (DataDir, ''wal'')" "p \<noteq> (DataDir, ''wal.dat'')" "t \<noteq> (DataDir, ''wal.dat'')"
proof -
  show "\<not> is_seg p" "\<not> is_seg t" using assms by (auto simp: file_pair_def)
qed (use assms in \<open>auto simp: file_pair_def meta_path_def meta_tmp_path_def clog_path_def clog_tmp_path_def\<close>)

lemma base_ok: "disk_base s \<Longrightarrow> store_ok s" "disk_base s \<Longrightarrow> grounded s" "disk_base s \<Longrightarrow> tidy s"
  using grounded_ok by (auto simp: disk_base_def)

lemma base_frame:
  assumes b: "disk_base s" and s': "segs_same s s'" "tidy s'"
    and w: "\<And>q. q = (DataDir, ''wal'') \<or> q = (DataDir, ''wal.dat'') \<Longrightarrow> lookup s' q = lookup s q \<and> (settled s q \<longrightarrow> settled s' q)
      \<and> (\<forall>i. (q, i) \<in> links s' \<longrightarrow> (q, i) \<in> links s)"
  shows "disk_base s'"
  using b s' w [of "(DataDir, ''wal'')"] w [of "(DataDir, ''wal.dat'')"] segs_same_grounded [OF s'(1)]
  by (auto simp: disk_base_def wal_entry_ok_def)

lemma base_scratched:
  assumes b: "disk_base s" and p: "file_pair p t" and s': "scratched t s s'"
  shows "disk_base s'" "segs_same s s'"
proof -
  note f = file_pair_facts [OF p]
  show same: "segs_same s s'" by (rule same_scratched [OF base_ok(2) [OF b] f(3) s'])
  have "tidy s'" by (rule tidy_scratched [OF base_ok(3) [OF b] base_ok(1) [OF b] f(6) s'])
  then show "disk_base s'" using f scratched_other [OF s'] by (intro base_frame [OF b same]) auto
qed

lemma replacedE:
  assumes "replaced p t bs s s'"
  obtains s1 i where "scratched t s s1" "lookup s1 t = Some i" "whole (dk_files s1 i)" "bytes_of s1 i = bs"
    "s' = change_dir [(t, None), (p, Some i)] s1"
  using assms unfolding replaced_def by blast

lemma base_replaced:
  assumes b: "disk_base s" and p: "file_pair p t" and r: "replaced p t bs s s'"
  shows "disk_base s'" "segs_same s s'"
proof -
  obtain s1 i where s1: "scratched t s s1" "lookup s1 t = Some i" "s' = change_dir [(t, None), (p, Some i)] s1"
    using r by (rule replacedE)
  note f = file_pair_facts [OF p] and b1 = base_scratched [OF b p s1(1)]
  have same: "segs_same s1 s'" unfolding s1(3) by (rule same_rename [OF base_ok(2) [OF b1(1)] f(2,3) f(4) [symmetric] s1(2)])
  then show "segs_same s s'" using b1(2) segs_same_trans by blast
  have "tidy s'" unfolding s1(3) by (rule tidy_rename [OF base_ok(3) [OF b1(1)] s1(2) f(4) [symmetric] f(5)])
  then show "disk_base s'" using f(7-) by (intro base_frame [OF b1(1) same]) (auto simp: s1(3) store_simps)
qed

lemma own_replaced:
  assumes r: "replaceable p t G s" and p: "file_pair p t" and s: "store_ok s" "replaced p t bs s s'" and G: "G (Some bs)"
  shows "replaceable p t G s'" "lookup s' p \<noteq> None" "map_option (bytes_of s') (lookup s' p) = Some bs"
proof -
  obtain s1 i where s1: "scratched t s s1" "lookup s1 t = Some i" "whole (dk_files s1 i)" "bytes_of s1 i = bs"
    "s' = change_dir [(t, None), (p, Some i)] s1"
    using s(2) by (rule replacedE)
  note f = file_pair_facts [OF p]
  have "replaceable p t G s1" by (rule replaceable_scratched [OF r s(1) f(1) s1(1)])
  then show "replaceable p t G s'" unfolding s1(5) using s1 f(1) G by (intro replaceable_rename) auto
  show "lookup s' p \<noteq> None" "map_option (bytes_of s') (lookup s' p) = Some bs" using s1 by (auto simp: store_simps)
qed

text \<open>The other file.\<close>

lemma other_scratched:
  assumes b: "disk_base s" and p: "file_pair p t" "file_pair q u" "q \<noteq> p" and r: "replaceable q u G s" and s': "scratched t s s'"
  shows "replaceable q u G s'"
proof -
  have d: "fst t \<noteq> fst q" "fst u = fst q" using p by (auto simp: file_pair_def meta_path_def meta_tmp_path_def clog_path_def clog_tmp_path_def)
  have "dir_same (fst q) s s'" by (rule dir_same_scratched [OF base_ok(3) [OF b] base_ok(1) [OF b] d(1) s'])
  then show ?thesis using r d by (intro dir_same_replaceable [of "fst q" s s']) auto
qed

lemma other_replaced:
  assumes b: "disk_base s" and p: "file_pair p t" "file_pair q u" "q \<noteq> p" and r: "replaceable q u G s" and s': "replaced p t bs s s'"
  shows "replaceable q u G s'"
proof -
  have d: "fst t \<noteq> fst q" "fst p \<noteq> fst q" "fst u = fst q"
    using p by (auto simp: file_pair_def meta_path_def meta_tmp_path_def clog_path_def clog_tmp_path_def)
  have "dir_same (fst q) s s'" by (rule dir_same_replaced [OF base_ok(3) [OF b] base_ok(1) [OF b] d(1,2) s'])
  then show ?thesis using r d by (intro dir_same_replaceable [of "fst q" s s']) auto
qed

lemma pair_flush:
  assumes "disk_base s" "file_pair p t" "replaceable p t G s"
  shows "replaceable p t G (flush_dir dn s)"
  using replaceable_flush_any [OF base_ok(1) [OF assms(1)] _ assms(3)] file_pair_facts(4) [OF assms(2)] by simp

lemma base_flush:
  assumes "disk_base s"
  shows "disk_base (flush_dir dn s)" "segs_same s (flush_dir dn s)"
  using disk_base_flush [OF assms] same_flush [OF base_ok(2) [OF assms]] by auto

lemma meta_pair [simp]: "file_pair meta_path meta_tmp_path" "file_pair clog_path clog_tmp_path"
  by (simp_all add: file_pair_def)

lemma pair_distinct [simp]: "meta_path \<noteq> clog_path" "clog_path \<noteq> meta_path"
  by (simp_all add: meta_path_def clog_path_def)

section \<open>The metadata\<close>

lemma write_meta_outcome:
  assumes ok: "store_ok (dk_store d)"
  shows "case write_meta_with_outcome crc m d of
      (Inr _, d') \<Rightarrow> (\<exists>s1. replaced meta_path meta_tmp_path (encode_meta crc m) (dk_store d) s1 \<and> dk_store d' = flush_dir WalDir s1)
        \<and> (nf (dk_faults d) \<longrightarrow> nf (dk_faults d'))
    | (Inl e, d') \<Rightarrow> \<not> nf (dk_faults d)
        \<and> (if mwf_replacement_visible e then replaced meta_path meta_tmp_path (encode_meta crc m) (dk_store d) (dk_store d')
           else scratched meta_tmp_path (dk_store d) (dk_store d'))"
proof -
  have "wp (replace_meta crc m) (\<lambda>_. replaced meta_path meta_tmp_path (encode_meta crc m) (dk_store d))
      (scratched meta_tmp_path (dk_store d)) (dk_store d)"
    unfolding replace_meta_def by (rule wp_replace [OF ok])
  then show ?thesis
  proof (cases rule: wp_cases)
    case (ok u d1)
    have "wp (sync_dir WalDir) (\<lambda>_ s. s = flush_dir WalDir (dk_store d1)) (\<lambda>s. s = dk_store d1) (dk_store d1)"
      by (rule wp_sync_dir_named) simp_all
    then show ?thesis by (cases rule: wp_cases) (use ok in \<open>auto simp: write_meta_with_outcome_def\<close>)
  qed (simp add: write_meta_with_outcome_def)
qed

text \<open>The metadata is written: the disk beside the segments names the new positions.\<close>

lemma meta_written:
  assumes b: "beside env P rs fl du s" and r: "replaced meta_path meta_tmp_path (encode_meta (le_crc env) \<lparr>wm_replay_floor = fl', wm_durable_end = du'\<rparr>) s s1"
    and c: "replaceable clog_path clog_tmp_path (clog_good env P rs fl' du') s"
  shows "beside env P rs fl' du' (flush_dir WalDir s1)" "segs_same s (flush_dir WalDir s1)"
    "replaceable clog_path clog_tmp_path G s \<Longrightarrow> replaceable clog_path clog_tmp_path G (flush_dir WalDir s1)"
proof -
  let ?m = "\<lparr>wm_replay_floor = fl', wm_durable_end = du'\<rparr>"
  have base: "disk_base s" using b by (simp add: beside_def)
  note b1 = base_replaced [OF base meta_pair(1) r] and ok = base_ok(1) [OF base]
  note b2 = base_flush [OF b1(1), of WalDir]
  have m: "replaceable meta_path meta_tmp_path (\<lambda>_. True) s"
    using b unfolding beside_def meta_holds_def by (blast intro: replaceable_mono)
  note own = own_replaced [OF m meta_pair(1) ok r]
  have "replaceable meta_path meta_tmp_path (\<lambda>b. b = Some (encode_meta (le_crc env) ?m)) (flush_dir WalDir s1)"
    using replaceable_flush [OF own(1) base_ok(1) [OF b1(1)], of WalDir] unfolding own(3) [OF TrueI] by (simp add: meta_path_def meta_tmp_path_def)
  then have "meta_holds (le_crc env) (\<lambda>m. m = ?m) (flush_dir WalDir s1)" by (simp add: meta_holds_def)
  moreover show clog: "replaceable clog_path clog_tmp_path G (flush_dir WalDir s1)" if "replaceable clog_path clog_tmp_path G s" for G
    using other_replaced [OF base meta_pair(1,2) _ that r] pair_flush [OF b1(1) meta_pair(2)] by simp
  ultimately show "beside env P rs fl' du' (flush_dir WalDir s1)"
    using b2(1) clog [OF c] base_ok(1) [OF b1(1)] by (simp add: beside_def store_simps meta_path_def meta_tmp_path_def)
  show "segs_same s (flush_dir WalDir s1)" using b1(2) b2(2) segs_same_trans by blast
qed

end
