(* ===== verification/Wal_Flush.thy ===== *)
theory Wal_Flush
  imports Wal_Files
begin

text \<open>
  Flushing: the segments are fsynced, the metadata is replaced, and a failure of either leaves a disk
  from which a crash recovers at least what was acknowledged before.
\<close>

section \<open>Disks with an open outcome\<close>

definition keeps_clog :: "store \<Rightarrow> store \<Rightarrow> bool" where
  "keeps_clog s s' = (\<forall>G. replaceable clog_path clog_tmp_path G s \<longrightarrow> replaceable clog_path clog_tmp_path G s')"

lemma keeps_clog_refl: "keeps_clog s s"
  by (simp add: keeps_clog_def)

lemma keeps_clog_trans: "keeps_clog s s1 \<Longrightarrow> keeps_clog s1 s2 \<Longrightarrow> keeps_clog s s2"
  by (simp add: keeps_clog_def)

lemma keeps_clog_ground: "ground (at_ctx crc fl du s) s' \<Longrightarrow> keeps_clog s s'"
  unfolding keeps_clog_def using ground_clog by blast

lemma candidate_same:
  assumes "candidate env P rs L a c pend s m" "segs_same s s'" "keeps_clog s s'"
  shows "candidate env P rs L a c pend s' m"
  using assms(1,3) loose_same [OF _ assms(2)] unfolding candidate_def keeps_clog_def by blast

lemma frozen_at_scratched:
  assumes f: "frozen_at env P rs L M a c pend s" and p: "file_pair p t" and s': "scratched t s s'"
  shows "frozen_at env P rs L M a c pend s'"
proof -
  have b: "disk_base s" and m: "replaceable meta_path meta_tmp_path (\<lambda>b. \<exists>m. M m \<and> b = Some (encode_meta (le_crc env) m)) s"
    using f by (auto simp: frozen_at_def meta_holds_def)
  note ok = base_ok(1) [OF b] and b' = base_scratched [OF b p s']
  have keep: "replaceable q u G s'" if q: "file_pair q u" "replaceable q u G s" for q u G
  proof (cases "q = p")
    case True
    then have "u = t" using q p by (auto simp: file_pair_def)
    then show ?thesis using True q(2) replaceable_scratched [OF _ ok file_pair_facts(1) [OF p] s'] by simp
  qed (use other_scratched [OF b p q(1) _ q(2) s'] in simp)
  then have "keeps_clog s s'" by (simp add: keeps_clog_def)
  then show ?thesis
    using f b' keep [OF meta_pair(1) m] candidate_same [OF _ b'(2)] unfolding frozen_at_def meta_holds_def by blast
qed

lemma frozen_at_flush:
  assumes f: "frozen_at env P rs L M a c pend s"
  shows "frozen_at env P rs L M a c pend (flush_dir dn s)"
proof -
  have b: "disk_base s" using f by (simp add: frozen_at_def)
  have "keeps_clog s (flush_dir dn s)" using pair_flush [OF b meta_pair(2)] by (simp add: keeps_clog_def)
  then show ?thesis
    using f base_flush [OF b, of dn] pair_flush [OF b meta_pair(1)] candidate_same [OF _ base_flush(2) [OF b]]
    unfolding frozen_at_def meta_holds_def by blast
qed

lemma frozen_at_meta:
  assumes f: "frozen_at env P rs L M a c pend s"
    and s': "replaced meta_path meta_tmp_path (encode_meta (le_crc env) m) s s'" and m: "candidate env P rs L a c pend s m"
  shows "frozen_at env P rs L (\<lambda>m'. M m' \<or> m' = m) a c pend s'"
proof -
  have b: "disk_base s" using f by (simp add: frozen_at_def)
  note b' = base_replaced [OF b meta_pair(1) s']
  have keep: "keeps_clog s s'" using other_replaced [OF b meta_pair(1,2) _ _ s'] by (simp add: keeps_clog_def)
  have "replaceable meta_path meta_tmp_path (\<lambda>b. \<exists>m'. (M m' \<or> m' = m) \<and> b = Some (encode_meta (le_crc env) m')) s"
    using f unfolding frozen_at_def meta_holds_def by (blast intro: replaceable_mono)
  then have "meta_holds (le_crc env) (\<lambda>m'. M m' \<or> m' = m) s'"
    unfolding meta_holds_def by (rule own_replaced(1) [OF _ meta_pair(1) base_ok(1) [OF b] s']) blast
  then show ?thesis using f b' m candidate_same [OF _ b'(2) keep] unfolding frozen_at_def by blast
qed

lemma frozen_at_segments:
  assumes f: "frozen_at env P rs L (\<lambda>m. m = \<lparr>wm_replay_floor = fl, wm_durable_end = du\<rparr>) a c pend s"
    and l: "loose (at_ctx (le_crc env) fl du s) 0 (take du L) t s'" "t \<le> u64_limit"
  shows "frozen_at env P rs L (\<lambda>m. m = \<lparr>wm_replay_floor = fl, wm_durable_end = du\<rparr>) a c pend s'"
proof -
  have g: "ground (at_ctx (le_crc env) fl du s) s'" using l(1) by (rule loose_ground)
  have b: "disk_base s" and m: "candidate env P rs L a c pend s \<lparr>wm_replay_floor = fl, wm_durable_end = du\<rparr>"
    using f by (simp_all add: frozen_at_def)
  have "candidate env P rs L a c pend s' \<lparr>wm_replay_floor = fl, wm_durable_end = du\<rparr>"
    using m loose_rebase [OF loose_mono [OF l]] ground_clog [OF g] by (simp add: candidate_def)
  then show ?thesis using f disk_base_ground [OF g] ground_meta [OF g] b by (simp add: frozen_at_def)
qed

section \<open>Segments and their durable end\<close>

lemma live_durable:
  assumes "live x u L s" "length L = cx_durable x"
  shows "live x u' L s"
proof -
  have "exact_file x u' L n f" if "exact_file x u L n f" "n \<le> last_seg x (length L)" for n f
    using that assms(2) by (simp add: exact_file_def loose_file_def)
  then show ?thesis using assms(1) unfolding live_def by (blast intro: seg_mono)
qed

lemma live_synced:
  assumes l: "live (at_ctx crc fl du s0) u L s" and u: "last_seg (at_ctx crc fl du s0) (length L) < u"
  shows "live (at_ctx crc fl (length L) s0) u' L s"
proof -
  let ?x = "at_ctx crc fl du s0" and ?y = "at_ctx crc fl (length L) s0"
  have same: "last_seg ?y = last_seg ?x" "first_seg ?y = first_seg ?x" by (auto simp: last_seg_def first_seg_def)
  have "exact_file ?y u' L n f" if "exact_file ?x u L n f" "n \<le> last_seg ?x (length L)" for n f
    using that u same by (auto simp: exact_file_def loose_file_def)
  moreover have "ground ?y s" using l by (simp add: live_def ground_def)
  moreover have "in_range ?y L" using l by (simp add: live_def in_range_def)
  ultimately show ?thesis using l unfolding live_def same by (blast intro: seg_mono)
qed

lemma live_seg:
  assumes "live x u L s" "first_seg x \<le> n" "n \<le> last_seg x (length L)"
  obtains i where "lookup s (segment_path n) = Some i" "bytes_of s i = seg_header (cx_crc x) n @ chunk n L"
  using assms unfolding live_def seg_def exact_file_def by blast

lemma wp_sync_segments:
  assumes "live x n L s" "first_seg x \<le> n" "n \<le> last_seg x (length L)"
    "lookup s (segment_path (last_seg x (length L))) = Some (h_inode active)"
    and Q: "\<And>s'. live x (last_seg x (length L) + 1) L s' \<Longrightarrow> lookup s' (segment_path (last_seg x (length L))) = Some (h_inode active) \<Longrightarrow> Q () s'"
    and E: "\<And>s'. live x n L s' \<Longrightarrow> lookup s' (segment_path (last_seg x (length L))) = Some (h_inode active) \<Longrightarrow> E s'"
  shows "wp (sync_segments (cx_crc x) active (last_seg x (length L)) n) Q E s"
  using assms(1-4) E
proof (induction "last_seg x (length L) - n" arbitrary: n s rule: less_induct)
  case less
  note l = less.prems(1) and n = less.prems(2,3) and h = less.prems(4) and E = less.prems(5)
  let ?k = "last_seg x (length L)"
  have range: "in_range x L" using l by (simp add: live_def)
  note num = in_range_seg [OF range n(2)]
  show ?case
  proof (cases "n = ?k")
    case True
    have "live x (?k + 1) L (set_file (h_inode active) (sync_file (dk_files s (h_inode active))) s)"
      using True h n by (intro live_sync [OF l, of n]) auto
    then show ?thesis using True h l E Q
      by (subst sync_segments.simps) (auto intro!: wp_sync simp: store_simps)
  next
    case False
    then have n1: "n + 1 \<le> ?k" using n by simp
    obtain i where i: "lookup s (segment_path n) = Some i" "bytes_of s i = seg_header (cx_crc x) n @ chunk n L"
      by (rule live_seg [OF l n])
    let ?s = "set_file i (sync_file (dk_files s i)) s"
    have l1: "live x (n + 1) L ?s" using i n by (intro live_sync [OF l, of n]) auto
    have h1: "lookup ?s (segment_path ?k) = Some (h_inode active)" using h by (simp add: store_simps)
    have "wp (sync_segments (cx_crc x) active ?k (n + 1)) Q E ?s"
      using n n1 E live_mono [of x "n + 1" L _ n] by (intro less.hyps [OF _ l1 _ n1 h1]) auto
    moreover have "n + 1 < u64_limit" using in_range_seg(2) [OF range n1] .
    ultimately show ?thesis
      using False i num E [OF l h]
      by (subst sync_segments.simps) (auto intro!: wp_then wp_open_segment wp_sync)
  qed
qed

section \<open>A running manager\<close>

lemma run_okD:
  assumes "run_ok env P rs L st s"
  shows "framed (le_wal env) 0 rs L" "boundary rs (ws_flushed_lsn st)" "boundary rs (ws_replay_floor st)"
    "ws_replay_floor st \<le> ws_flushed_lsn st" "ws_flushed_lsn st \<le> length L" "ws_written_lsn st = length L" "length L + seg_bytes < u64_limit"
    "map_wf (statuses (ws_clog st))" "beside env P rs (ws_replay_floor st) (ws_flushed_lsn st) s" "live (run_ctx env st s) 0 L s"
    "active_ok (run_ctx env st s) L st s" "unflushed_ok (run_ctx env st s) L st s" "recycle_ok env P rs st s"
  using assms boundary_le by (auto simp: run_ok_def positions_ok_def whole_log_def)

lemma recycle_ok_keeps: "recycle_ok env P rs st s \<Longrightarrow> keeps_clog s s' \<Longrightarrow> recycle_ok env P rs st s'"
  by (simp add: recycle_ok_def keeps_clog_def)

lemma flushed_segment:
  assumes "cx_floor x \<le> f" "f < e"
  shows "first_seg x \<le> f div seg_bytes" "f div seg_bytes \<le> last_seg x e"
proof -
  show "first_seg x \<le> f div seg_bytes" using assms by (simp add: first_seg_def div_le_mono)
  have "f div seg_bytes < e div seg_bytes" if "e mod seg_bytes = 0"
    using that assms(2) payload_pos by (metis div_less_iff_less_mult div_mult_mod_eq add.right_neutral linorder_not_less div_le_mono mult.commute)
  then show "f div seg_bytes \<le> last_seg x e" using assms div_le_mono [of f e seg_bytes] by (auto simp: last_seg_def)
qed

lemma run_ok_moved:
  assumes r: "run_ok env P rs L st s" and l: "live (run_ctx env st s) u L s1"
    and u: "\<And>m. ws_unflushed_first_segment st = Some m \<Longrightarrow> m \<le> u"
    and h: "lookup s1 (segment_path (last_seg (run_ctx env st s) (length L))) = Some (h_inode h)"
  shows "run_ok env P rs L (st\<lparr>ws_active := h, ws_active_number := last_seg (run_ctx env st s) (length L)\<rparr>) s1" "keeps_clog s s1"
proof -
  have g: "ground (run_ctx env st s) s1" using l by (simp add: live_def)
  show k: "keeps_clog s s1" using g by (rule keeps_clog_ground)
  have same: "last_seg (run_ctx env st s1) = last_seg (run_ctx env st s)" by (rule at_ctx_indep)
  have l1: "live (run_ctx env st s1) u L s1" using l by (rule live_rebase)
  note d = run_okD [OF r]
  have "unflushed_ok (run_ctx env st s1) L st s1"
    using d(12) u live_mono [OF l1] by (auto simp: unflushed_ok_def split: option.splits)
  then show "run_ok env P rs L (st\<lparr>ws_active := h, ws_active_number := last_seg (run_ctx env st s) (length L)\<rparr>) s1"
    using r h same live_mono [OF l1, of 0] beside_ground [OF g d(9)] recycle_ok_keeps [OF d(13) k]
    by (simp add: run_ok_def positions_ok_def active_ok_def unflushed_ok_def recycle_ok_def split: option.splits)
qed

lemma wp_sync_unflushed:
  assumes r: "run_ok env P rs L st s"
    and Q: "\<And>s1. run_ok env P rs L st s1 \<Longrightarrow> keeps_clog s s1 \<Longrightarrow> live (run_ctx env st s1) (last_seg (run_ctx env st s) (length L) + 1) L s1 \<Longrightarrow> Q () s1"
    and E: "\<And>s1. run_ok env P rs L st s1 \<Longrightarrow> keeps_clog s s1 \<Longrightarrow> E s1"
  shows "wp (sync_unflushed (le_crc env) st) Q E s"
proof -
  let ?x = "run_ctx env st s" and ?k = "last_seg (run_ctx env st s) (length L)"
  note d = run_okD [OF r]
  have act: "ws_active_number st = ?k" "lookup s (segment_path ?k) = Some (h_inode (ws_active st))" using d(11) by (auto simp: active_ok_def)
  show ?thesis
  proof (cases "ws_unflushed_first_segment st")
    case None
    then have "live ?x (?k + 1) L s" using d(12) by (intro live_durable [OF d(10)]) (simp add: unflushed_ok_def)
    then show ?thesis using None Q [OF r keeps_clog_refl] by (simp add: sync_unflushed_def wp_ok)
  next
    case (Some m)
    then have m: "m = ws_flushed_lsn st div seg_bytes" "ws_flushed_lsn st < length L" "live ?x m L s"
      using d(12) by (auto simp: unflushed_ok_def)
    have n: "first_seg ?x \<le> m" "m \<le> ?k" using flushed_segment [of ?x "ws_flushed_lsn st" "length L"] m d(4) by auto
    have moved: "run_ok env P rs L st s1 \<and> keeps_clog s s1"
      if "live ?x u L s1" "m \<le> u" "lookup s1 (segment_path ?k) = Some (h_inode (ws_active st))" for u s1
      using run_ok_moved [OF r that(1) _ that(3), folded act(1)] Some that(2) by simp
    have "wp (sync_segments (cx_crc ?x) (ws_active st) ?k m) Q E s"
      using m n act moved Q E live_rebase by (intro wp_sync_segments [OF m(3) n]) (auto dest: le_SucI)
    then show ?thesis using Some act by (simp add: sync_unflushed_def)
  qed
qed

lemma fail_flush_frozen:
  assumes f: "frozen_at env P rs L (\<lambda>m. m = \<lparr>wm_replay_floor = ws_replay_floor st, wm_durable_end = ws_flushed_lsn st\<rparr>) a c pend (dk_store d)"
    and l: "loose (at_ctx (le_crc env) (ws_replay_floor st) (ws_flushed_lsn st) (dk_store d)) 0 (take (ws_flushed_lsn st) L) (length L div seg_bytes) (dk_store d)"
    and w: "ws_written_lsn st = length L" "ws_flushed_lsn st \<le> length L" "length L < u64_limit"
  shows "\<exists>e st' d'. fail_flush (le_crc env) what e0 st d = (Inl e, st', d') \<and> ws_poisoned st' \<noteq> None \<and> frozen env P rs a c pend (dk_store d')"
proof -
  let ?x = "at_ctx (le_crc env) (ws_replay_floor st) (ws_flushed_lsn st) (dk_store d)" and ?L = "take (ws_flushed_lsn st) L"
  have len: "length ?L = ws_flushed_lsn st" using w by simp
  have t: "length L div seg_bytes \<le> u64_limit" using w(3) by (meson div_le_dividend le_trans less_imp_le)
  have frz: "frozen env P rs a c pend s'" if "loose ?x 0 ?L t s'" "t \<le> u64_limit" for t s'
    using frozen_at_segments [OF f that] unfolding frozen_def by blast
  have "frozen env P rs a c pend s'" if "live ?x 0 ?L s'" for s'
    using frz [OF live_loose [OF that order_refl]] in_range_seg(2) [OF _ order_refl, of ?x ?L] that by (simp add: live_def)
  then have "wp (truncate_stream (cx_crc ?x) (length ?L) (ws_written_lsn st) (cx_floor ?x)) (\<lambda>_. frozen env P rs a c pend) (frozen env P rs a c pend) (dk_store d)"
    using frz t w by (intro wp_truncate_stream [OF l]) auto
  then show ?thesis unfolding len at_ctx_simps
    by (cases rule: wp_cases) (auto simp: fail_flush_def correct_failed_flush_def split: prod.splits)
qed


lemma clog_good_mono: "clog_good env P rs fl du b \<Longrightarrow> du \<le> du' \<Longrightarrow> clog_good env P rs fl du' b"
  by (auto simp: clog_good_def fits_def split: option.splits)

lemma clog_file_mono:
  "replaceable clog_path clog_tmp_path (clog_good env P rs fl du) s \<Longrightarrow> du \<le> du'
   \<Longrightarrow> replaceable clog_path clog_tmp_path (clog_good env P rs fl du') s"
  by (erule replaceable_mono) (rule clog_good_mono)

lemma run_loose:
  assumes r: "run_ok env P rs L st s"
  shows "loose (run_ctx env st s) 0 (take (ws_flushed_lsn st) L) (length L div seg_bytes) s"
  using run_okD [OF r] by (intro loose_take [OF live_loose]) (auto simp: last_seg_le)

text \<open>After the fsync the whole stream is a candidate for the durable end.\<close>

lemma synced_candidate:
  assumes r: "run_ok env P rs L st s" and l: "live (at_ctx (le_crc env) (ws_replay_floor st) (length L) s) 0 L s"
    and c: "ws_replay_floor st \<le> c" "a \<le> length L"
    and pend: "\<And>sn. pend = Some sn \<Longrightarrow> fits P rs (ws_replay_floor st) (ws_flushed_lsn st) sn"
  shows "candidate env P rs L a c pend s \<lparr>wm_replay_floor = ws_replay_floor st, wm_durable_end = length L\<rparr>"
proof -
  note d = run_okD [OF r]
  have "in_range (at_ctx (le_crc env) (ws_replay_floor st) (length L) s) L" using l by (simp add: live_def)
  then have "loose (at_ctx (le_crc env) (ws_replay_floor st) (length L) s) 0 L u64_limit s"
    using live_loose [OF l] in_range_seg(2) [OF _ order_refl] less_imp_le by blast
  moreover have "replaceable clog_path clog_tmp_path (clog_good env P rs (ws_replay_floor st) (length L)) s"
    using d(5,9) clog_file_mono unfolding beside_def by blast
  moreover have "fits P rs (ws_replay_floor st) (length L) sn" if "pend = Some sn" for sn
    using pend [OF that] d(5) by (auto simp: fits_def)
  ultimately show ?thesis using d c boundary_end [OF d(1)] upto_all [OF d(1) order_refl] by (simp add: candidate_def)
qed

definition flushed_state :: "wal_state \<Rightarrow> wal_state" where
  "flushed_state st = st\<lparr>ws_flushed_lsn := ws_written_lsn st, ws_pending_commits := [],
     ws_clog := fold set_committed (ws_pending_commits st) (ws_clog st), ws_unflushed_first_segment := None\<rparr>"

lemma flush_done_eq: "flush_done st d = (Inr (ws_written_lsn st), flushed_state st, d)"
  by (simp add: flush_done_def flushed_state_def)

lemma run_flushed:
  assumes r: "run_ok env P rs L st s" and k: "keeps_clog s s'"
    and b: "beside env P rs (ws_replay_floor st) (length L) s'" and l: "live (at_ctx (le_crc env) (ws_replay_floor st) (length L) s') 0 L s'"
    and h: "lookup s' (segment_path (ws_active_number st)) = Some (h_inode (ws_active st))"
  shows "run_ok env P rs L (flushed_state st) s'"
proof -
  note d = run_okD [OF r]
  have "recycle_ok env P rs (flushed_state st) s'"
    unfolding recycle_ok_def
  proof (intro allI impI)
    fix b assume "ws_recycle_boundary (flushed_state st) = Some b"
    then have "boundary rs b" "replaceable clog_path clog_tmp_path (clog_good env P rs b (ws_flushed_lsn st)) s'"
      using recycle_ok_keeps [OF d(13) k] by (simp_all add: recycle_ok_def flushed_state_def)
    then show "boundary rs b \<and> replaceable clog_path clog_tmp_path (clog_good env P rs b (ws_flushed_lsn (flushed_state st))) s'"
      using d(5,6) clog_file_mono unfolding flushed_state_def by auto
  qed
  moreover have "last_seg (at_ctx (le_crc env) (ws_replay_floor st) (length L) s') = last_seg (run_ctx env st s)"
    by (auto simp: last_seg_def)
  ultimately show ?thesis
    using d b l h boundary_end [OF d(1)]
    by (simp add: run_ok_def positions_ok_def whole_log_def flushed_state_def active_ok_def unflushed_ok_def map_wf_committed)
qed

lemma flush_meta_ok:
  assumes r: "run_ok env P rs L st (dk_store d)" and l: "live (run_ctx env st (dk_store d)) (last_seg (run_ctx env st (dk_store d)) (length L) + 1) L (dk_store d)"
    and c: "ws_replay_floor st \<le> c" and pend: "\<And>sn. pend = Some sn \<Longrightarrow> fits P rs (ws_replay_floor st) (ws_flushed_lsn st) sn"
  shows "case write_meta_with_outcome (le_crc env) \<lparr>wm_replay_floor = ws_replay_floor st, wm_durable_end = ws_written_lsn st\<rparr> d of
      (Inr _, d') \<Rightarrow> run_ok env P rs L (flushed_state st) (dk_store d') \<and> keeps_clog (dk_store d) (dk_store d') \<and> (nf (dk_faults d) \<longrightarrow> nf (dk_faults d'))
    | (Inl e, d') \<Rightarrow> \<not> nf (dk_faults d) \<and> (if mwf_replacement_visible e then frozen env P rs (ws_flushed_lsn st) c pend (dk_store d')
        else (\<exists>e2 st' d2. fail_flush (le_crc env) what (mwf_error e) st d' = (Inl e2, st', d2) \<and> ws_poisoned st' \<noteq> None
          \<and> frozen env P rs (ws_flushed_lsn st) c pend (dk_store d2)))"
proof -
  let ?s = "dk_store d" and ?fl = "ws_replay_floor st" and ?m = "\<lparr>wm_replay_floor = ws_replay_floor st, wm_durable_end = length L\<rparr>"
  note rd = run_okD [OF r] and frz = run_frozen [OF r c pend]
  have l2: "live (at_ctx (le_crc env) ?fl (length L) ?s) 0 L ?s" using l by (rule live_synced) simp
  have base: "disk_base ?s" using rd(9) by (simp add: beside_def)
  show ?thesis
  proof (cases "write_meta_with_outcome (le_crc env) ?m d")
    case (Pair r' d')
    note out = write_meta_outcome [OF base_ok(1) [OF base], of "le_crc env" ?m, unfolded Pair]
    show ?thesis
    proof (cases r')
      case (Inr u)
      then obtain s1 where s1: "replaced meta_path meta_tmp_path (encode_meta (le_crc env) ?m) ?s s1" "dk_store d' = flush_dir WalDir s1"
        "nf (dk_faults d) \<longrightarrow> nf (dk_faults d')" using out by auto
      have "replaceable clog_path clog_tmp_path (clog_good env P rs ?fl (length L)) ?s"
        using rd(5,9) clog_file_mono unfolding beside_def by blast
      note w = meta_written [OF rd(9) s1(1) this]
      have h: "lookup (dk_store d') (segment_path (ws_active_number st)) = Some (h_inode (ws_active st))"
        using rd(10,11) segs_same_lookup [OF w(2)] in_range_seg(2) [OF _ order_refl, of "run_ctx env st ?s" L] s1(2)
        by (simp add: active_ok_def live_def)
      have "keeps_clog ?s (dk_store d')" using w(3) s1(2) by (simp add: keeps_clog_def)
      then show ?thesis
        using run_flushed [OF r _ _ _ h] w(1) live_same [OF l2 w(2)] s1(2,3) Pair Inr rd(6) by simp
    next
      case (Inl e)
      show ?thesis
      proof (cases "mwf_replacement_visible e")
        case True
        then have "frozen env P rs (ws_flushed_lsn st) c pend (dk_store d')"
          using frozen_at_meta [OF frz _ synced_candidate [OF r l2 c rd(5) pend]] out Inl unfolding frozen_def by auto
        then show ?thesis using True out Pair Inl rd(6) by simp
      next
        case False
        then have sc: "scratched meta_tmp_path ?s (dk_store d')" using out Inl by simp
        have "\<exists>e2 st' d2. fail_flush (le_crc env) what (mwf_error e) st d' = (Inl e2, st', d2) \<and> ws_poisoned st' \<noteq> None
          \<and> frozen env P rs (ws_flushed_lsn st) c pend (dk_store d2)"
          using rd(5-7) loose_same [OF run_loose [OF r] base_scratched(2) [OF base meta_pair(1) sc]]
          by (intro fail_flush_frozen [OF frozen_at_scratched [OF frz meta_pair(1) sc]]) auto
        then show ?thesis using False out Pair Inl rd(6) by simp
      qed
    qed
  qed
qed

lemma flush_ok:
  assumes r: "run_ok env P rs L st (dk_store d)" and st: "ws_poisoned st = None"
    and c: "ws_replay_floor st \<le> c" and pend: "\<And>sn. pend = Some sn \<Longrightarrow> fits P rs (ws_replay_floor st) (ws_flushed_lsn st) sn"
  shows "case flush env st d of
      (Inr n, st', d') \<Rightarrow> n = length L \<and> st' = flushed_state st \<and> run_ok env P rs L st' (dk_store d') \<and> keeps_clog (dk_store d) (dk_store d')
        \<and> (nf (dk_faults d) \<longrightarrow> nf (dk_faults d'))
    | (Inl e, st', d') \<Rightarrow> \<not> nf (dk_faults d) \<and> ws_poisoned st' \<noteq> None \<and> frozen env P rs (ws_flushed_lsn st) c pend (dk_store d')"
proof -
  let ?x = "run_ctx env st (dk_store d)"
  have "wp (sync_unflushed (le_crc env) st)
      (\<lambda>_ s1. run_ok env P rs L st s1 \<and> keeps_clog (dk_store d) s1 \<and> live (run_ctx env st s1) (last_seg ?x (length L) + 1) L s1)
      (\<lambda>s1. run_ok env P rs L st s1) (dk_store d)"
    by (rule wp_sync_unflushed [OF r]) auto
  then show ?thesis
  proof (cases rule: wp_cases)
    case (err e d1)
    have "\<exists>e2 st' d2. fail_flush (le_crc env) ''WAL manager is unavailable after durability failure: '' e st d1 = (Inl e2, st', d2)
        \<and> ws_poisoned st' \<noteq> None \<and> frozen env P rs (ws_flushed_lsn st) c pend (dk_store d2)"
      using run_okD(5-7) [OF err(2)] run_loose [OF err(2)] by (intro fail_flush_frozen [OF run_frozen [OF err(2) c pend]]) auto
    then show ?thesis using err st by (auto simp: flush_def locked_def)
  next
    case (ok u d1)
    note rd = run_okD [OF r] and r1 = ok(2) [THEN conjunct1]
    have same: "last_seg ?x = last_seg (run_ctx env st (dk_store d1))" by (rule at_ctx_indep)
    show ?thesis
    proof (cases "ws_flushed_lsn st < ws_written_lsn st")
      case True
      have "live (run_ctx env st (dk_store d1)) (last_seg (run_ctx env st (dk_store d1)) (length L) + 1) L (dk_store d1)"
        using ok(2) same by simp
      note out = flush_meta_ok [OF r1 this c, of pend "''WAL manager is unavailable after durable-end update failure: ''", OF pend]
      obtain r' d' where w: "write_meta_with_outcome (le_crc env) \<lparr>wm_replay_floor = ws_replay_floor st, wm_durable_end = ws_written_lsn st\<rparr> d1 = (r', d')"
        by (cases "write_meta_with_outcome (le_crc env) \<lparr>wm_replay_floor = ws_replay_floor st, wm_durable_end = ws_written_lsn st\<rparr> d1")
      have k: "keeps_clog (dk_store d) (dk_store d1)" using ok(2) by blast
      show ?thesis
      proof (cases r')
        case (Inl e)
        then show ?thesis
          using out [unfolded w] ok(1,3) st True w by (cases "mwf_replacement_visible e") (auto simp: flush_def locked_def Let_def)
      next
        case (Inr u')
        then show ?thesis
          using out [unfolded w] ok(1,3) st True w rd(6) keeps_clog_trans [OF k] by (auto simp: flush_def locked_def flush_done_eq)
      qed
    next
      case False
      then have "length L = ws_flushed_lsn st" using rd(5,6) by simp
      then have "run_ok env P rs L (flushed_state st) (dk_store d1)"
        using run_okD [OF r1] by (intro run_flushed [OF r1 keeps_clog_refl]) (auto simp: active_ok_def)
      then show ?thesis using ok st rd(6) False by (simp add: flush_def locked_def flush_done_eq)
    qed
  qed
qed


end
