(* ===== verification/Wal_Append.thy ===== *)
theory Wal_Append
  imports Wal_Flush
begin

text \<open>
  Appending: the stream grows by one frame, or the segments are cut back to where they were, or the
  manager is poisoned with the durable part of the log intact.
\<close>

section \<open>One more record\<close>

lemma log_upto_snoc:
  assumes "framed env 0 rs L" "e \<le> length L" "length L < unat (wr_lsn r)"
  shows "log_upto e (rs @ [r]) = log_upto e rs"
  using assms by (simp add: log_upto_def takeWhile_append2 takeWhile_tail)

lemma boundary_snoc: "boundary rs p \<Longrightarrow> boundary (rs @ [r]) p"
  by (auto simp: boundary_def)

lemma fits_snoc:
  assumes "framed env 0 rs L" "du \<le> length L" "length L < unat (wr_lsn r)" "fits P rs fl du sn"
  shows "fits P (rs @ [r]) fl du sn"
  using assms log_upto_snoc [OF assms(1) _ assms(3)] boundary_snoc by (auto simp: fits_def)

lemma clog_file_snoc:
  assumes "framed env' 0 rs L" "du \<le> length L" "length L < unat (wr_lsn r)"
    "replaceable clog_path clog_tmp_path (clog_good env P rs fl du) s"
  shows "replaceable clog_path clog_tmp_path (clog_good env P (rs @ [r]) fl du) s"
  using assms(4) by (rule replaceable_mono) (use fits_snoc [OF assms(1-3)] in \<open>auto simp: clog_good_def split: option.splits\<close>)

lemma run_ok_clog:
  "run_ok env P rs L st s \<Longrightarrow> map_wf (statuses c) \<Longrightarrow> run_ok env P rs L (st\<lparr>ws_clog := c\<rparr>) s"
  by (simp add: run_ok_def positions_ok_def active_ok_def unflushed_ok_def recycle_ok_def split: option.splits)

lemma map_wf_mark: "map_wf (statuses c) \<Longrightarrow> map_wf (statuses (mark_writer r c))"
  by (simp add: mark_writer_def map_wf_status)

section \<open>A failed append\<close>

lemma repair_ok:
  assumes r: "run_ok env P rs L st s" and l: "loose (run_ctx env st s) u L (e div seg_bytes) (dk_store d)"
    and e: "e < u64_limit" "length L \<le> e" and u: "\<And>m. ws_unflushed_first_segment st = Some m \<Longrightarrow> m \<le> u"
    and c: "ws_replay_floor st \<le> c" and pend: "\<And>sn. pend = Some sn \<Longrightarrow> fits P rs (ws_replay_floor st) (ws_flushed_lsn st) sn"
  shows "case repair_failed_append (le_crc env) (length L) e (st\<lparr>ws_active := h1, ws_active_number := n1\<rparr>) d of
      (Inr _, st', d') \<Rightarrow> run_ok env P rs L st' (dk_store d') \<and> keeps_clog s (dk_store d')
        \<and> (\<exists>h n. st' = st\<lparr>ws_active := h, ws_active_number := n\<rparr>)
    | (Inl e, st', d') \<Rightarrow> ws_poisoned st' \<noteq> None \<and> frozen env P rs (ws_flushed_lsn st) c pend (dk_store d')"
proof -
  let ?x = "run_ctx env st s" and ?k = "last_seg (run_ctx env st s) (length L)"
  note d = run_okD [OF r]
  have t: "e div seg_bytes \<le> u64_limit" using e(1) by (meson div_le_dividend le_trans less_imp_le)
  have frz: "frozen env P rs (ws_flushed_lsn st) c pend s'" if "loose ?x u L (e div seg_bytes) s'" for s'
    using frozen_at_segments [OF run_frozen [OF r c pend] loose_take [OF loose_unsync [OF that le0]] t] d(5)
    unfolding frozen_def by auto
  have first: "(case ws_unflushed_first_segment st of None \<Rightarrow> None | Some first \<Rightarrow> if ?k < first then None else Some first)
      = ws_unflushed_first_segment st"
    using d(4,12) flushed_segment(2) [of ?x "ws_flushed_lsn st" "length L"]
    by (auto simp: unflushed_ok_def split: option.splits)
  have "wp (truncate_stream (cx_crc ?x) (length L) e (cx_floor ?x))
      (\<lambda>v s'. snd v = ?k \<and> run_ok env P rs L (st\<lparr>ws_active := fst v, ws_active_number := ?k\<rparr>) s' \<and> keeps_clog s s')
      (frozen env P rs (ws_flushed_lsn st) c pend) (dk_store d)"
    using frz e run_ok_moved [OF r _ u] by (intro wp_truncate_stream [OF l]) auto
  then show ?thesis unfolding at_ctx_simps
  proof (cases rule: wp_cases)
    case (ok v d')
    have "st\<lparr>ws_active := fst v, ws_active_number := ?k, ws_unflushed_first_segment := ws_unflushed_first_segment st\<rparr>
        = st\<lparr>ws_active := fst v, ws_active_number := ?k\<rparr>" by simp
    then show ?thesis using ok first by (cases v) (auto simp: repair_failed_append_def)
  qed (simp add: repair_failed_append_def)
qed

section \<open>A successful append\<close>

lemma append_live:
  assumes r: "run_ok env P rs L st s"
  defines "u \<equiv> (case ws_unflushed_first_segment st of Some m \<Rightarrow> m | None \<Rightarrow> length L div seg_bytes)"
  shows "live (run_ctx env st s) u L s" "u \<le> length L div seg_bytes" "u = ws_flushed_lsn st div seg_bytes"
proof -
  note d = run_okD [OF r]
  show "live (run_ctx env st s) u L s"
    using d(12) live_durable [OF d(10)] by (auto simp: unflushed_ok_def u_def split: option.splits)
  show "u \<le> length L div seg_bytes" "u = ws_flushed_lsn st div seg_bytes"
    using d(5,12) div_le_mono [of "ws_flushed_lsn st" "length L"] by (auto simp: unflushed_ok_def u_def split: option.splits)
qed

definition appended_state :: "handle \<Rightarrow> nat \<Rightarrow> u64 list \<Rightarrow> nat \<Rightarrow> wal_state \<Rightarrow> wal_state" where
  "appended_state h n staged e st = st\<lparr>ws_active := h, ws_active_number := n,
     ws_unflushed_first_segment := (case ws_unflushed_first_segment st of
       Some first \<Rightarrow> Some first | None \<Rightarrow> Some (ws_written_lsn st div SEGMENT_PAYLOAD_BYTES)),
     ws_pending_commits := List.union staged (ws_pending_commits st), ws_written_lsn := e\<rparr>"

lemma run_appended:
  assumes r: "run_ok env P rs L st s" and f: "framed (le_wal env) 0 (rs @ [r']) (L @ bs)" "unat (wr_lsn r') = length (L @ bs)" "bs \<noteq> []"
    and room: "length (L @ bs) + seg_bytes < u64_limit"
    and l: "live (run_ctx env st s) (ws_flushed_lsn st div seg_bytes) (L @ bs) s'"
    and h: "n = last_seg (run_ctx env st s) (length (L @ bs))" "lookup s' (segment_path n) = Some (h_inode h)"
  shows "run_ok env P (rs @ [r']) (L @ bs) (appended_state h n staged (length (L @ bs)) st) s'" "keeps_clog s s'"
proof -
  let ?st = "appended_state h n staged (length (L @ bs)) st"
  note d = run_okD [OF r] and u = append_live [OF r]
  have g: "ground (run_ctx env st s) s'" using l by (simp add: live_def)
  show k: "keeps_clog s s'" using g by (rule keeps_clog_ground)
  have lt: "length L < unat (wr_lsn r')" using f(2,3) by simp
  note snoc = clog_file_snoc [OF d(1,5) lt]
  have ctx: "run_ctx env ?st s' = run_ctx env st s'" by (simp add: appended_state_def)
  have l1: "live (run_ctx env st s') (ws_flushed_lsn st div seg_bytes) (L @ bs) s'" using l by (rule live_rebase)
  have same: "last_seg (run_ctx env st s') = last_seg (run_ctx env st s)" by (rule at_ctx_indep)
  have "beside env P (rs @ [r']) (ws_replay_floor st) (ws_flushed_lsn st) s'"
    using beside_ground [OF g d(9)] snoc unfolding beside_def by blast
  moreover have "recycle_ok env P (rs @ [r']) ?st s'"
    using recycle_ok_keeps [OF d(13) k] snoc boundary_snoc by (simp add: recycle_ok_def appended_state_def) blast
  moreover have "positions_ok env (rs @ [r']) (L @ bs) ?st"
    using d f room boundary_snoc [OF d(2)] boundary_snoc [OF d(3)] by (simp add: positions_ok_def whole_log_def appended_state_def)
  moreover have "unflushed_ok (run_ctx env st s') (L @ bs) ?st s'"
    using l1 u(3) d(5,6,12) f(3) by (auto simp: unflushed_ok_def appended_state_def split: option.splits)
  ultimately show "run_ok env P (rs @ [r']) (L @ bs) ?st s'"
    using d(8) l1 h same live_mono [OF l1, of 0] unfolding run_ok_def ctx
    by (simp add: appended_state_def active_ok_def)
qed

section \<open>The append\<close>

lemma append_bytes_ok:
  assumes r: "run_ok env P rs L st (dk_store d)" and st: "ws_poisoned st = None"
    and enc: "encode_record_at (le_wal env) rec (of_nat (length L)) = Inr (r', bs)" "kind_wf (wr_kind rec)" "unat (wr_lsn r') + seg_bytes < u64_limit"
    and c: "ws_replay_floor st \<le> c" and pend: "\<And>sn. pend = Some sn \<Longrightarrow> fits P rs (ws_replay_floor st) (ws_flushed_lsn st) sn"
  shows "framed (le_wal env) 0 (rs @ [r']) (L @ bs) \<and> unat (wr_lsn r') = length (L @ bs) \<and> bs \<noteq> []
    \<and> (case append_stream (le_crc env) (ws_active st) (ws_active_number st) (length L) bs d of
        ((Inr _, h, n), d') \<Rightarrow> run_ok env P (rs @ [r']) (L @ bs) (appended_state h n staged (unat (wr_lsn r')) st) (dk_store d')
          \<and> keeps_clog (dk_store d) (dk_store d') \<and> (nf (dk_faults d) \<longrightarrow> nf (dk_faults d'))
      | ((Inl e, h, n), d') \<Rightarrow> \<not> nf (dk_faults d)
          \<and> (case repair_failed_append (le_crc env) (length L) (unat (wr_lsn r')) (st\<lparr>ws_active := h, ws_active_number := n\<rparr>) d' of
               (Inr _, st', d2) \<Rightarrow> run_ok env P rs L st' (dk_store d2) \<and> keeps_clog (dk_store d) (dk_store d2)
                 \<and> (\<exists>h n. st' = st\<lparr>ws_active := h, ws_active_number := n\<rparr>)
             | (Inl e, st', d2) \<Rightarrow> ws_poisoned st' \<noteq> None \<and> frozen env P rs (ws_flushed_lsn st) c pend (dk_store d2)))"
proof -
  let ?x = "run_ctx env st (dk_store d)" and ?e = "length L + length bs"
  define u where "u = (case ws_unflushed_first_segment st of Some m \<Rightarrow> m | None \<Rightarrow> length L div seg_bytes)"
  note rd = run_okD [OF r] and live = append_live [OF r, folded u_def]
  have ok: "wr_kind r' = wr_kind rec" "unat (wr_lsn r') = unat (of_nat (length L) :: u64) + length bs" "encode_record (le_wal env) r' = Inr bs"
    using encode_record_at_ok [OF enc(1)] by auto
  have "unat (of_nat (length L) :: u64) = length L" using rd(7) by (intro unat_of_nat_u64) simp
  then have lsn: "unat (wr_lsn r') = ?e" using ok(2) by simp
  have ne: "bs \<noteq> []" using ok(3) encode_record_nonempty by blast
  have f: "framed (le_wal env) 0 (rs @ [r']) (L @ bs)"
    using rd(1) ok enc(2) lsn unfolding framed_append by (intro exI [of _ L] exI [of _ bs]) auto
  have act: "ws_active_number st = last_seg ?x (length L)" "lookup (dk_store d) (segment_path (ws_active_number st)) = Some (h_inode (ws_active st))"
    using rd(11) by (auto simp: active_ok_def)
  have room: "?e + seg_bytes < u64_limit" using enc(3) lsn by simp
  have eta: "\<lparr>dk_store = dk_store d, dk_faults = dk_faults d\<rparr> = d" by simp
  have out: "case append_stream (le_crc env) (ws_active st) (ws_active_number st) (length L) bs d of
      ((Inr _, active', anum'), d') \<Rightarrow>
        live ?x u (L @ bs) (dk_store d') \<and> anum' = last_seg ?x (length (L @ bs))
        \<and> lookup (dk_store d') (segment_path anum') = Some (h_inode active') \<and> (nf (dk_faults d) \<longrightarrow> nf (dk_faults d'))
    | ((Inl e, active', anum'), d') \<Rightarrow> loose ?x u L (?e div seg_bytes) (dk_store d') \<and> \<not> nf (dk_faults d)"
    using append_stream_ok [OF live(1,2) _ act order_refl, of bs "dk_faults d", unfolded eta] room by simp
  obtain w h n d' where ap: "append_stream (le_crc env) (ws_active st) (ws_active_number st) (length L) bs d = ((w, h, n), d')"
    by (metis prod_cases3 surj_pair)
  show ?thesis
  proof (cases w)
    case (Inl e)
    have "\<And>m. ws_unflushed_first_segment st = Some m \<Longrightarrow> m \<le> u" by (simp add: u_def)
    note rep = repair_ok [where u = u and e = ?e and d = d' and pend = pend and ?h1.0 = h and ?n1.0 = n, OF r _ _ _ this c pend]
    show ?thesis using out [unfolded ap] Inl f lsn ne room rep unfolding ap by simp
  next
    case (Inr v)
    have "run_ok env P (rs @ [r']) (L @ bs) (appended_state h n staged (length (L @ bs)) st) (dk_store d')" "keeps_clog (dk_store d) (dk_store d')"
      using out [unfolded ap] Inr live(3) room by (intro run_appended [OF r f _ ne]; simp add: lsn)+
    then show ?thesis using out [unfolded ap] Inr f lsn ne unfolding ap by simp
  qed
qed

text \<open>There is room for one more segment after the record.\<close>

definition append_room :: "'b log_env \<Rightarrow> 'b wal_record \<Rightarrow> wal_state \<Rightarrow> bool" where
  "append_room env r st = (case encode_record_at (le_wal env) r (of_nat (ws_written_lsn st)) of
     Inr (r', bs) \<Rightarrow> unat (wr_lsn r') + SEGMENT_PAYLOAD_BYTES < u64_limit | Inl e \<Rightarrow> True)"

lemma append_ok:
  assumes r: "run_ok env P rs L st (dk_store d)" and st: "ws_poisoned st = None" and wf: "kind_wf (wr_kind rec)"
    and rm: "append_room env rec st"
    and c: "ws_replay_floor st \<le> c" and pend: "\<And>sn. pend = Some sn \<Longrightarrow> fits P rs (ws_replay_floor st) (ws_flushed_lsn st) sn"
  shows "case append_positioned env rec st d of
      (Inr p, st', d') \<Rightarrow> \<exists>r' bs h n. encode_record_at (le_wal env) rec (of_nat (length L)) = Inr (r', bs)
        \<and> p = \<lparr>wp_replay_from = length L, wp_record_lsn = length (L @ bs)\<rparr> \<and> unat (wr_lsn r') = length (L @ bs) \<and> bs \<noteq> []
        \<and> st' = appended_state h n (staged_commits r') (length (L @ bs)) (st\<lparr>ws_clog := mark_writer rec (ws_clog st)\<rparr>)
        \<and> run_ok env P (rs @ [r']) (L @ bs) st' (dk_store d') \<and> keeps_clog (dk_store d) (dk_store d') \<and> (nf (dk_faults d) \<longrightarrow> nf (dk_faults d'))
    | (Inl e, st', d') \<Rightarrow>
        (nf (dk_faults d) \<longrightarrow> d' = d \<and> (must_backpressure_new_writer (ws_clog st) (wr_txn_id rec) \<or> (\<exists>e. encode_record_at (le_wal env) rec (of_nat (length L)) = Inl e)))
        \<and> (if ws_poisoned st' = None
           then (\<exists>h n c. st' = st\<lparr>ws_clog := c, ws_active := h, ws_active_number := n\<rparr>)
             \<and> run_ok env P rs L st' (dk_store d') \<and> keeps_clog (dk_store d) (dk_store d')
           else frozen env P rs (ws_flushed_lsn st) c pend (dk_store d'))"
proof -
  let ?st = "st\<lparr>ws_clog := mark_writer rec (ws_clog st)\<rparr>"
  note rd = run_okD [OF r]
  have room: "unat (wr_lsn r') + seg_bytes < u64_limit" if "encode_record_at (le_wal env) rec (of_nat (length L)) = Inr (r', bs)" for r' bs
    using rm that rd(6) by (simp add: append_room_def)
  have r1: "run_ok env P rs L ?st (dk_store d)" using r map_wf_mark [OF rd(8)] by (rule run_ok_clog)
  have "c = ws_clog st \<Longrightarrow> st = st\<lparr>ws_clog := c, ws_active := ws_active st, ws_active_number := ws_active_number st\<rparr>" for c by simp
  then have self: "\<exists>h n c. st = st\<lparr>ws_clog := c, ws_active := h, ws_active_number := n\<rparr>" by blast
  have "?st = st\<lparr>ws_clog := mark_writer rec (ws_clog st), ws_active := ws_active st, ws_active_number := ws_active_number st\<rparr>" by simp
  then have self2: "\<exists>h n c. ?st = st\<lparr>ws_clog := c, ws_active := h, ws_active_number := n\<rparr>" by blast
  show ?thesis
  proof (cases "represents_transaction rec \<and> \<not> is_settlement (wr_kind rec) \<and> must_backpressure_new_writer (ws_clog st) (wr_txn_id rec)")
    case True
    then show ?thesis using r st self keeps_clog_refl by (simp add: append_positioned_def)
  next
    case False
    note app = append_positioned_def [of env rec st d, unfolded if_not_P [OF False] Let_def]
    show ?thesis
    proof (cases "encode_record_at (le_wal env) rec (of_nat (length L))")
      case (Inl e)
      then show ?thesis using r1 st self2 keeps_clog_refl rd(6) unfolding app by simp
    next
      case (Inr v)
      then obtain r' bs where enc: "encode_record_at (le_wal env) rec (of_nat (length L)) = Inr (r', bs)" by (cases v) auto
      note out = append_bytes_ok [OF r1 _ enc wf room [OF enc], of c pend "staged_commits r'", simplified, OF st c pend]
      obtain w h n d' where ap: "append_stream (le_crc env) (ws_active st) (ws_active_number st) (length L) bs d = ((w, h, n), d')"
        by (metis prod_cases3 surj_pair)
      show ?thesis
      proof (cases w)
        case (Inr v)
        then show ?thesis
          using out enc st rd(6) ap unfolding app by (auto simp: wal_position_new_def appended_state_def)
      next
        case (Inl e)
        obtain w2 st2 d2 where rep: "repair_failed_append (le_crc env) (length L) (unat (wr_lsn r')) (?st\<lparr>ws_active := h, ws_active_number := n\<rparr>) d' = (w2, st2, d2)"
          by (metis prod_cases3)
        show ?thesis
          using out enc st rd(6) ap Inl rep unfolding app by (cases w2) auto
      qed
    qed
  qed
qed


end
