(* ===== verification/Wal_Checkpoint.thy ===== *)
theory Wal_Checkpoint
  imports Wal_Append
begin

text \<open>
  Writing the status file beside a log that goes on: taking the snapshot, replacing the file and
  installing the snapshot are three steps with other calls between them.
\<close>

section \<open>Snapshots that can be stored\<close>

definition storable :: "'b log_env \<Rightarrow> clog_snapshot \<Rightarrow> bool" where
  "storable env sn = (\<forall>b. encode_clog (le_crc env) (le_clog_to_vec env) sn = Inr b \<longrightarrow>
     decode_clog (le_crc env) (le_clog_from_slice env) b = Inr sn \<and> length b \<le> MAX_CLOG_FILE_BYTES)"

lemma live_snapshot_positions [simp]:
  "cs_clog_lsn (live_snapshot c l r vf act ab) = l" "cs_authorized_replay_floor (live_snapshot c l r vf act ab) = r"
  by (simp_all add: live_snapshot_def Let_def)

lemma live_snapshot_storable:
  assumes "json_faithful (le_clog_to_vec env) (le_clog_from_slice env)" "map_wf (statuses c)" "r \<le> l"
  shows "storable env (live_snapshot c l r vf act ab)"
  using snapshot_roundtrip [OF assms(1,2) refl assms(3)] by (simp add: storable_def MAX_CLOG_FILE_BYTES_def)

lemma stored_good:
  assumes "storable env sn" "encode_clog (le_crc env) (le_clog_to_vec env) sn = Inr b" "fits P rs fl du sn"
  shows "clog_good env P rs fl du (Some b)"
  using assms by (auto simp: storable_def clog_good_def)

section \<open>Replacing the file\<close>

lemma io_then_assoc: "io_then (io_then m f) g = io_then m (\<lambda>x. io_then (f x) g)"
  by (rule ext) (simp add: io_then_def split: prod.splits sum.splits)

lemma write_clog_outcome:
  assumes ok: "store_ok (dk_store d)" and w: "write_clog_file env sn d = (r, d')"
  obtains (not_encoded) e where "encode_clog (le_crc env) (le_clog_to_vec env) sn = Inl e" "r = Inl e" "d' = d"
  | (failed) e bs where "r = Inl e" "encode_clog (le_crc env) (le_clog_to_vec env) sn = Inr bs" "\<not> nf (dk_faults d)"
      "scratched clog_tmp_path (dk_store d) (dk_store d')"
  | (unsynced) e bs where "r = Inl e" "encode_clog (le_crc env) (le_clog_to_vec env) sn = Inr bs" "\<not> nf (dk_faults d)"
      "replaced clog_path clog_tmp_path bs (dk_store d) (dk_store d')"
  | (written) bs s1 where "r = Inr ()" "encode_clog (le_crc env) (le_clog_to_vec env) sn = Inr bs"
      "nf (dk_faults d) \<Longrightarrow> nf (dk_faults d')"
      "replaced clog_path clog_tmp_path bs (dk_store d) s1" "dk_store d' = flush_dir DataDir s1"
proof (cases "encode_clog (le_crc env) (le_clog_to_vec env) sn")
  case (Inl e)
  then show ?thesis using w by (intro not_encoded [of e]) (auto simp: write_clog_file_def io_then_def io_lift_def)
next
  case (Inr bs)
  let ?put = "io_then (fs_create_truncate (db_io ''failed to open CLOG file '') clog_tmp_path) (\<lambda>h.
     io_then (fs_write_all (db_io ''failed to write CLOG file '') h bs) (\<lambda>h.
     io_then (fs_sync (db_io ''failed to fsync CLOG file '') h) (\<lambda>_.
     fs_rename (db_io ''failed to replace CLOG file '') clog_tmp_path clog_path)))"
  have split: "write_clog_file env sn = io_then ?put (\<lambda>_. sync_dir DataDir)"
    unfolding write_clog_file_def Inr io_then_assoc by (rule ext) (simp add: io_then_def io_lift_def)
  have "wp ?put (\<lambda>_. replaced clog_path clog_tmp_path bs (dk_store d)) (scratched clog_tmp_path (dk_store d)) (dk_store d)"
    by (rule wp_replace [OF ok])
  then show ?thesis
  proof (cases rule: wp_cases)
    case (err e d1)
    then show ?thesis using w Inr unfolding split by (intro failed [of e bs]) (auto simp: io_then_def)
  next
    case (ok u d1)
    have "wp (sync_dir DataDir) (\<lambda>_ s. s = flush_dir DataDir (dk_store d1)) (\<lambda>s. s = dk_store d1) (dk_store d1)"
      by (rule wp_sync_dir_named) simp_all
    then show ?thesis
    proof (cases rule: wp_cases)
      case (ok u2 d2)
      with \<open>?put d = _\<close> \<open>replaced _ _ _ _ _\<close> \<open>nf (dk_faults d) \<Longrightarrow> _\<close> show ?thesis
        using w Inr unfolding split by (intro written [of bs "dk_store d1"]) (auto simp: io_then_def)
    next
      case (err e d2)
      with \<open>?put d = _\<close> \<open>replaced _ _ _ _ _\<close> \<open>nf (dk_faults d) \<Longrightarrow> _\<close> show ?thesis
        using w Inr unfolding split by (intro unsynced [of e bs]) (auto simp: io_then_def)
    qed
  qed
qed

lemma frozen_at_clog:
  assumes f: "frozen_at env P rs L M a c (Some sn) s" and sn: "storable env sn" "encode_clog (le_crc env) (le_clog_to_vec env) sn = Inr bs"
    and s': "replaced clog_path clog_tmp_path bs s s'"
  shows "frozen_at env P rs L M a c (Some sn) s'"
proof -
  have b: "disk_base s" using f by (simp add: frozen_at_def)
  note b' = base_replaced [OF b meta_pair(2) s']
  have "candidate env P rs L a c (Some sn) s' m" if "candidate env P rs L a c (Some sn) s m" for m
  proof -
    have "clog_good env P (log_upto (wm_durable_end m) rs) (wm_replay_floor m) (wm_durable_end m) (Some bs)"
      using that sn by (intro stored_good) (auto simp: candidate_def)
    then show ?thesis
      using that own_replaced(1) [OF _ meta_pair(2) base_ok(1) [OF b] s'] loose_same [OF _ b'(2)] unfolding candidate_def by blast
  qed
  moreover have "meta_holds (le_crc env) M s'"
    using f other_replaced [OF b meta_pair(2,1) _ _ s'] by (simp add: frozen_at_def meta_holds_def)
  ultimately show ?thesis using f b' unfolding frozen_at_def by blast
qed

lemma frozen_at_none: "frozen_at env P rs L M a c pend s \<Longrightarrow> frozen_at env P rs L M a c None s"
  unfolding frozen_at_def candidate_def by blast

lemma write_clog_frozen:
  assumes f: "frozen env P rs a c (Some sn) (dk_store d)" and sn: "storable env sn" and w: "write_clog_file env sn d = (r, d')"
  shows "frozen env P rs a c (Some sn) (dk_store d')"
proof -
  obtain L M where m: "frozen_at env P rs L M a c (Some sn) (dk_store d)" using f unfolding frozen_def by blast
  then have "store_ok (dk_store d)" using base_ok(1) by (simp add: frozen_at_def)
  from this w have "frozen_at env P rs L M a c (Some sn) (dk_store d')"
  proof (cases rule: write_clog_outcome)
    case (written bs s1)
    then show ?thesis using frozen_at_flush [OF frozen_at_clog [OF m sn written(2,4)]] by simp
  qed (use m frozen_at_scratched [OF m meta_pair(2)] frozen_at_clog [OF m sn] in auto)
  then show ?thesis unfolding frozen_def by blast
qed

section \<open>Beside a running manager\<close>

lemma run_files:
  assumes r: "run_ok env P rs L st s" and s': "disk_base s'" "segs_same s s'" "settled s' meta_path" "settled s' meta_tmp_path"
    and meta: "\<And>G. replaceable meta_path meta_tmp_path G s \<Longrightarrow> replaceable meta_path meta_tmp_path G s'"
    and clog: "\<And>b. b = ws_replay_floor st \<or> ws_recycle_boundary st = Some b \<Longrightarrow>
      replaceable clog_path clog_tmp_path (clog_good env P rs b (ws_flushed_lsn st)) s \<Longrightarrow>
      replaceable clog_path clog_tmp_path (clog_good env P rs b (ws_flushed_lsn st)) s'"
  shows "run_ok env P rs L st s'"
proof -
  note d = run_okD [OF r]
  have same: "last_seg (run_ctx env st s') = last_seg (run_ctx env st s)" by (rule at_ctx_indep)
  have "beside env P rs (ws_replay_floor st) (ws_flushed_lsn st) s'"
    using d(9) s' meta clog unfolding beside_def meta_holds_def by blast
  moreover have "active_ok (run_ctx env st s') L st s'"
    using d(10,11) segs_same_lookup [OF s'(2)] in_range_seg(2) [OF _ order_refl, of "run_ctx env st s" L] same
    by (simp add: active_ok_def live_def)
  moreover have "unflushed_ok (run_ctx env st s') L st s'"
    using d(12) live_same [OF _ s'(2)] by (auto simp: unflushed_ok_def split: option.splits)
  moreover have "recycle_ok env P rs st s'" using d(13) clog unfolding recycle_ok_def by blast
  ultimately show ?thesis using r live_same [OF d(10) s'(2)] by (simp add: run_ok_def)
qed

lemma meta_not_clog: "meta_path \<noteq> clog_tmp_path" "meta_tmp_path \<noteq> clog_tmp_path" "meta_tmp_path \<noteq> clog_path"
  by (simp_all add: meta_path_def meta_tmp_path_def clog_tmp_path_def clog_path_def)

lemma run_clog_scratched:
  assumes r: "run_ok env P rs L st s" and s': "scratched clog_tmp_path s s'"
  shows "run_ok env P rs L st s'"
proof -
  have b: "disk_base s" "settled s meta_path" "settled s meta_tmp_path" using run_okD(9) [OF r] by (simp_all add: beside_def)
  show ?thesis
    using base_scratched [OF b(1) meta_pair(2) s'] b(2,3) scratched_other(2) [OF s']
      other_scratched [OF b(1) meta_pair(2,1) _ _ s'] replaceable_scratched [OF _ base_ok(1) [OF b(1)] file_pair_facts(1) [OF meta_pair(2)] s']
    by (intro run_files [OF r]) (simp_all add: meta_not_clog)
qed

lemma run_clog_replaced:
  assumes r: "run_ok env P rs L st s" and s': "replaced clog_path clog_tmp_path bs s s'"
    and sn: "storable env sn" "encode_clog (le_crc env) (le_clog_to_vec env) sn = Inr bs" "fits P rs (ws_replay_floor st) (ws_flushed_lsn st) sn"
    and b: "\<And>b. ws_recycle_boundary st = Some b \<Longrightarrow> b \<le> unat (cs_authorized_replay_floor sn)"
  shows "run_ok env P rs L st s'" "map_option (bytes_of s') (lookup s' clog_path) = Some bs" "replaceable clog_path clog_tmp_path (\<lambda>_. True) s'"
proof -
  have base: "disk_base s" "settled s meta_path" "settled s meta_tmp_path" and c: "replaceable clog_path clog_tmp_path (\<lambda>_. True) s"
    using run_okD(9) [OF r] by (auto simp: beside_def elim: replaceable_mono)
  note ok = base_ok(1) [OF base(1)]
  note own = own_replaced [OF _ meta_pair(2) ok s']
  show "map_option (bytes_of s') (lookup s' clog_path) = Some bs" "replaceable clog_path clog_tmp_path (\<lambda>_. True) s'" using own [OF c] by auto
  obtain s1 i where s1: "scratched clog_tmp_path s s1" "s' = change_dir [(clog_tmp_path, None), (clog_path, Some i)] s1"
    using s' by (rule replacedE)
  have meta: "settled s' meta_path" "settled s' meta_tmp_path"
    using base(2,3) scratched_other(2) [OF s1(1), of meta_path] scratched_other(2) [OF s1(1), of meta_tmp_path]
    by (simp_all add: s1(2) store_simps meta_not_clog)
  have "clog_good env P rs fl (ws_flushed_lsn st) (Some bs)" if "fl = ws_replay_floor st \<or> ws_recycle_boundary st = Some fl" for fl
    using that sn(3) b by (intro stored_good [OF sn(1,2)]) (auto simp: fits_def dest!: b)
  then show "run_ok env P rs L st s'"
    using base_replaced [OF base(1) meta_pair(2) s'] other_replaced [OF base(1) meta_pair(2,1) _ _ s'] own(1) meta
    by (intro run_files [OF r]) simp_all
qed

lemma run_flush_dir:
  assumes r: "run_ok env P rs L st s"
  shows "run_ok env P rs L st (flush_dir dn s)"
proof -
  have b: "disk_base s" "settled s meta_path" "settled s meta_tmp_path" using run_okD(9) [OF r] by (simp_all add: beside_def)
  show ?thesis
    using base_flush [OF b(1)] pair_flush [OF b(1) meta_pair(1)] pair_flush [OF b(1) meta_pair(2)] b base_ok(1) [OF b(1)]
    by (intro run_files [OF r]) (simp_all add: store_simps)
qed

text \<open>The file is written: what a crash can leave is exactly the new snapshot.\<close>

lemma write_clog_run:
  assumes r: "run_ok env P rs L st (dk_store d)" and w: "write_clog_file env sn d = (res, d')"
    and sn: "storable env sn" "fits P rs (ws_replay_floor st) (ws_flushed_lsn st) sn"
    and b: "\<And>b. ws_recycle_boundary st = Some b \<Longrightarrow> b \<le> unat (cs_authorized_replay_floor sn)"
  shows "run_ok env P rs L st (dk_store d')"
    "res = Inr () \<Longrightarrow> replaceable clog_path clog_tmp_path (clog_good env P rs (unat (cs_authorized_replay_floor sn)) (ws_flushed_lsn st)) (dk_store d')"
    "nf (dk_faults d) \<Longrightarrow> encode_clog (le_crc env) (le_clog_to_vec env) sn = Inr bs \<Longrightarrow> res = Inr () \<and> nf (dk_faults d')"
proof -
  have ok: "store_ok (dk_store d)" using run_okD(9) [OF r] beside_ok by blast
  note rep = run_clog_replaced [OF r _ sn(1) _ sn(2) b]
  show "run_ok env P rs L st (dk_store d')"
    using ok w
  proof (cases rule: write_clog_outcome)
    case (written bs s1)
    then show ?thesis using run_flush_dir [OF rep(1) [OF written(4,2)]] by simp
  qed (use r run_clog_scratched [OF r] rep(1) in auto)
  show "nf (dk_faults d) \<Longrightarrow> encode_clog (le_crc env) (le_clog_to_vec env) sn = Inr bs \<Longrightarrow> res = Inr () \<and> nf (dk_faults d')"
    using ok w by (cases rule: write_clog_outcome) auto
  assume res: "res = Inr ()"
  show "replaceable clog_path clog_tmp_path (clog_good env P rs (unat (cs_authorized_replay_floor sn)) (ws_flushed_lsn st)) (dk_store d')"
    using ok w
  proof (cases rule: write_clog_outcome)
    case (written bs s1)
    note r1 = rep [OF written(4,2)]
    have "store_ok s1" using run_okD(9) [OF r1(1)] beside_ok by blast
    then have "replaceable clog_path clog_tmp_path (\<lambda>b. b = map_option (bytes_of s1) (lookup s1 clog_path)) (flush_dir DataDir s1)"
      by (intro replaceable_flush [OF r1(3)]) (simp_all add: clog_path_def clog_tmp_path_def)
    moreover have "map_option (bytes_of s1) (lookup s1 clog_path) = Some bs" by (rule r1(2))
    ultimately have "replaceable clog_path clog_tmp_path (\<lambda>b. b = Some bs) (dk_store d')" unfolding written(5) by (simp only:)
    moreover have "clog_good env P rs (unat (cs_authorized_replay_floor sn)) (ws_flushed_lsn st) (Some bs)"
      using sn(2) by (intro stored_good [OF sn(1) written(2)]) (auto simp: fits_def)
    ultimately show ?thesis by (auto elim: replaceable_mono)
  qed (use res in auto)
qed

section \<open>Taking and installing a snapshot\<close>

lemma captured_fits:
  assumes r: "run_ok env P rs L st s" and p: "ws_replay_floor st \<le> p" "p \<le> ws_flushed_lsn st" "boundary rs p"
    and P: "P (log_upto (ws_flushed_lsn st) rs) sn"
    and sn: "sn = live_snapshot (ws_clog st) (of_nat (ws_flushed_lsn st)) (of_nat p) vf act ab"
  shows "fits P rs (ws_replay_floor st) (ws_flushed_lsn st) sn" "unat (cs_authorized_replay_floor sn) = p"
    "json_faithful (le_clog_to_vec env) (le_clog_from_slice env) \<Longrightarrow> storable env sn"
proof -
  note d = run_okD [OF r]
  have u: "unat (of_nat p :: u64) = p" "unat (of_nat (ws_flushed_lsn st) :: u64) = ws_flushed_lsn st"
    using d(5,7) p(2) by (auto intro!: unat_of_nat_u64)
  show "unat (cs_authorized_replay_floor sn) = p" using u by (simp add: sn)
  show "fits P rs (ws_replay_floor st) (ws_flushed_lsn st) sn" using d(2,4) p P u by (simp add: sn fits_def)
  show "storable env sn" if "json_faithful (le_clog_to_vec env) (le_clog_from_slice env)"
    unfolding sn by (rule live_snapshot_storable [OF that d(8)]) (use p u in \<open>simp add: word_le_nat_alt\<close>)
qed

lemma map_wf_prune: "map_wf (statuses c) \<Longrightarrow> map_wf (statuses (prune_to f c))"
  by (simp add: prune_to_def set_committed_floor_def Let_def)

lemma run_installed:
  assumes r: "run_ok env P rs L st s" and b: "boundary rs b"
    "replaceable clog_path clog_tmp_path (clog_good env P rs b (ws_flushed_lsn st)) s" and c: "map_wf (statuses c)"
  shows "run_ok env P rs L (st\<lparr>ws_clog := c, ws_recycle_boundary := Some b\<rparr>) s"
  using assms by (simp add: run_ok_def positions_ok_def active_ok_def unflushed_ok_def recycle_ok_def split: option.splits)


end
