(* ===== verification/Wal_Recycle.thy ===== *)
theory Wal_Recycle
  imports Wal_Checkpoint
begin

text \<open>
  Recycling: the replay floor moves up to the boundary the last status snapshot authorised, then the
  segments below it are removed.
\<close>

section \<open>Removing segments below the floor\<close>

lemma live_remove:
  assumes "live x u L s" "n < u64_limit" "\<not> (first_seg x \<le> n \<and> n \<le> last_seg x (length L))"
  shows "live x u L (change_dir [(segment_path n, None)] s)"
  using assms in_range_seg [of x L] unfolding live_def by (auto simp: ground_remove seg_remove store_simps)

lemma live_flush: "live x u L s \<Longrightarrow> live x u L (flush_dir WalDir s)"
  unfolding live_def by (intro conjI allI impI) (auto simp: ground_flush seg_flush ground_ok store_simps intro!: seg_lookup)

lemma live_first: "live x u L s \<Longrightarrow> first_seg x \<le> last_seg x (length L)"
  by (auto simp: live_def in_range_def intro!: last_seg_bounds)

definition manned :: "stream_ctx \<Rightarrow> nat \<Rightarrow> u8 list \<Rightarrow> inode \<Rightarrow> store \<Rightarrow> bool" where
  "manned x u L i s = (live x u L s \<and> lookup s (segment_path (last_seg x (length L))) = Some i)"

lemma manned_remove:
  assumes m: "manned x u L i s" and n: "n < u64_limit" "n < first_seg x"
  shows "manned x u L i (change_dir [(segment_path n, None)] s)"
proof -
  have l: "live x u L s" using m by (simp add: manned_def)
  have "in_range x L" using l by (simp add: live_def)
  then have k: "last_seg x (length L) < u64_limit" using in_range_seg(2) [OF _ order_refl] by blast
  have "n \<noteq> last_seg x (length L)" using n(2) live_first [OF l] by simp
  then show ?thesis
    using m n live_remove [OF l n(1)] segment_path_inj [OF n(1) k] by (auto simp: manned_def store_simps)
qed

lemma manned_flush: "manned x u L i s \<Longrightarrow> manned x u L i (flush_dir WalDir s)"
  unfolding manned_def using live_flush [of x u L s] ground_ok [of x s] by (auto simp: live_def store_simps)

lemma wp_recycle_range:
  assumes "manned x u L i s" "k = first_seg x" "k < u64_limit"
  shows "wp (recycle_range n k) (\<lambda>_. manned x u L i) (manned x u L i) s"
  using assms
proof (induction "k - n" arbitrary: n s rule: less_induct)
  case less
  show ?case
  proof (cases "n < k")
    case True
    have m: "manned x u L i (change_dir [(segment_path n, None)] s)" using less.prems True by (intro manned_remove) auto
    have "wp (if n + 1 \<ge> u64_limit then io_err (wal_error ''WAL segment number overflow'') else recycle_range (n + 1) k)
        (\<lambda>_. manned x u L i) (manned x u L i) s'" if "manned x u L i s'" for s'
      using True less.prems less.hyps [OF _ that, of "n + 1"] by (simp add: not_le)
    then have "wp (io_then (remove_segment n) (\<lambda>_. if n + 1 \<ge> u64_limit then io_err (wal_error ''WAL segment number overflow'')
        else recycle_range (n + 1) k)) (\<lambda>_. manned x u L i) (manned x u L i) s"
      using m less.prems(1) by (intro wp_then wp_remove_segment) auto
    then show ?thesis using True by (subst recycle_range.simps) simp
  next
    case False
    then show ?thesis using less.prems(1) by (subst recycle_range.simps) (simp add: wp_ok)
  qed
qed

lemma wp_recycle_segments:
  assumes "manned x u L i s" "cx_floor x = lsn"
  shows "wp (recycle_segments old lsn) (\<lambda>_. manned x u L i) (manned x u L i) s"
proof -
  have l: "live x u L s" using assms(1) by (simp add: manned_def)
  then have "first_seg x \<le> last_seg x (length L)" "in_range x L" using live_first by (auto simp: live_def)
  then have k: "first_seg x < u64_limit" using in_range_seg(2) le_less_trans by blast
  have "wp (recycle_range (old div seg_bytes) (first_seg x)) (\<lambda>_. manned x u L i) (manned x u L i) s"
    by (rule wp_recycle_range [OF assms(1) refl k])
  then have r: "wp (recycle_range (old div seg_bytes) (lsn div seg_bytes)) (\<lambda>_. manned x u L i) (manned x u L i) s"
    using assms(2) by (simp add: first_seg_def)
  show ?thesis unfolding recycle_segments_def
    by (rule wp_then, rule wp_conseq [OF r]) (auto intro!: wp_sync_dir_named manned_flush)
qed

lemma wp_recycle_orphaned_live:
  assumes m: "manned x u L i s" and t: "tidy s" and fl: "cx_floor x = fl"
  shows "wp (recycle_orphaned_segments fl) (\<lambda>_. manned x u L i) (manned x u L i) s"
  unfolding recycle_orphaned_segments_def Let_def
proof (rule wp_remove_unwanted [where J = "manned x u L i", OF _ _ _ m t])
  show "manned x u L i (change_dir [(segment_path n, None)] s)"
    if "manned x u L i s" "n < u64_limit" "n < fl div seg_bytes" for s n
    using that fl by (intro manned_remove) (auto simp: first_seg_def)
  show "store_ok s" if "manned x u L i s" for s using that ground_ok by (auto simp: manned_def live_def)
qed (auto intro: manned_flush)

section \<open>Moving the floor\<close>

lemma exact_floor:
  assumes "exact_file (at_ctx crc fl du s0) u L n f" "fl \<le> du"
  shows "exact_file (at_ctx crc fl' du s0) u L n f"
proof -
  have "length (chunk n (take du L)) = 0" if "\<not> n \<le> last_seg (at_ctx crc fl du s0) du"
  proof -
    have "last_seg (at_ctx crc fl du s0) du + 1 \<le> n" using that by simp
    then have "(last_seg (at_ctx crc fl du s0) du + 1) * seg_bytes \<le> n * seg_bytes" by (rule mult_le_mono1)
    moreover have "du \<le> (last_seg (at_ctx crc fl du s0) du + 1) * seg_bytes" using assms(2) by (intro last_seg_bounds) simp
    ultimately show ?thesis by (simp add: length_chunk)
  qed
  then show ?thesis using assms(1) unfolding exact_file_def loose_file_def at_ctx_simps
    by (cases "n \<le> last_seg (at_ctx crc fl du s0) du") auto
qed

lemma floor_moved:
  assumes g: "ground (at_ctx crc fl du s0) s" and r: "fl \<le> du" "du \<le> length L" "length L < u64_limit"
    and fl': "fl \<le> fl'" "fl' \<le> du"
    and segs: "\<And>n. first_seg (at_ctx crc fl du s0) \<le> n \<Longrightarrow> n \<le> last_seg (at_ctx crc fl' du s0) (length L) \<Longrightarrow> seg s n (exact_file (at_ctx crc fl du s0) u L n)"
    and none: "\<And>n. last_seg (at_ctx crc fl' du s0) (length L) < n \<Longrightarrow> n < u64_limit \<Longrightarrow> lookup s (segment_path n) = None"
  shows "live (at_ctx crc fl' du s0) u L s"
proof -
  have "first_seg (at_ctx crc fl du s0) \<le> first_seg (at_ctx crc fl' du s0)" using fl' by (simp add: first_seg_def div_le_mono)
  then have "seg s n (exact_file (at_ctx crc fl' du s0) u L n)"
    if "first_seg (at_ctx crc fl' du s0) \<le> n" "n \<le> last_seg (at_ctx crc fl' du s0) (length L)" for n
    using segs [OF _ that(2)] that(1) exact_floor [OF _ r(1)] by (blast intro: seg_mono order_trans)
  moreover have "ground (at_ctx crc fl' du s0) s" using g by (simp add: ground_def)
  ultimately show ?thesis using none r fl' by (simp add: live_def in_range_def)
qed

lemma live_floor:
  assumes l: "live (at_ctx crc fl du s0) u L s" and fl': "fl \<le> fl'" "fl' \<le> du"
    and same: "last_seg (at_ctx crc fl' du s0) (length L) = last_seg (at_ctx crc fl du s0) (length L)"
  shows "live (at_ctx crc fl' du s0) u L s"
proof (rule floor_moved [where fl = fl])
  show "ground (at_ctx crc fl du s0) s" "fl \<le> du" "du \<le> length L" "length L < u64_limit" using l by (simp_all add: live_def in_range_def)
qed (use l fl' same in \<open>auto simp: live_def\<close>)

lemma ready_floor:
  assumes l: "ready (at_ctx crc fl (length L) s0) u L s"
  shows "live (at_ctx crc (length L) (length L) s0) u L s"
proof -
  have "last_seg (at_ctx crc (length L) (length L) s0) (length L) = length L div seg_bytes" by (simp add: last_seg_def)
  with l show ?thesis by (intro floor_moved [where fl = fl]) (auto simp: ready_def in_range_def)
qed

section \<open>The next segment\<close>

text \<open>
  Before the floor reaches the end of a full last segment, the next segment is created. The invariant
  survives a failure of that when no file is left behind.
\<close>

definition next_segment :: "nat \<Rightarrow> wal_state \<Rightarrow> disk \<Rightarrow> bool" where
  "next_segment lsn st d =
     (lsn = ws_written_lsn st \<and> lsn mod SEGMENT_PAYLOAD_BYTES = 0 \<and> \<not> fs_exists (segment_path (lsn div SEGMENT_PAYLOAD_BYTES)) d)"

definition segment_left_behind :: "'b log_env \<Rightarrow> nat \<Rightarrow> wal_state \<Rightarrow> disk \<Rightarrow> bool" where
  "segment_left_behind env lsn st d =
     (next_segment lsn st d \<and> (case create_segment (le_crc env) (lsn div SEGMENT_PAYLOAD_BYTES) d of
        (Inl e, d') \<Rightarrow> fs_exists (segment_path (lsn div SEGMENT_PAYLOAD_BYTES)) d' | (Inr h, d') \<Rightarrow> False))"

lemma live_unmade:
  assumes l: "live x u L s" and n: "n < u64_limit" "last_seg x (length L) < n" and f: "file_ok f"
  shows "live x u L (change_dir [(segment_path n, None)] (set_file (dk_next s) f (fresh_entry (segment_path n) s)))"
proof -
  let ?s = "fresh_entry (segment_path n) s"
  have g: "ground x s" and none: "lookup s (segment_path n) = None" using l n by (auto simp: live_def)
  have gf: "ground x ?s" using g n(1) by (rule ground_fresh)
  have i: "lookup ?s (segment_path n) = Some (dk_next s)" by (simp add: store_simps)
  have "dk_next s \<notin> cx_keep x" using ground_kept [OF g] by blast
  then have "ground x (change_dir [(segment_path n, None)] (set_file (dk_next s) f ?s))"
    using gf f n(1) by (simp add: ground_set_file ground_remove)
  moreover have "seg (change_dir [(segment_path n, None)] (set_file (dk_next s) f ?s)) m (exact_file x u L m)"
    if "first_seg x \<le> m" "m \<le> last_seg x (length L)" for m
    using that l n in_range_seg(2) [of x L m] seg_set_file [OF gf i, of m f] seg_fresh [OF g, of m n]
    by (auto simp: live_def seg_remove)
  moreover have "lookup (change_dir [(segment_path n, None)] (set_file (dk_next s) f ?s)) (segment_path m) = None"
    if "last_seg x (length L) < m" "m < u64_limit" for m
    using that l n segment_path_inj [OF that(2) n(1)] by (auto simp: live_def store_simps)
  ultimately show ?thesis using l by (simp add: live_def)
qed

lemma wp_next_segment:
  assumes m: "manned x u L i s" and new: "last_seg x (length L) + 1 = length L div seg_bytes" "length L mod seg_bytes = 0"
  shows "wp (create_segment (cx_crc x) (length L div seg_bytes))
      (\<lambda>h s'. ready x u L s' \<and> lookup s' (segment_path (length L div seg_bytes)) = Some (h_inode h))
      (\<lambda>s'. lookup s' (segment_path (length L div seg_bytes)) = None \<longrightarrow> manned x u L i s') s"
proof -
  let ?n = "length L div seg_bytes"
  have l: "live x u L s" using m by (simp add: manned_def)
  have range: "in_range x L" using l by (simp add: live_def)
  note n = in_range_div [OF range]
  have miss: "lookup s (segment_path ?n) = None" using l n new by (auto simp: live_def)
  have ok: "store_ok s" using l by (auto simp: live_def intro: ground_ok)
  have "segment_path (last_seg x (length L)) \<noteq> segment_path ?n"
    using segment_path_inj [OF in_range_seg(2) [OF range order_refl] n(2)] new by simp
  then have un: "manned x u L i (change_dir [(segment_path ?n, None)] (set_file (dk_next s) f (fresh_entry (segment_path ?n) s)))" if "file_ok f" for f
    using m live_unmade [OF l n(2) _ that] new by (simp add: manned_def store_simps)
  have "store_ok (set_file (dk_next s) (sync_file (write_file 0 (seg_header (cx_crc x) ?n) empty_file)) (fresh_entry (segment_path ?n) s))"
    using ok by (intro store_ok_intros) (simp_all add: empty_file_def file_ok_def)
  then have i: "lookup (flush_dir WalDir (set_file (dk_next s) (sync_file (write_file 0 (seg_header (cx_crc x) ?n) empty_file))
      (fresh_entry (segment_path ?n) s))) (segment_path ?n) = Some (dk_next s)"
    by (simp add: store_simps)
  show ?thesis
    by (rule wp_create_segment [OF miss n(1)])
      (use m new un manned_flush ready_create [OF l new] i in \<open>auto simp: store_simps\<close>)
qed


section \<open>The new floor\<close>

lemma fits_floor: "fits P rs fl du sn \<Longrightarrow> fl' \<le> unat (cs_authorized_replay_floor sn) \<Longrightarrow> fits P rs fl' du sn"
  by (auto simp: fits_def)

lemma run_recycled:
  assumes r: "run_ok env P rs L st s" and lsn: "ws_recycle_boundary st = Some lsn" "ws_replay_floor st \<le> lsn" "lsn \<le> ws_flushed_lsn st"
    and b: "beside env P rs lsn (ws_flushed_lsn st) s2" and k: "keeps_clog s s2"
    and m: "manned (at_ctx (le_crc env) lsn (ws_flushed_lsn st) s2) (ws_flushed_lsn st div seg_bytes) L (h_inode h) s3"
  shows "run_ok env P rs L (st\<lparr>ws_active := h, ws_active_number := last_seg (at_ctx (le_crc env) lsn (ws_flushed_lsn st) s2) (length L),
    ws_replay_floor := lsn\<rparr>) s3" "keeps_clog s s3"
proof -
  let ?x = "\<lambda>s. at_ctx (le_crc env) lsn (ws_flushed_lsn st) s"
  let ?st = "st\<lparr>ws_active := h, ws_active_number := last_seg (?x s2) (length L), ws_replay_floor := lsn\<rparr>"
  note d = run_okD [OF r] and u = append_live(3) [OF r]
  have l: "live (?x s2) (ws_flushed_lsn st div seg_bytes) L s3" using m by (simp add: manned_def)
  then have g: "ground (?x s2) s3" by (simp add: live_def)
  show k3: "keeps_clog s s3" using keeps_clog_trans [OF k keeps_clog_ground [OF g]] .
  have l3: "live (?x s3) (ws_flushed_lsn st div seg_bytes) L s3" using l by (rule live_rebase)
  have same: "last_seg (?x s3) = last_seg (?x s2)" by (rule at_ctx_indep)
  have "boundary rs lsn" using d(13) lsn by (simp add: recycle_ok_def)
  then have "positions_ok env rs L ?st" using d lsn by (simp add: positions_ok_def whole_log_def)
  moreover have "recycle_ok env P rs ?st s3" using recycle_ok_keeps [OF d(13) k3] by (simp add: recycle_ok_def)
  moreover have "unflushed_ok (?x s3) L ?st s3"
    using d(12) l3 by (auto simp: unflushed_ok_def split: option.splits)
  moreover have "active_ok (?x s3) L ?st s3" using m by (simp add: active_ok_def manned_def same)
  ultimately show "run_ok env P rs L ?st s3"
    using d(8) beside_ground [OF g b] live_mono [OF l3, of 0] by (simp add: run_ok_def)
qed

lemma recycle_candidate:
  assumes r: "run_ok env P rs L st s" and lsn: "ws_recycle_boundary st = Some lsn" "lsn \<le> ws_flushed_lsn st"
    and l: "live (at_ctx (le_crc env) lsn (ws_flushed_lsn st) s1) u L s1" and k: "keeps_clog s s1" and c: "lsn \<le> c"
    and pend: "\<And>sn. pend = Some sn \<Longrightarrow> fits P rs (ws_replay_floor st) (ws_flushed_lsn st) sn \<and> lsn \<le> unat (cs_authorized_replay_floor sn)"
  shows "candidate env P rs L (ws_flushed_lsn st) c pend s1 \<lparr>wm_replay_floor = lsn, wm_durable_end = ws_flushed_lsn st\<rparr>"
proof -
  note d = run_okD [OF r]
  have b: "boundary rs lsn" "replaceable clog_path clog_tmp_path (clog_good env P rs lsn (ws_flushed_lsn st)) s1"
    using recycle_ok_keeps [OF d(13) k] lsn by (simp_all add: recycle_ok_def)
  have "replaceable clog_path clog_tmp_path (clog_good env P (log_upto (ws_flushed_lsn st) rs) lsn (ws_flushed_lsn st)) s1"
    using b(2) by (rule replaceable_mono) (rule clog_good_upto [OF d(1,2) _ order_refl])
  moreover have "fits P (log_upto (ws_flushed_lsn st) rs) lsn (ws_flushed_lsn st) sn" if "pend = Some sn" for sn
    using pend [OF that] fits_floor [of P rs "ws_replay_floor st"] d(1,2)
    by (intro fits_upto [where fl = lsn and du = "ws_flushed_lsn st" and rs = rs]) (auto simp: fits_def)
  ultimately show ?thesis using d lsn b(1) c live_kept [OF live_mono [OF l le0]] by (simp add: candidate_def)
qed

lemma recycle_tail:
  assumes r: "run_ok env P rs L st s" and lsn: "ws_recycle_boundary st = Some lsn" "ws_replay_floor st \<le> lsn" "lsn \<le> ws_flushed_lsn st"
    and A: "loose (run_ctx env st s) 0 (take (ws_flushed_lsn st) L) u64_limit (dk_store d1)"
    and B: "manned (at_ctx (le_crc env) lsn (ws_flushed_lsn st) s) (ws_flushed_lsn st div seg_bytes) L (h_inode h) (dk_store d1)"
    and c: "lsn \<le> c"
    and pend: "\<And>sn. pend = Some sn \<Longrightarrow> fits P rs (ws_replay_floor st) (ws_flushed_lsn st) sn \<and> lsn \<le> unat (cs_authorized_replay_floor sn)"
  shows "case write_meta_with_outcome (le_crc env) \<lparr>wm_replay_floor = lsn, wm_durable_end = ws_flushed_lsn st\<rparr> d1 of
      (Inl e, d2) \<Rightarrow> \<not> nf (dk_faults d1) \<and> frozen env P rs (ws_flushed_lsn st) c pend (dk_store d2)
    | (Inr _, d2) \<Rightarrow> (case recycle_segments (ws_replay_floor st) lsn d2 of (res, d3) \<Rightarrow>
        run_ok env P rs L (st\<lparr>ws_active := h, ws_active_number := last_seg (at_ctx (le_crc env) lsn (ws_flushed_lsn st) s) (length L),
          ws_replay_floor := lsn\<rparr>) (dk_store d3) \<and> keeps_clog s (dk_store d3) \<and> (nf (dk_faults d1) \<longrightarrow> res = Inr () \<and> nf (dk_faults d3)))"
proof -
  let ?x = "\<lambda>s. at_ctx (le_crc env) lsn (ws_flushed_lsn st) s" and ?u = "ws_flushed_lsn st div seg_bytes"
  let ?m = "\<lparr>wm_replay_floor = lsn, wm_durable_end = ws_flushed_lsn st\<rparr>"
  note d = run_okD [OF r] and g = loose_ground [OF A]
  have b1: "beside env P rs (ws_replay_floor st) (ws_flushed_lsn st) (dk_store d1)" by (rule beside_ground [OF g d(9)])
  have k1: "keeps_clog s (dk_store d1)" by (rule keeps_clog_ground [OF g])
  have l1: "live (?x (dk_store d1)) ?u L (dk_store d1)" using B unfolding manned_def by (blast intro: live_rebase)
  have floor_c: "ws_replay_floor st \<le> c" using lsn c by simp
  have frz: "frozen_at env P rs L (\<lambda>m. m = \<lparr>wm_replay_floor = ws_replay_floor st, wm_durable_end = ws_flushed_lsn st\<rparr>) (ws_flushed_lsn st) c pend (dk_store d1)"
    using pend by (intro frozen_at_segments [OF run_frozen [OF r floor_c] A]) auto
  have cand: "candidate env P rs L (ws_flushed_lsn st) c pend (dk_store d1) ?m"
    by (rule recycle_candidate [OF r lsn(1,3) l1 k1 c]) (use pend in auto)
  obtain w d2 where w: "write_meta_with_outcome (le_crc env) ?m d1 = (w, d2)" by (cases "write_meta_with_outcome (le_crc env) ?m d1")
  have "store_ok (dk_store d1)" using b1 beside_ok by blast
  note out = write_meta_outcome [OF this, of "le_crc env" ?m, unfolded w]
  show ?thesis
  proof (cases w)
    case (Inl e)
    then have "frozen env P rs (ws_flushed_lsn st) c pend (dk_store d2)"
      using out frozen_at_meta [OF frz _ cand] frozen_at_scratched [OF frz meta_pair(1)]
      unfolding frozen_def by (auto split: if_splits)
    then show ?thesis using out Inl unfolding w by simp
  next
    case (Inr v)
    then obtain s2 where s2: "replaced meta_path meta_tmp_path (encode_meta (le_crc env) ?m) (dk_store d1) s2" "dk_store d2 = flush_dir WalDir s2"
      "nf (dk_faults d1) \<longrightarrow> nf (dk_faults d2)" using out by auto
    have "replaceable clog_path clog_tmp_path (clog_good env P rs lsn (ws_flushed_lsn st)) (dk_store d1)"
      using recycle_ok_keeps [OF d(13) k1] lsn(1) by (simp add: recycle_ok_def)
    note mw = meta_written [OF b1 s2(1) this, folded s2(2)]
    have k2: "keeps_clog s (dk_store d2)" using k1 mw(3) by (simp add: keeps_clog_def)
    have same: "last_seg (?x (dk_store d2)) = last_seg (?x s)" by (rule at_ctx_indep)
    have "in_range (?x s) L" using B by (simp add: manned_def live_def)
    then have k: "last_seg (?x s) (length L) < u64_limit" using in_range_seg(2) [OF _ order_refl] by blast
    have "manned (?x (dk_store d2)) ?u L (h_inode h) (dk_store d2)"
      using B live_same [OF l1 mw(2)] segs_same_lookup [OF mw(2) k] by (simp add: manned_def same)
    then have "wp (recycle_segments (ws_replay_floor st) lsn) (\<lambda>_. manned (?x (dk_store d2)) ?u L (h_inode h))
        (manned (?x (dk_store d2)) ?u L (h_inode h)) (dk_store d2)"
      by (rule wp_recycle_segments) simp
    then show ?thesis
      unfolding w Inr
      by (cases rule: wp_cases) (use s2(3) run_recycled [OF r lsn mw(1) k2, unfolded same] in auto)
  qed
qed


section \<open>The call\<close>

lemma run_manned:
  assumes r: "run_ok env P rs L st s"
  shows "manned (run_ctx env st s) (ws_flushed_lsn st div seg_bytes) L (h_inode (ws_active st)) s"
    "ws_active_number st = last_seg (run_ctx env st s) (length L)"
  using run_okD(11) [OF r] append_live(1,3) [OF r] by (simp_all add: manned_def active_ok_def)

lemma run_remanned:
  assumes r: "run_ok env P rs L st s" and m: "manned (run_ctx env st s) (ws_flushed_lsn st div seg_bytes) L (h_inode (ws_active st)) s'"
  shows "run_ok env P rs L st s'" "keeps_clog s s'"
proof -
  have l: "live (run_ctx env st s) (ws_flushed_lsn st div seg_bytes) L s'"
    and h: "lookup s' (segment_path (last_seg (run_ctx env st s) (length L))) = Some (h_inode (ws_active st))"
    using m by (simp_all add: manned_def)
  have u: "m \<le> ws_flushed_lsn st div seg_bytes" if "ws_unflushed_first_segment st = Some m" for m
    using run_okD(12) [OF r] that by (simp add: unflushed_ok_def)
  show "run_ok env P rs L st s'" "keeps_clog s s'"
    using run_ok_moved [OF r l u h, folded run_manned(2) [OF r]] by simp_all
qed

definition move_floor :: "'b log_env \<Rightarrow> nat \<Rightarrow> unit wal_op" where
  "move_floor env lsn st d =
     (case write_meta_with_outcome (le_crc env) \<lparr>wm_replay_floor = lsn, wm_durable_end = ws_flushed_lsn st\<rparr> d of
        (Inl failure, d) \<Rightarrow>
          (Inl (mwf_error failure),
           st\<lparr>ws_poisoned := Some (wal_error (''WAL manager is unavailable after replay-floor update failure: ''
                                         @ message (mwf_error failure)))\<rparr>, d)
      | (Inr _, d) \<Rightarrow> (case recycle_segments (ws_replay_floor st) lsn d of (r, d) \<Rightarrow> (r, st\<lparr>ws_replay_floor := lsn\<rparr>, d)))"

lemma recycle_through_eq:
  assumes "ws_poisoned st = None" "ws_replay_floor st < lsn" "lsn \<le> ws_flushed_lsn st" "ws_recycle_boundary st = Some lsn"
  shows "recycle_through env lsn st d =
    (case (if next_segment lsn st d
           then io_then (create_segment (le_crc env) (lsn div seg_bytes)) (\<lambda>active. io_ok (active, lsn div seg_bytes))
           else io_ok (ws_active st, ws_active_number st)) d of
       (Inl e, d) \<Rightarrow> (Inl e, st, d)
     | (Inr (active, n), d) \<Rightarrow> move_floor env lsn (st\<lparr>ws_active := active, ws_active_number := n\<rparr>) d)"
  using assms unfolding recycle_through_def locked_def next_segment_def move_floor_def Let_def by simp

lemma recycle_meta_ok:
  assumes r: "run_ok env P rs L st (dk_store d)" and st: "ws_poisoned st = None"
    and lsn: "ws_recycle_boundary st = Some lsn" "ws_replay_floor st < lsn" "lsn \<le> ws_flushed_lsn st" and c: "lsn \<le> c"
    and A: "loose (run_ctx env st (dk_store d)) 0 (take (ws_flushed_lsn st) L) u64_limit (dk_store d1)"
    and B: "manned (at_ctx (le_crc env) lsn (ws_flushed_lsn st) (dk_store d)) (ws_flushed_lsn st div seg_bytes) L (h_inode h) (dk_store d1)"
      "n = last_seg (at_ctx (le_crc env) lsn (ws_flushed_lsn st) (dk_store d)) (length L)"
    and pend: "\<And>sn. pend = Some sn \<Longrightarrow> fits P rs (ws_replay_floor st) (ws_flushed_lsn st) sn \<and> lsn \<le> unat (cs_authorized_replay_floor sn)"
    and go: "recycle_through env lsn st d = move_floor env lsn (st\<lparr>ws_active := h, ws_active_number := n\<rparr>) d1"
  shows "case recycle_through env lsn st d of (res, st', d') \<Rightarrow>
    if ws_poisoned st' = None
    then run_ok env P rs L st' (dk_store d') \<and> keeps_clog (dk_store d) (dk_store d')
      \<and> (\<exists>h n. st' = st\<lparr>ws_active := h, ws_active_number := n, ws_replay_floor := lsn\<rparr>)
    else frozen env P rs (ws_flushed_lsn st) c pend (dk_store d')"
proof -
  obtain w d2 where w: "write_meta_with_outcome (le_crc env) \<lparr>wm_replay_floor = lsn, wm_durable_end = ws_flushed_lsn st\<rparr> d1 = (w, d2)"
    by (cases "write_meta_with_outcome (le_crc env) \<lparr>wm_replay_floor = lsn, wm_durable_end = ws_flushed_lsn st\<rparr> d1")
  obtain res d3 where rs: "recycle_segments (ws_replay_floor st) lsn d2 = (res, d3)" by (cases "recycle_segments (ws_replay_floor st) lsn d2")
  note out = recycle_tail [OF r lsn(1) less_imp_le [OF lsn(2)] lsn(3) A B(1) c, of pend, folded B(2), OF pend, unfolded w]
  show ?thesis using out st rs unfolding go by (cases w) (auto simp: w move_floor_def)
qed

lemma recycle_through_ok:
  assumes r: "run_ok env P rs L st (dk_store d)" and st: "ws_poisoned st = None"
    and left: "\<not> segment_left_behind env lsn st d" and c: "ws_replay_floor st \<le> c" "lsn \<le> c"
    and pend: "\<And>sn. pend = Some sn \<Longrightarrow> fits P rs (ws_replay_floor st) (ws_flushed_lsn st) sn
      \<and> (\<forall>b. ws_recycle_boundary st = Some b \<longrightarrow> b \<le> unat (cs_authorized_replay_floor sn))"
  shows "case recycle_through env lsn st d of (res, st', d') \<Rightarrow>
    if ws_poisoned st' = None
    then run_ok env P rs L st' (dk_store d') \<and> keeps_clog (dk_store d) (dk_store d')
      \<and> (st' = st \<or> ws_recycle_boundary st = Some lsn \<and> (\<exists>h n. st' = st\<lparr>ws_active := h, ws_active_number := n, ws_replay_floor := lsn\<rparr>))
    else frozen env P rs (ws_flushed_lsn st) c pend (dk_store d')"
proof -
  let ?s = "dk_store d" and ?x = "run_ctx env st (dk_store d)" and ?u = "ws_flushed_lsn st div seg_bytes" and ?n = "lsn div seg_bytes"
  let ?y = "at_ctx (le_crc env) lsn (ws_flushed_lsn st) (dk_store d)"
  note rd = run_okD [OF r] and mn = run_manned [OF r]
  have l: "live ?x ?u L ?s" using mn(1) by (simp add: manned_def)
  consider (range) "lsn < ws_replay_floor st \<or> lsn > ws_flushed_lsn st" | (same) "lsn = ws_replay_floor st"
    | (other) "ws_replay_floor st < lsn" "lsn \<le> ws_flushed_lsn st" "ws_recycle_boundary st \<noteq> Some lsn"
    | (move) "ws_replay_floor st < lsn" "lsn \<le> ws_flushed_lsn st" "ws_recycle_boundary st = Some lsn" by linarith
  then show ?thesis
  proof cases
    case range
    then show ?thesis using r st keeps_clog_refl by (auto simp: recycle_through_def locked_def)
  next
    case same
    have "wp (recycle_orphaned_segments lsn) (\<lambda>_. manned ?x ?u L (h_inode (ws_active st))) (manned ?x ?u L (h_inode (ws_active st))) ?s"
      using same beside_ok [OF rd(9)] by (intro wp_recycle_orphaned_live [OF mn(1)]) auto
    then show ?thesis
      by (cases rule: wp_cases) (use st same rd(4) run_remanned [OF r] in \<open>auto simp: recycle_through_def locked_def\<close>)
  next
    case other
    then show ?thesis using r st keeps_clog_refl by (auto simp: recycle_through_def locked_def)
  next
    case move
    have pend': "fits P rs (ws_replay_floor st) (ws_flushed_lsn st) sn \<and> lsn \<le> unat (cs_authorized_replay_floor sn)" if "pend = Some sn" for sn
      using pend [OF that] move(3) by blast
    have fin: ?thesis
      if "loose ?x 0 (take (ws_flushed_lsn st) L) u64_limit (dk_store d1)" "manned ?y ?u L (h_inode h) (dk_store d1)" "n = last_seg ?y (length L)"
        "recycle_through env lsn st d = move_floor env lsn (st\<lparr>ws_active := h, ws_active_number := n\<rparr>) d1" for h n d1
    proof -
      obtain res st' d' where q: "recycle_through env lsn st d = (res, st', d')" by (metis prod_cases3)
      have "case recycle_through env lsn st d of (res, st', d') \<Rightarrow>
        if ws_poisoned st' = None
        then run_ok env P rs L st' (dk_store d') \<and> keeps_clog (dk_store d) (dk_store d')
          \<and> (\<exists>h n. st' = st\<lparr>ws_active := h, ws_active_number := n, ws_replay_floor := lsn\<rparr>)
        else frozen env P rs (ws_flushed_lsn st) c pend (dk_store d')"
        by (rule recycle_meta_ok [OF r st move(3,1,2) c(2) that(1-3) _ that(4)]) (rule pend')
      then show ?thesis unfolding q prod.case using move(3) by metis
    qed
    show ?thesis
    proof (cases "next_segment lsn st d")
      case True
      then have e: "lsn = length L" "length L mod seg_bytes = 0" "ws_flushed_lsn st = length L" using rd(5,6) move(2) by (auto simp: next_segment_def)
      have "0 < length L" using move(1) e(1) by linarith
      then have "seg_bytes \<le> length L" using e(2) by (auto intro: dvd_imp_le)
      then have "0 < length L div seg_bytes" using payload_pos by (simp add: div_greater_zero_iff)
      then have new: "last_seg ?x (length L) + 1 = length L div seg_bytes" using e move(1) by (simp add: last_seg_def)
      from wp_next_segment [OF mn(1) new e(2)] show ?thesis
      proof (cases rule: wp_cases)
        case (err e1 d1)
        then have "lookup (dk_store d1) (segment_path (length L div seg_bytes)) = None"
          using left True e by (simp add: segment_left_behind_def fs_exists_def)
        then have "manned ?x ?u L (h_inode (ws_active st)) (dk_store d1)" using err(2) by blast
        moreover have "create_segment (le_crc env) ?n d = (Inl e1, d1)" using err(1) e(1) by simp
        then have "recycle_through env lsn st d = (Inl e1, st, d1)"
          using True by (simp add: recycle_through_eq [OF st move] io_then_def)
        ultimately show ?thesis using st run_remanned [OF r] by simp
      next
        case (ok h d1)
        have made: "create_segment (le_crc env) ?n d = (Inr h, d1)" using ok(1) e(1) by simp
        have "in_range ?x L" using l by (simp add: live_def)
        then have "loose ?x ?u L u64_limit (dk_store d1)" using ok(2) ready_loose in_range_div(2) less_imp_le by blast
        then have A: "loose ?x 0 (take (ws_flushed_lsn st) L) u64_limit (dk_store d1)"
          using rd(5) by (intro loose_take [OF loose_unsync [OF _ le0]]) auto
        have n: "last_seg ?y (length L) = length L div seg_bytes" using e by (simp add: last_seg_def)
        have "live ?y ?u L (dk_store d1)" using ok(2) unfolding e(1,3) by (blast intro: ready_floor)
        then have B: "manned ?y ?u L (h_inode h) (dk_store d1)" using ok(2) n by (simp add: manned_def)
        have "recycle_through env lsn st d = move_floor env lsn (st\<lparr>ws_active := h, ws_active_number := ?n\<rparr>) d1"
          using made True by (simp add: recycle_through_eq [OF st move] io_then_def io_ok_def)
        from fin [OF A B _ this] show ?thesis using n e(1) by simp
      qed
    next
      case False
      have n: "last_seg ?y (length L) = last_seg ?x (length L)"
      proof (rule ccontr)
        assume ne: "last_seg ?y (length L) \<noteq> last_seg ?x (length L)"
        then have e: "length L mod seg_bytes = 0" "lsn = length L" using move(1,2) rd(5) by (auto simp: last_seg_def split: if_splits)
        then have "last_seg ?x (length L) < ?n" using ne by (auto simp: last_seg_def split: if_splits)
        then have "lookup ?s (segment_path ?n) = None" using l e in_range_div(2) [of ?x L] by (simp add: live_def)
        then show False using False e rd(6) by (simp add: next_segment_def fs_exists_def)
      qed
      have A: "loose ?x 0 (take (ws_flushed_lsn st) L) u64_limit ?s" by (rule live_kept [OF rd(10)])
      have B: "manned ?y ?u L (h_inode (ws_active st)) ?s"
        using mn(1) n live_floor [OF l, of lsn] move by (simp add: manned_def)
      have "recycle_through env lsn st d = move_floor env lsn (st\<lparr>ws_active := ws_active st, ws_active_number := ws_active_number st\<rparr>) d"
        using False by (simp add: recycle_through_eq [OF st move] io_ok_def)
      from fin [OF A B _ this] show ?thesis using n mn(2) by simp
    qed
  qed
qed


end
