(* ===== verification/Wal_System.thy ===== *)
theory Wal_System
  imports Wal_Recycle
begin

text \<open>
  The log manager as a system: calls of its methods in any order, each with any schedule of
  file-system faults, crashes of the machine, and attempts to open the log. The history and the
  positions are ghost components: which records the callers placed, up to where a flush acknowledged
  them, up to where a caller allowed them to be dropped, and which transactions tried to log something
  after their commit was placed.
\<close>

section \<open>States and steps\<close>

datatype checkpoint_stage = No_Checkpoint | Captured clog_snapshot | Stored clog_snapshot

fun awaited :: "checkpoint_stage \<Rightarrow> clog_snapshot option" where
  "awaited No_Checkpoint = None"
| "awaited (Captured sn) = Some sn"
| "awaited (Stored sn) = Some sn"

record 'b log_sys =
  lg_store :: store
  lg_manager :: "wal_state option"
  lg_history :: "'b wal_record list"
  lg_acked :: nat
  lg_allowed :: nat
  lg_stage :: checkpoint_stage
  lg_late :: "txn_id set"

definition disk_of :: "'b log_sys \<Rightarrow> fault list \<Rightarrow> disk" where
  "disk_of y fs = \<lparr>dk_store = lg_store y, dk_faults = fs\<rparr>"

definition after :: "wal_state \<times> disk \<Rightarrow> 'b log_sys \<Rightarrow> 'b log_sys" where
  "after sd y = y\<lparr>lg_store := dk_store (snd sd), lg_manager := Some (fst sd)\<rparr>"

definition placed :: "'b wal_record \<Rightarrow> wal_position result \<Rightarrow> 'b wal_record list" where
  "placed r res = (case res of Inr p \<Rightarrow> [r\<lparr>wr_lsn := of_nat (wp_record_lsn p)\<rparr>] | Inl e \<Rightarrow> [])"

text \<open>The transactions a record commits are \<open>staged_commits\<close>: its own and those of its subtransactions.\<close>

definition commit_placed :: "txn_id \<Rightarrow> 'b wal_record list \<Rightarrow> bool" where
  "commit_placed x rs = list_ex (\<lambda>r. x \<in> set (staged_commits r)) rs"

definition late_after :: "'b wal_record \<Rightarrow> 'b log_sys \<Rightarrow> txn_id set" where
  "late_after r y = (if commit_placed (wr_txn_id r) (lg_history y) then insert (wr_txn_id r) (lg_late y) else lg_late y)"

inductive log_step :: "'b log_env \<Rightarrow> 'b log_sys \<Rightarrow> 'b log_sys \<Rightarrow> bool" for env where
  append: "lg_manager y = Some st \<Longrightarrow> kind_wf (wr_kind r) \<Longrightarrow> append_room env r st \<Longrightarrow>
    append_positioned env r st (disk_of y fs) = (res, sd) \<Longrightarrow>
    log_step env y ((after sd y)\<lparr>lg_history := lg_history y @ placed r res, lg_late := late_after r y\<rparr>)"
| flush: "lg_manager y = Some st \<Longrightarrow> flush env st (disk_of y fs) = (res, sd) \<Longrightarrow>
    log_step env y ((after sd y)\<lparr>lg_acked := (case res of Inr n \<Rightarrow> max n (lg_acked y) | Inl e \<Rightarrow> lg_acked y)\<rparr>)"
| capture: "lg_manager y = Some st \<Longrightarrow> lg_stage y = No_Checkpoint \<Longrightarrow> boundary (lg_history y) p \<Longrightarrow>
    (\<And>b. ws_recycle_boundary st = Some b \<Longrightarrow> b \<le> p) \<Longrightarrow>
    wal_checkpoint_snapshot p act ab st (disk_of y fs) = (Inr sn, sd) \<Longrightarrow>
    log_step env y ((after sd y)\<lparr>lg_stage := Captured sn\<rparr>)"
| store: "lg_stage y = Captured sn \<Longrightarrow> write_clog_file env sn (disk_of y fs) = (res, d) \<Longrightarrow>
    log_step env y (y\<lparr>lg_store := dk_store d, lg_stage := (case res of Inr _ \<Rightarrow> Stored sn | Inl e \<Rightarrow> No_Checkpoint)\<rparr>)"
| install: "lg_manager y = Some st \<Longrightarrow> lg_stage y = Stored sn \<Longrightarrow> checkpoint_install sn st (disk_of y fs) = (res, sd) \<Longrightarrow>
    log_step env y ((after sd y)\<lparr>lg_stage := No_Checkpoint\<rparr>)"
| recycle: "lg_manager y = Some st \<Longrightarrow> \<not> segment_left_behind env lsn st (disk_of y fs) \<Longrightarrow>
    recycle_through env lsn st (disk_of y fs) = (res, sd) \<Longrightarrow>
    log_step env y ((after sd y)\<lparr>lg_allowed := max lsn (lg_allowed y)\<rparr>)"
| replay: "lg_manager y = Some st \<Longrightarrow> replay_entries_from env p st (disk_of y fs) = (items, sd) \<Longrightarrow> log_step env y (after sd y)"
| establish: "lg_manager y = Some st \<Longrightarrow> establish_recovery_committed_floor env ab st (disk_of y fs) = (res, sd) \<Longrightarrow>
    log_step env y (after sd y)"
| resolve: "lg_manager y = Some st \<Longrightarrow> resolve_in_flight_as_aborted xs st (disk_of y fs) = (res, sd) \<Longrightarrow> log_step env y (after sd y)"
| resolve_all: "lg_manager y = Some st \<Longrightarrow> resolve_all_in_flight_as_aborted st (disk_of y fs) = (res, sd) \<Longrightarrow> log_step env y (after sd y)"
| vacuum: "lg_manager y = Some st \<Longrightarrow> set_vacuum_floor b st (disk_of y fs) = (res, sd) \<Longrightarrow> log_step env y (after sd y)"
| power_loss: "crash (lg_store y) s \<Longrightarrow> log_step env y (y\<lparr>lg_store := s, lg_manager := None, lg_stage := No_Checkpoint\<rparr>)"
| reopen: "lg_manager y = None \<Longrightarrow> wal_open env (disk_of y fs) = (Inr st, d) \<Longrightarrow>
    log_step env y ((after (st, d) y)\<lparr>lg_history := log_upto (ws_written_lsn st) (lg_history y)\<rparr>)"
| reopen_fails: "lg_manager y = None \<Longrightarrow> wal_open env (disk_of y fs) = (Inl e, d) \<Longrightarrow> log_step env y (y\<lparr>lg_store := dk_store d\<rparr>)"

section \<open>Invariant\<close>

definition stage_ok ::
  "'b log_env \<Rightarrow> ('b wal_record list \<Rightarrow> clog_snapshot \<Rightarrow> bool) \<Rightarrow> 'b wal_record list \<Rightarrow> wal_state \<Rightarrow> store \<Rightarrow> checkpoint_stage \<Rightarrow> bool" where
  "stage_ok env P rs st s g =
     ((\<forall>sn. awaited g = Some sn \<longrightarrow> fits P rs (ws_replay_floor st) (ws_flushed_lsn st) sn
        \<and> (\<forall>b. ws_recycle_boundary st = Some b \<longrightarrow> b \<le> unat (cs_authorized_replay_floor sn)))
      \<and> (\<forall>sn. g = Stored sn \<longrightarrow>
           replaceable clog_path clog_tmp_path (clog_good env P rs (unat (cs_authorized_replay_floor sn)) (ws_flushed_lsn st)) s))"

definition up_ok :: "'b log_env \<Rightarrow> ('b wal_record list \<Rightarrow> clog_snapshot \<Rightarrow> bool) \<Rightarrow> wal_state \<Rightarrow> 'b log_sys \<Rightarrow> bool" where
  "up_ok env P st y =
     ((\<exists>L. run_ok env P (lg_history y) L st (lg_store y)) \<and> lg_acked y \<le> ws_flushed_lsn st \<and> ws_replay_floor st \<le> lg_allowed y
      \<and> stage_ok env P (lg_history y) st (lg_store y) (lg_stage y))"

definition down_ok :: "'b log_env \<Rightarrow> ('b wal_record list \<Rightarrow> clog_snapshot \<Rightarrow> bool) \<Rightarrow> 'b log_sys \<Rightarrow> bool" where
  "down_ok env P y =
     ((\<exists>L. framed (le_wal env) 0 (lg_history y) L)
      \<and> (\<exists>e \<ge> lg_acked y. boundary (lg_history y) e \<and> down env P (log_upto e (lg_history y)) (lg_allowed y) (lg_store y))
      \<and> lg_stage y = No_Checkpoint)"

definition log_inv :: "'b log_env \<Rightarrow> ('b wal_record list \<Rightarrow> clog_snapshot \<Rightarrow> bool) \<Rightarrow> 'b log_sys \<Rightarrow> bool" where
  "log_inv env P y =
     ((case lg_manager y of
         None \<Rightarrow> down_ok env P y
       | Some st \<Rightarrow>
           if ws_poisoned st = None then up_ok env P st y
           else frozen env P (lg_history y) (lg_acked y) (lg_allowed y) (awaited (lg_stage y)) (lg_store y))
      \<and> (\<forall>sn. awaited (lg_stage y) = Some sn \<longrightarrow> storable env sn))"

section \<open>Helper facts\<close>

lemma candidate_mono:
  "candidate env P rs L a c pend s m \<Longrightarrow> a' \<le> a \<Longrightarrow> c \<le> c' \<Longrightarrow> pend' = pend \<or> pend' = None \<Longrightarrow> candidate env P rs L a' c' pend' s m"
  unfolding candidate_def by auto

lemma frozen_mono:
  assumes "frozen env P rs a c pend s" "a' \<le> a" "c \<le> c'" "pend' = pend \<or> pend' = None"
  shows "frozen env P rs a' c' pend' s"
  using assms(1) candidate_mono [OF _ assms(2-4)] unfolding frozen_def frozen_at_def by blast

lemma frozen_framed: "frozen env P rs a c pend s \<Longrightarrow> \<exists>L. framed (le_wal env) 0 rs L"
  unfolding frozen_def frozen_at_def by blast

lemma stage_awaited: "stage_ok env P rs st s g \<Longrightarrow> awaited g = Some sn \<Longrightarrow> fits P rs (ws_replay_floor st) (ws_flushed_lsn st) sn"
  by (simp add: stage_ok_def)

lemma stage_keeps:
  assumes "stage_ok env P rs st s g" "keeps_clog s s'" "ws_flushed_lsn st \<le> ws_flushed_lsn st'"
    "ws_replay_floor st' = ws_replay_floor st \<or> ws_recycle_boundary st = Some (ws_replay_floor st')"
    "ws_recycle_boundary st' = ws_recycle_boundary st"
  shows "stage_ok env P rs st' s' g"
proof -
  have "fits P rs (ws_replay_floor st') (ws_flushed_lsn st') sn" if "awaited g = Some sn" for sn
    using that assms unfolding stage_ok_def by (force simp: fits_def)
  moreover have "replaceable clog_path clog_tmp_path (clog_good env P rs b (ws_flushed_lsn st')) s'"
    if "replaceable clog_path clog_tmp_path (clog_good env P rs b (ws_flushed_lsn st)) s" for b
    using that assms(2,3) clog_file_mono unfolding keeps_clog_def by blast
  ultimately show ?thesis using assms(1,5) unfolding stage_ok_def by (metis awaited.simps(3))
qed

lemma stage_snoc:
  assumes "framed (le_wal env) 0 rs L" "ws_flushed_lsn st \<le> length L" "length L < unat (wr_lsn r)" "stage_ok env P rs st s g"
  shows "stage_ok env P (rs @ [r]) st s g"
  using assms(4) fits_snoc [OF assms(1-3)] clog_file_snoc [OF assms(1-3)] unfolding stage_ok_def by blast

lemma up_frozen:
  assumes "up_ok env P st y"
  shows "frozen env P (lg_history y) (lg_acked y) (lg_allowed y) (awaited (lg_stage y)) (lg_store y)"
proof -
  obtain L where r: "run_ok env P (lg_history y) L st (lg_store y)" using assms by (auto simp: up_ok_def)
  have "frozen env P (lg_history y) (ws_flushed_lsn st) (lg_allowed y) (awaited (lg_stage y)) (lg_store y)"
    using run_frozen [OF r, of "lg_allowed y" "awaited (lg_stage y)"] assms stage_awaited unfolding up_ok_def frozen_def by blast
  then show ?thesis using assms by (rule_tac frozen_mono) (auto simp: up_ok_def)
qed

lemma manager_frozen:
  assumes "log_inv env P y" "lg_manager y = Some st"
  shows "frozen env P (lg_history y) (lg_acked y) (lg_allowed y) (awaited (lg_stage y)) (lg_store y)"
  using assms up_frozen by (auto simp: log_inv_def split: if_splits)

section \<open>Every step keeps the invariant\<close>

lemma disk_of_simps [simp]: "dk_store (disk_of y fs) = lg_store y" "dk_faults (disk_of y fs) = fs"
  by (simp_all add: disk_of_def)

lemma after_simps [simp]:
  "lg_store (after (st, d) y) = dk_store d" "lg_manager (after (st, d) y) = Some st" "lg_history (after (st, d) y) = lg_history y"
  "lg_acked (after (st, d) y) = lg_acked y" "lg_allowed (after (st, d) y) = lg_allowed y" "lg_stage (after (st, d) y) = lg_stage y"
  "lg_late (after (st, d) y) = lg_late y"
  by (simp_all add: after_def)

lemma inv_up:
  assumes "log_inv env P y" "lg_manager y = Some st" "ws_poisoned st = None"
  obtains L where "run_ok env P (lg_history y) L st (lg_store y)" "lg_acked y \<le> ws_flushed_lsn st" "ws_replay_floor st \<le> lg_allowed y"
    "stage_ok env P (lg_history y) st (lg_store y) (lg_stage y)"
  using assms by (auto simp: log_inv_def up_ok_def)

text \<open>A poisoned manager refuses every call and leaves the disk alone.\<close>

lemma inv_refused:
  assumes "log_inv env P y" "lg_manager y = Some st" "ws_poisoned st \<noteq> None" "ws_poisoned st' \<noteq> None" "dk_store d = lg_store y"
    "lg_acked y' = lg_acked y" "lg_allowed y \<le> lg_allowed y'" "lg_history y' = lg_history y" "lg_store y' = dk_store d" "lg_manager y' = Some st'"
    "lg_stage y' = lg_stage y \<or> lg_stage y' = No_Checkpoint"
  shows "log_inv env P y'"
  using assms frozen_mono [OF manager_frozen [OF assms(1,2)], of "lg_acked y" "lg_allowed y'"] by (auto simp: log_inv_def)

lemma append_poisoned:
  "ws_poisoned st \<noteq> None \<Longrightarrow> append_positioned env r st d = (res, st', d') \<Longrightarrow> (\<exists>e. res = Inl e) \<and> ws_poisoned st' = ws_poisoned st \<and> d' = d"
  by (auto simp: append_positioned_def Let_def split: if_splits)

lemma run_framed: "run_ok env P rs L st s \<Longrightarrow> framed (le_wal env) 0 rs L"
  by (rule run_okD)

lemma inv_append:
  assumes i: "log_inv env P y" "lg_manager y = Some st" and wf: "kind_wf (wr_kind r)" and room: "append_room env r st"
    and ap: "append_positioned env r st (disk_of y fs) = (res, st', d)"
  shows "log_inv env P ((after (st', d) y)\<lparr>lg_history := lg_history y @ placed r res, lg_late := xs\<rparr>)"
proof (cases "ws_poisoned st")
  case (Some e)
  then show ?thesis
    using append_poisoned [OF _ ap] by (intro inv_refused [OF i, of st' d]) (auto simp: placed_def)
next
  case None
  obtain L where u: "run_ok env P (lg_history y) L st (lg_store y)" "lg_acked y \<le> ws_flushed_lsn st" "ws_replay_floor st \<le> lg_allowed y"
    "stage_ok env P (lg_history y) st (lg_store y) (lg_stage y)"
    by (rule inv_up [OF i None])
  note rd = run_okD [OF u(1)]
  have "run_ok env P (lg_history y) L st (dk_store (disk_of y fs))" using u(1) by simp
  note out = append_ok [where pend = "awaited (lg_stage y)" and c = "lg_allowed y", OF this None wf room u(3) stage_awaited [OF u(4)], unfolded ap]
  have sn: "\<forall>sn. awaited (lg_stage y) = Some sn \<longrightarrow> storable env sn" using i by (simp add: log_inv_def)
  show ?thesis
  proof (cases res)
    case (Inl e)
    show ?thesis
    proof (cases "ws_poisoned st'")
      case None
      then show ?thesis
        using out Inl u sn by (auto simp: log_inv_def up_ok_def placed_def intro!: stage_keeps [OF u(4)])
    next
      case (Some e')
      then show ?thesis
        using out Inl u(2) sn frozen_mono [of env P "lg_history y" "ws_flushed_lsn st" "lg_allowed y" "awaited (lg_stage y)" "dk_store d" "lg_acked y"]
        by (auto simp: log_inv_def placed_def)
    qed
  next
    case (Inr p)
    then obtain r' bs h n where o: "encode_record_at (le_wal env) r (of_nat (length L)) = Inr (r', bs)"
      "p = \<lparr>wp_replay_from = length L, wp_record_lsn = length (L @ bs)\<rparr>" "unat (wr_lsn r') = length (L @ bs)" "bs \<noteq> []"
      "st' = appended_state h n (staged_commits r') (length (L @ bs)) (st\<lparr>ws_clog := mark_writer r (ws_clog st)\<rparr>)"
      "run_ok env P (lg_history y @ [r']) (L @ bs) st' (dk_store d)" "keeps_clog (lg_store y) (dk_store d)"
      using out by auto
    have "r' = r\<lparr>wr_lsn := of_nat (length L) + of_nat (length bs)\<rparr>" using encode_record_at_ok [OF o(1)] by blast
    then have pl: "placed r res = [r']" using Inr o(2) by (simp add: placed_def)
    have "stage_ok env P (lg_history y) st' (dk_store d) (lg_stage y)"
      by (rule stage_keeps [OF u(4) o(7)]) (simp_all add: o(5) appended_state_def)
    then have "stage_ok env P (lg_history y @ [r']) st' (dk_store d) (lg_stage y)"
      using o(3,4) rd(1,5) by (intro stage_snoc [OF rd(1)]) (simp_all add: o(5) appended_state_def)
    moreover have "ws_poisoned st' = None" "ws_flushed_lsn st' = ws_flushed_lsn st" "ws_replay_floor st' = ws_replay_floor st"
      using None by (simp_all add: o(5) appended_state_def)
    ultimately show ?thesis using o(6) u(2,3) sn unfolding log_inv_def pl by (auto simp: up_ok_def)
  qed
qed

lemma inv_flush:
  assumes i: "log_inv env P y" "lg_manager y = Some st" and fl: "flush env st (disk_of y fs) = (res, st', d)"
  shows "log_inv env P ((after (st', d) y)\<lparr>lg_acked := (case res of Inr n \<Rightarrow> max n (lg_acked y) | Inl e \<Rightarrow> lg_acked y)\<rparr>)"
proof (cases "ws_poisoned st")
  case (Some e)
  then have "res = Inl e" "st' = st" "d = disk_of y fs" using fl by (simp_all add: flush_def locked_def)
  then show ?thesis using Some by (intro inv_refused [OF i, of st' d]) auto
next
  case None
  obtain L where u: "run_ok env P (lg_history y) L st (lg_store y)" "lg_acked y \<le> ws_flushed_lsn st" "ws_replay_floor st \<le> lg_allowed y"
    "stage_ok env P (lg_history y) st (lg_store y) (lg_stage y)"
    by (rule inv_up [OF i None])
  note rd = run_okD [OF u(1)]
  have "run_ok env P (lg_history y) L st (dk_store (disk_of y fs))" using u(1) by simp
  note out = flush_ok [where pend = "awaited (lg_stage y)" and c = "lg_allowed y", OF this None u(3) stage_awaited [OF u(4)], unfolded fl]
  have sn: "\<forall>sn. awaited (lg_stage y) = Some sn \<longrightarrow> storable env sn" using i by (simp add: log_inv_def)
  show ?thesis
  proof (cases res)
    case (Inl e)
    then show ?thesis
      using out sn u(2) frozen_mono [of env P "lg_history y" "ws_flushed_lsn st" "lg_allowed y" "awaited (lg_stage y)" "dk_store d" "lg_acked y"]
      by (auto simp: log_inv_def)
  next
    case (Inr n)
    then have o: "n = length L" "st' = flushed_state st" "run_ok env P (lg_history y) L st' (dk_store d)" "keeps_clog (lg_store y) (dk_store d)"
      using out by auto
    have "stage_ok env P (lg_history y) st' (dk_store d) (lg_stage y)"
      using rd(5,6) by (intro stage_keeps [OF u(4) o(4)]) (simp_all add: o(2) flushed_state_def)
    moreover have "ws_poisoned st' = None" "ws_flushed_lsn st' = length L" "ws_replay_floor st' = ws_replay_floor st"
      using None rd(6) by (simp_all add: o(2) flushed_state_def)
    ultimately show ?thesis using o(1,3) u(2,3) rd(5) sn Inr by (auto simp: log_inv_def up_ok_def)
  qed
qed


lemma inv_capture:
  assumes i: "log_inv env P y" "lg_manager y = Some st" and g: "lg_stage y = No_Checkpoint" and b: "boundary (lg_history y) p"
    "\<And>b. ws_recycle_boundary st = Some b \<Longrightarrow> b \<le> p"
    and cp: "wal_checkpoint_snapshot p act ab st (disk_of y fs) = (Inr sn, st', d)"
    and json: "json_faithful (le_clog_to_vec env) (le_clog_from_slice env)"
    and P: "P (log_upto (ws_flushed_lsn st) (lg_history y)) sn"
  shows "log_inv env P ((after (st', d) y)\<lparr>lg_stage := Captured sn\<rparr>)"
proof -
  have None: "ws_poisoned st = None" using cp by (cases "ws_poisoned st") (simp_all add: wal_checkpoint_snapshot_def locked_def)
  obtain L where u: "run_ok env P (lg_history y) L st (lg_store y)" "lg_acked y \<le> ws_flushed_lsn st" "ws_replay_floor st \<le> lg_allowed y"
    by (rule inv_up [OF i None])
  have s: "st' = st" "d = disk_of y fs" "ws_replay_floor st \<le> p" "p \<le> ws_flushed_lsn st"
    "sn = live_snapshot (ws_clog st) (of_nat (ws_flushed_lsn st)) (of_nat p) (ws_vacuum_floor st) act ab"
    using cp None by (auto simp: wal_checkpoint_snapshot_def locked_def split: if_splits)
  note c = captured_fits [OF u(1) s(3,4) b(1) P s(5)]
  show ?thesis using u None s(1,2) c(1,2) c(3) [OF json] b(2) by (auto simp: log_inv_def up_ok_def stage_ok_def)
qed

lemma inv_store:
  assumes i: "log_inv env P y" and g: "lg_stage y = Captured sn" and w: "write_clog_file env sn (disk_of y fs) = (res, d)"
  shows "log_inv env P (y\<lparr>lg_store := dk_store d, lg_stage := (case res of Inr _ \<Rightarrow> Stored sn | Inl e \<Rightarrow> No_Checkpoint)\<rparr>)"
proof -
  have sn: "storable env sn" using i g by (simp add: log_inv_def)
  obtain st where st: "lg_manager y = Some st" using i g by (cases "lg_manager y") (auto simp: log_inv_def down_ok_def)
  show ?thesis
  proof (cases "ws_poisoned st")
    case (Some e)
    have "frozen env P (lg_history y) (lg_acked y) (lg_allowed y) (Some sn) (dk_store (disk_of y fs))" using manager_frozen [OF i st] g by simp
    then have "frozen env P (lg_history y) (lg_acked y) (lg_allowed y) (Some sn) (dk_store d)" using sn w by (rule write_clog_frozen)
    then show ?thesis
      using Some st sn frozen_mono [OF _ order_refl order_refl, of env P "lg_history y" "lg_acked y" "lg_allowed y" "Some sn" "dk_store d" None]
      by (auto simp: log_inv_def split: sum.splits)
  next
    case None
    obtain L where u: "run_ok env P (lg_history y) L st (lg_store y)" "lg_acked y \<le> ws_flushed_lsn st" "ws_replay_floor st \<le> lg_allowed y"
      "stage_ok env P (lg_history y) st (lg_store y) (lg_stage y)"
      by (rule inv_up [OF i st None])
    have r: "run_ok env P (lg_history y) L st (dk_store (disk_of y fs))" using u(1) by simp
    have f: "fits P (lg_history y) (ws_replay_floor st) (ws_flushed_lsn st) sn"
      "\<And>b. ws_recycle_boundary st = Some b \<Longrightarrow> b \<le> unat (cs_authorized_replay_floor sn)"
      using u(4) g by (auto simp: stage_ok_def)
    note out = write_clog_run [OF r w sn f]
    show ?thesis
      using out(1,2) u(2,3) f None st sn by (auto simp: log_inv_def up_ok_def stage_ok_def split: sum.splits)
  qed
qed

lemma inv_install:
  assumes i: "log_inv env P y" "lg_manager y = Some st" and g: "lg_stage y = Stored sn"
    and c: "checkpoint_install sn st (disk_of y fs) = (res, st', d)"
  shows "log_inv env P ((after (st', d) y)\<lparr>lg_stage := No_Checkpoint\<rparr>)"
proof (cases "ws_poisoned st")
  case (Some e)
  then show ?thesis using c by (intro inv_refused [OF i, of st' d]) (auto simp: checkpoint_install_def locked_def)
next
  case None
  obtain L where u: "run_ok env P (lg_history y) L st (lg_store y)" "lg_acked y \<le> ws_flushed_lsn st" "ws_replay_floor st \<le> lg_allowed y"
    "stage_ok env P (lg_history y) st (lg_store y) (lg_stage y)"
    by (rule inv_up [OF i None])
  have st': "st' = st\<lparr>ws_clog := prune_to (cs_committed_floor sn) (ws_clog st), ws_recycle_boundary := Some (unat (cs_authorized_replay_floor sn))\<rparr>"
    "d = disk_of y fs" using c None by (auto simp: checkpoint_install_def locked_def)
  have "run_ok env P (lg_history y) L st' (lg_store y)"
    unfolding st'(1) using u(4) g map_wf_prune [OF run_okD(8) [OF u(1)]]
    by (intro run_installed [OF u(1)]) (auto simp: stage_ok_def fits_def)
  then show ?thesis using u(2,3) None st' by (auto simp: log_inv_def up_ok_def stage_ok_def)
qed

lemma inv_recycle:
  assumes i: "log_inv env P y" "lg_manager y = Some st" and left: "\<not> segment_left_behind env lsn st (disk_of y fs)"
    and c: "recycle_through env lsn st (disk_of y fs) = (res, st', d)"
  shows "log_inv env P ((after (st', d) y)\<lparr>lg_allowed := max lsn (lg_allowed y)\<rparr>)"
proof (cases "ws_poisoned st")
  case (Some e)
  then show ?thesis using c by (intro inv_refused [OF i, of st' d]) (auto simp: recycle_through_def locked_def)
next
  case None
  obtain L where u: "run_ok env P (lg_history y) L st (lg_store y)" "lg_acked y \<le> ws_flushed_lsn st" "ws_replay_floor st \<le> lg_allowed y"
    "stage_ok env P (lg_history y) st (lg_store y) (lg_stage y)"
    by (rule inv_up [OF i None])
  let ?c = "max lsn (lg_allowed y)"
  have r: "run_ok env P (lg_history y) L st (dk_store (disk_of y fs))" using u(1) by simp
  have fl: "ws_replay_floor st \<le> ?c" "lsn \<le> ?c" using u(3) by auto
  have pend: "fits P (lg_history y) (ws_replay_floor st) (ws_flushed_lsn st) sn \<and> (\<forall>b. ws_recycle_boundary st = Some b \<longrightarrow> b \<le> unat (cs_authorized_replay_floor sn))"
    if "awaited (lg_stage y) = Some sn" for sn using u(4) that by (auto simp: stage_ok_def)
  note out = recycle_through_ok [OF r None left fl, of "awaited (lg_stage y)", OF pend, unfolded c prod.case]
  have sn: "\<forall>sn. awaited (lg_stage y) = Some sn \<longrightarrow> storable env sn" using i by (simp add: log_inv_def)
  show ?thesis
  proof (cases "ws_poisoned st'")
    case (Some e)
    then show ?thesis
      using out sn u(2) frozen_mono [of env P "lg_history y" "ws_flushed_lsn st" ?c "awaited (lg_stage y)" "dk_store d" "lg_acked y" ?c]
      by (auto simp: log_inv_def)
  next
    case None
    then have o: "run_ok env P (lg_history y) L st' (dk_store d)" "keeps_clog (lg_store y) (dk_store d)"
      "st' = st \<or> ws_recycle_boundary st = Some lsn \<and> (\<exists>h n. st' = st\<lparr>ws_active := h, ws_active_number := n, ws_replay_floor := lsn\<rparr>)"
      using out by auto
    have "stage_ok env P (lg_history y) st' (dk_store d) (lg_stage y)" using o(3) by (intro stage_keeps [OF u(4) o(2)]) auto
    moreover have "ws_flushed_lsn st' = ws_flushed_lsn st" "ws_replay_floor st' \<le> ?c" using o(3) fl by auto
    ultimately show ?thesis using o(1) u(2) None sn by (auto simp: log_inv_def up_ok_def)
  qed
qed

text \<open>Calls that change the status map and the vacuum floor only.\<close>

lemma inv_memory:
  assumes i: "log_inv env P y" "lg_manager y = Some st" and s: "dk_store d = lg_store y"
    and st': "st' = st \<or> ws_poisoned st = None \<and> map_wf (statuses c) \<and> st' = st\<lparr>ws_clog := c, ws_vacuum_floor := v\<rparr>"
  shows "log_inv env P (after (st', d) y)"
proof (cases "ws_poisoned st")
  case (Some e)
  then show ?thesis using st' s by (intro inv_refused [OF i, of st' d]) auto
next
  case None
  obtain L where u: "run_ok env P (lg_history y) L st (lg_store y)" "lg_acked y \<le> ws_flushed_lsn st" "ws_replay_floor st \<le> lg_allowed y"
    "stage_ok env P (lg_history y) st (lg_store y) (lg_stage y)"
    by (rule inv_up [OF i None])
  have "run_ok env P (lg_history y) L (st\<lparr>ws_clog := c, ws_vacuum_floor := v\<rparr>) (lg_store y)" if "map_wf (statuses c)"
    using u(1) that by (simp add: run_ok_def positions_ok_def active_ok_def unflushed_ok_def recycle_ok_def split: option.splits)
  moreover have "stage_ok env P (lg_history y) (st\<lparr>ws_clog := c, ws_vacuum_floor := v\<rparr>) (lg_store y) (lg_stage y)"
    using u(4) by (simp add: stage_ok_def)
  ultimately show ?thesis using i u s st' None by (auto simp: log_inv_def up_ok_def)
qed


lemma map_wf_resolve: "map_wf (statuses c) \<Longrightarrow>
  map_wf (statuses (fold (\<lambda>xid c. if clog_status c xid = InProgress then set_aborted xid c else c) xs c))"
  by (induction xs arbitrary: c) (auto simp: map_wf_status)

lemma run_replay:
  assumes r: "run_ok env P rs L st (dk_store d)" and json: "json_ok (le_wal env)" and st: "ws_poisoned st = None"
  shows "\<exists>items d'. replay_entries_from env p st d = (Inr items, st, d') \<and> dk_store d' = dk_store d
    \<and> (nf (dk_faults d) \<longrightarrow> nf (dk_faults d')
        \<and> items = map Inr (filter (\<lambda>e. max p (ws_replay_floor st) \<le> en_replay_from e) (entries_from (ws_replay_floor st) (log_after (ws_replay_floor st) rs))))"
proof -
  note rd = run_okD [OF r]
  let ?x = "run_ctx env st (dk_store d)" and ?r = "segment_reader_new (ws_replay_floor st) (ws_written_lsn st)"
  have range: "in_range ?x L" using rd(10) by (simp add: live_def)
  have l: "loose ?x 0 L u64_limit (dk_store d)" using rd(10) in_range_seg(2) [OF range order_refl] by (intro live_loose) auto
  have "\<exists>items d'. replay_items (le_wal env) (max p (ws_replay_floor st)) ?r d = (items, d') \<and> dk_store d' = dk_store d
    \<and> (nf (dk_faults d) \<longrightarrow> nf (dk_faults d')
        \<and> items = map Inr (filter (\<lambda>e. max p (ws_replay_floor st) \<le> en_replay_from e) (entries_from (sr_position ?r) (log_after (ws_replay_floor st) rs))))"
    using rd framed_after [OF rd(1,3)] reader_new
    by (intro replay_items_ok [OF l json]) (auto simp: segment_reader_new_def)
  then show ?thesis using st by (auto simp: replay_entries_from_def locked_def segment_reader_new_def)
qed

lemma inv_replay:
  assumes i: "log_inv env P y" "lg_manager y = Some st" and json: "json_ok (le_wal env)"
    and c: "replay_entries_from env p st (disk_of y fs) = (res, st', d)"
  shows "st' = st \<and> dk_store d = lg_store y"
proof (cases "ws_poisoned st")
  case (Some e)
  then show ?thesis using c by (auto simp: replay_entries_from_def locked_def)
next
  case None
  obtain L where u: "run_ok env P (lg_history y) L st (lg_store y)" by (rule inv_up [OF i None])
  then have "run_ok env P (lg_history y) L st (dk_store (disk_of y fs))" by simp
  from run_replay [OF this json None, of p] c show ?thesis by auto
qed

lemma inv_clog_wf:
  assumes "log_inv env P y" "lg_manager y = Some st" "ws_poisoned st = None"
  shows "map_wf (statuses (ws_clog st))"
  by (rule inv_up [OF assms]) (rule run_okD(8))

lemma inv_establish:
  assumes i: "log_inv env P y" "lg_manager y = Some st" and json: "json_ok (le_wal env)"
    and c: "establish_recovery_committed_floor env ab st (disk_of y fs) = (res, st', d)"
  shows "log_inv env P (after (st', d) y)"
proof -
  have "dk_store d = lg_store y \<and> (st' = st \<or> ws_poisoned st = None \<and> (\<exists>f. st' = st\<lparr>ws_clog := set_committed_floor f (ws_clog st)\<rparr>))"
  proof (cases "ws_poisoned st")
    case (Some e)
    then show ?thesis using c by (auto simp: establish_recovery_committed_floor_def locked_def)
  next
    case None
    obtain items st1 d1 where rp: "replay_entries_from env 0 st (disk_of y fs) = (items, st1, d1)" by (rule prod_cases3)
    then have "st1 = st \<and> dk_store d1 = lg_store y" by (rule inv_replay [OF i json])
    then show ?thesis
      using c None rp by (auto simp: establish_recovery_committed_floor_def locked_def split: if_splits sum.splits)
  qed
  then consider "dk_store d = lg_store y" "st' = st"
    | f where "dk_store d = lg_store y" "ws_poisoned st = None" "st' = st\<lparr>ws_clog := set_committed_floor f (ws_clog st), ws_vacuum_floor := ws_vacuum_floor st\<rparr>"
    by auto
  then show ?thesis
  proof cases
    case 1
    then show ?thesis by (intro inv_memory [OF i]) auto
  next
    case (2 f)
    then show ?thesis using inv_clog_wf [OF i 2(2)] by (intro inv_memory [OF i, where c = "set_committed_floor f (ws_clog st)" and v = "ws_vacuum_floor st"])
        (auto simp: set_committed_floor_def)
  qed
qed

section \<open>Crashes and restarts\<close>

lemma crash_at_rest:
  assumes r: "at_rest env P rs fl L s" and cr: "crash s s'"
  shows "at_rest env P rs fl L s'"
proof -
  have b: "beside env P rs fl (length L) s" and q: "quiet s" using r by (auto simp: at_rest_def)
  then have base: "disk_base s" and w: "wal_entry_ok s" by (auto simp: beside_def disk_base_def)
  have "meta_holds (le_crc env) (\<lambda>m. m = \<lparr>wm_replay_floor = fl, wm_durable_end = length L\<rparr>) s'"
    using b w unfolding beside_def meta_holds_def by (blast intro: crash_replaceable [OF _ cr])
  moreover have "replaceable clog_path clog_tmp_path (clog_good env P rs fl (length L)) s'"
    using b by (intro crash_replaceable [OF _ cr]) (auto simp: beside_def clog_path_def clog_tmp_path_def)
  ultimately have b': "beside env P rs fl (length L) s'"
    using crash_disk_base [OF base cr] crash_settled [OF cr] by (simp add: beside_def)
  have "quiet s'" using crash_settled [OF cr] by (simp add: quiet_def)
  moreover have "loose (at_ctx (le_crc env) fl (length L) s') 0 L u64_limit s'" if "loose (at_ctx (le_crc env) fl (length L) s) 0 L u64_limit s"
    using that cr w by (rule crash_loose)
  moreover have "fresh_log s'" if "fresh_log s"
    using that q w [unfolded wal_entry_ok_def] crash_lookup [OF cr, of clog_path] crash_lookup [OF cr, of manifest_path]
    by (simp add: fresh_log_def quiet_def clog_path_def manifest_path_def)
  ultimately show ?thesis using r b' by (auto simp: at_rest_def)
qed

lemma down_crash: "down env P rs c s \<Longrightarrow> crash s s' \<Longrightarrow> down env P rs c s'"
  unfolding down_def using crash_at_rest by blast

lemma inv_crash:
  assumes i: "log_inv env P y" and cr: "crash (lg_store y) s"
  shows "log_inv env P (y\<lparr>lg_store := s, lg_manager := None, lg_stage := No_Checkpoint\<rparr>)"
proof (cases "lg_manager y")
  case None
  then have "down_ok env P y" using i by (simp add: log_inv_def)
  then have "down_ok env P (y\<lparr>lg_store := s, lg_manager := None, lg_stage := No_Checkpoint\<rparr>)"
    using down_crash [OF _ cr] unfolding down_ok_def by (simp, blast)
  then show ?thesis by (simp add: log_inv_def)
next
  case (Some st)
  note f = manager_frozen [OF i Some]
  show ?thesis using frozen_crash [OF f cr] frozen_framed [OF f] by (simp add: log_inv_def down_ok_def)
qed

lemma down_end:
  assumes f: "framed (le_wal env) 0 rs L" and e: "boundary rs e" and w: "whole_log env (log_upto e rs) fl L'"
  shows "length L' = e" "log_upto (length L') rs = log_upto e rs"
proof -
  have "L' = take e L" using framed_unique [OF framed_upto [OF f e], of L'] w by (simp add: whole_log_def)
  then show "length L' = e" using boundary_le [OF f e] by simp
  then show "log_upto (length L') rs = log_upto e rs" by simp
qed

lemma wp_reopen:
  assumes d: "down_ok env P y" and json: "json_ok (le_wal env)"
  shows "wp (wal_open env) (\<lambda>st s. opened env P (log_upto (ws_written_lsn st) (lg_history y)) st s \<and> boundary (lg_history y) (ws_written_lsn st)
      \<and> lg_acked y \<le> ws_written_lsn st \<and> ws_replay_floor st \<le> lg_allowed y)
    (\<lambda>s. down_ok env P (y\<lparr>lg_store := s\<rparr>)) (lg_store y)"
proof -
  obtain L e where f: "framed (le_wal env) 0 (lg_history y) L" and e: "lg_acked y \<le> e" "boundary (lg_history y) e"
    and dn: "down env P (log_upto e (lg_history y)) (lg_allowed y) (lg_store y)" and g: "lg_stage y = No_Checkpoint"
    using d by (auto simp: down_ok_def)
  obtain fl L' where fl: "fl \<le> lg_allowed y" and w: "whole_log env (log_upto e (lg_history y)) fl L'"
    and r: "at_rest env P (log_upto e (lg_history y)) fl L' (lg_store y)" using dn by (auto simp: down_def)
  note l = down_end [OF f e(2) w]
  show ?thesis
  proof (rule wp_wal_open [OF json w r])
    show "down_ok env P (y\<lparr>lg_store := s'\<rparr>)" if "at_rest env P (log_upto e (lg_history y)) fl L' s'" for s'
      using that f e g fl w unfolding down_ok_def down_def by auto
  qed (use fl e l in auto)
qed

lemma inv_reopen:
  assumes i: "log_inv env P y" "lg_manager y = None" and json: "json_ok (le_wal env)"
  shows "wal_open env (disk_of y fs) = (Inr st, d) \<Longrightarrow> log_inv env P ((after (st, d) y)\<lparr>lg_history := log_upto (ws_written_lsn st) (lg_history y)\<rparr>)"
    "wal_open env (disk_of y fs) = (Inl e, d) \<Longrightarrow> log_inv env P (y\<lparr>lg_store := dk_store d\<rparr>)"
proof -
  have d: "down_ok env P y" and g: "lg_stage y = No_Checkpoint" using i by (auto simp: log_inv_def down_ok_def)
  have "wp (wal_open env) (\<lambda>st s. opened env P (log_upto (ws_written_lsn st) (lg_history y)) st s \<and> boundary (lg_history y) (ws_written_lsn st)
      \<and> lg_acked y \<le> ws_written_lsn st \<and> ws_replay_floor st \<le> lg_allowed y)
    (\<lambda>s. down_ok env P (y\<lparr>lg_store := s\<rparr>)) (dk_store (disk_of y fs))" using wp_reopen [OF d json] by simp
  note w = this
  show "log_inv env P ((after (st, d) y)\<lparr>lg_history := log_upto (ws_written_lsn st) (lg_history y)\<rparr>)" if o: "wal_open env (disk_of y fs) = (Inr st, d)"
    using w
  proof (cases rule: wp_cases)
    case (ok st1 d1)
    then have "opened env P (log_upto (ws_written_lsn st) (lg_history y)) st (dk_store d)" "lg_acked y \<le> ws_written_lsn st" "ws_replay_floor st \<le> lg_allowed y"
      using o by auto
    then show ?thesis using g by (simp add: log_inv_def up_ok_def opened_def running_def stage_ok_def)
  qed (use o in simp)
  show "log_inv env P (y\<lparr>lg_store := dk_store d\<rparr>)" if o: "wal_open env (disk_of y fs) = (Inl e, d)"
    using w
  proof (cases rule: wp_cases)
    case (err e1 d1)
    then show ?thesis using o g i(2) by (simp add: log_inv_def)
  qed (use o in simp)
qed

section \<open>Reachable states\<close>

lemma log_inv_step:
  assumes step: "log_step env y y'" and i: "log_inv env P y" and json: "json_ok (le_wal env)" "json_faithful (le_clog_to_vec env) (le_clog_from_slice env)"
    and P: "\<And>st p act ab fs sn sd. lg_manager y = Some st \<Longrightarrow> ws_poisoned st = None \<Longrightarrow>
      wal_checkpoint_snapshot p act ab st (disk_of y fs) = (Inr sn, sd) \<Longrightarrow> P (log_upto (ws_flushed_lsn st) (lg_history y)) sn"
  shows "log_inv env P y'"
  using step
proof cases
  case (append st r fs res sd)
  then show ?thesis using inv_append [OF i append(2-4)] by (cases sd) simp
next
  case (flush st fs res sd)
  then show ?thesis using inv_flush [OF i flush(2)] by (cases sd) simp
next
  case (capture st p act ab fs sn sd)
  have "ws_poisoned st = None" using capture(6) by (cases "ws_poisoned st") (simp_all add: wal_checkpoint_snapshot_def locked_def)
  then have "P (log_upto (ws_flushed_lsn st) (lg_history y)) sn" using P capture by blast
  then show ?thesis using inv_capture [OF i capture(2-5)] capture json(2) by (cases sd) simp
next
  case (store sn fs res d)
  then show ?thesis using inv_store [OF i] by simp
next
  case (install st sn fs res sd)
  then show ?thesis using inv_install [OF i install(2,3)] by (cases sd) simp
next
  case (recycle st lsn fs res sd)
  then show ?thesis using inv_recycle [OF i recycle(2,3)] by (cases sd) simp
next
  case (replay st p fs items sd)
  then show ?thesis using inv_replay [OF i replay(2) json(1)] by (cases sd) (auto intro: inv_memory [OF i])
next
  case (establish st ab fs res sd)
  then show ?thesis using inv_establish [OF i establish(2) json(1)] by (cases sd) simp
next
  case (resolve st xs fs res sd)
  show ?thesis
  proof (cases "ws_poisoned st")
    case None
    show ?thesis unfolding resolve(1)
      by (cases sd, hypsubst, rule inv_memory [OF i resolve(2), where v = "ws_vacuum_floor st"
            and c = "fold (\<lambda>xid c. if clog_status c xid = InProgress then set_aborted xid c else c) xs (ws_clog st)"])
        (use None resolve map_wf_resolve [OF inv_clog_wf [OF i resolve(2) None]] in \<open>auto simp: resolve_in_flight_as_aborted_def locked_def\<close>)
  qed (use resolve in \<open>auto simp: resolve_in_flight_as_aborted_def locked_def intro: inv_memory [OF i]\<close>)
next
  case (resolve_all st fs res sd)
  show ?thesis
  proof (cases "ws_poisoned st")
    case None
    show ?thesis unfolding resolve_all(1)
      by (cases sd, hypsubst, rule inv_memory [OF i resolve_all(2), where v = "ws_vacuum_floor st" and c = "resolve_all_in_progress_as_aborted (ws_clog st)"])
        (use None resolve_all inv_clog_wf [OF i resolve_all(2) None] in
          \<open>auto simp: resolve_all_in_flight_as_aborted_def resolve_all_in_progress_as_aborted_def locked_def\<close>)
  qed (use resolve_all in \<open>auto simp: resolve_all_in_flight_as_aborted_def locked_def intro: inv_memory [OF i]\<close>)
next
  case (vacuum st b fs res sd)
  show ?thesis
  proof (cases "ws_poisoned st")
    case None
    show ?thesis unfolding vacuum(1)
      by (cases sd, hypsubst, rule inv_memory [OF i vacuum(2), where v = "max (ws_vacuum_floor st) b" and c = "ws_clog st"])
        (use None vacuum inv_clog_wf [OF i vacuum(2) None] in \<open>auto simp: set_vacuum_floor_def locked_def\<close>)
  qed (use vacuum in \<open>auto simp: set_vacuum_floor_def locked_def intro: inv_memory [OF i]\<close>)
next
  case (power_loss s)
  then show ?thesis using inv_crash [OF i] by simp
next
  case (reopen fs st d)
  then show ?thesis using inv_reopen(1) [OF i _ json(1)] by simp
next
  case (reopen_fails fs e d)
  then show ?thesis using inv_reopen(2) [OF i _ json(1)] by simp
qed

end
