(* ===== verification/Wal_First.thy ===== *)
theory Wal_First
  imports Wal_System
begin

text \<open>
  The first start in an empty data directory: \<open>open\<close> creates the directory of the log, its metadata and
  its first segment, and leaves a running manager with an empty log.
\<close>

definition empty_store :: store where
  "empty_store = \<lparr>dk_files = (\<lambda>_. empty_file), dk_next = 0, dk_base = [], dk_log = []\<rparr>"

definition synced :: "u8 list \<Rightarrow> file_data" where
  "synced bs = \<lparr>fd_bytes = bs, fd_stable = length bs, fd_peak = length bs\<rparr>"

text \<open>What a first start leaves: the directory entries and the two files.\<close>

definition first_store :: "(u8 list \<Rightarrow> u32) \<Rightarrow> store" where
  "first_store crc = \<lparr>dk_files = (\<lambda>_. empty_file)(1 := synced (encode_meta crc \<lparr>wm_replay_floor = 0, wm_durable_end = 0\<rparr>), 2 := synced (seg_header crc 0)),
     dk_next = 3, dk_base = [(meta_path, 1), (segment_path 0, 2), (wal_dir_path, 0)], dk_log = []\<rparr>"

lemma first_paths [simp]: "wal_dir_path \<noteq> meta_path" "wal_dir_path \<noteq> meta_tmp_path" "wal_dir_path \<noteq> segment_path n"
  "meta_path \<noteq> wal_dir_path" "meta_tmp_path \<noteq> wal_dir_path" "segment_path n \<noteq> wal_dir_path"
  "fst wal_dir_path = DataDir" "fst meta_path = WalDir" "fst meta_tmp_path = WalDir" "meta_path \<noteq> (DataDir, x)" "meta_tmp_path \<noteq> (DataDir, x)" "(DataDir, x) \<noteq> meta_path"
  by (simp_all add: wal_dir_path_def meta_path_def meta_tmp_path_def)

lemma sync_written: "bs \<noteq> [] \<Longrightarrow> sync_file (write_file 0 bs empty_file) = synced bs"
  by (simp add: sync_file_def write_file_def empty_file_def synced_def Let_def)

lemma wp_first_meta:
  fixes crc :: "u8 list \<Rightarrow> u32" and m :: wal_meta
  defines "s1 \<equiv> fresh_entry wal_dir_path empty_store"
  defines "s2 \<equiv> change_dir [(meta_tmp_path, None), (meta_path, Some 1)]
      (set_file 1 (synced (encode_meta crc m)) (fresh_entry meta_tmp_path s1))"
  shows "wp (write_meta crc m) (\<lambda>_ s. s = flush_dir WalDir s2) (\<lambda>_. True) s1"
proof -
  let ?b = "encode_meta crc m"
  have ne: "?b \<noteq> []" using length_encode_meta [of crc m] by (auto simp: META_LEN_def)
  have miss: "lookup s1 meta_tmp_path = None" "dk_next s1 = 1"
    by (simp_all add: s1_def empty_store_def fresh_entry_def change_dir_def set_file_def entries_def apply_changes_def assign_def)
  have "wp (replace_meta crc m) (\<lambda>_ s. s = s2) (\<lambda>_. True) s1"
    unfolding replace_meta_def
    by (intro wp_then wp_create_truncate wp_write_all wp_sync wp_rename)
      (auto simp: miss store_simps s2_def write_at_def sync_written [OF ne])
  then show ?thesis
    unfolding wp_def
  proof (intro allI)
    fix fs
    assume r: "\<forall>fs. case replace_meta crc m \<lparr>dk_store = s1, dk_faults = fs\<rparr> of (Inr x, d) \<Rightarrow> dk_store d = s2 \<and> (nf fs \<longrightarrow> nf (dk_faults d))
      | (Inl e, d) \<Rightarrow> True \<and> \<not> nf fs"
    let ?d = "\<lparr>dk_store = s1, dk_faults = fs\<rparr>"
    obtain q d where q: "replace_meta crc m ?d = (q, d)" by (cases "replace_meta crc m ?d")
    have "wp (sync_dir WalDir) (\<lambda>_ s. s = flush_dir WalDir (dk_store d)) (\<lambda>_. True) (dk_store d)" by (rule wp_sync_dir_named) simp_all
    then show "case write_meta crc m ?d of (Inr x, d) \<Rightarrow> dk_store d = flush_dir WalDir s2 \<and> (nf fs \<longrightarrow> nf (dk_faults d)) | (Inl e, d) \<Rightarrow> True \<and> \<not> nf fs"
      using r [rule_format, of fs] q
      by (cases rule: wp_cases; cases q) (auto simp: write_meta_def write_meta_with_outcome_def)
  qed
qed


lemma wp_initialize_first: "wp (initialize crc) (\<lambda>_ s. s = first_store crc) (\<lambda>_. True) empty_store"
proof -
  let ?m = "\<lparr>wm_replay_floor = 0, wm_durable_end = 0\<rparr>"
  let ?s1 = "fresh_entry wal_dir_path empty_store"
  let ?s2 = "flush_dir WalDir (change_dir [(meta_tmp_path, None), (meta_path, Some 1)]
      (set_file 1 (synced (encode_meta crc ?m)) (fresh_entry meta_tmp_path ?s1)))"
  let ?s3 = "flush_dir WalDir (set_file (dk_next ?s2) (sync_file (write_file 0 (seg_header crc 0) empty_file)) (fresh_entry (segment_path 0) ?s2))"
  have none: "lookup empty_store p = None" for p by (simp add: empty_store_def entries_def apply_changes_def)
  have ne: "seg_header crc 0 \<noteq> []" using length_seg_header [of 0 crc] by (auto simp: u64_limit_def SEGMENT_HEADER_LEN_def)
  have l1: "lookup ?s1 meta_path = None" "lookup ?s1 (segment_path 0) = None" "lookup ?s1 wal_dir_path \<noteq> None" by (simp_all add: store_simps none)
  have l2: "lookup ?s2 (segment_path 0) = None"
    by (simp add: empty_store_def flush_dir_def fresh_entry_def change_dir_def set_file_def entries_def apply_changes_def assign_def in_dir_def)
  have last: "flush_dir DataDir ?s3 = first_store crc"
    by (simp add: sync_written [OF ne] first_store_def empty_store_def flush_dir_def fresh_entry_def change_dir_def set_file_def
        apply_changes_def assign_def in_dir_def fun_upd_def fun_eq_iff)
  have seg: "wp (create_segment crc 0) (\<lambda>_ s. s = ?s3) (\<lambda>_. True) ?s2"
    by (rule wp_create_segment [OF l2]) (simp_all add: u64_limit_def)
  have make: "wp (io_then (create_segment crc 0) (\<lambda>_. io_ok ())) (\<lambda>_ s. s = ?s3) (\<lambda>_. True) ?s2"
    by (rule wp_then, rule wp_conseq [OF seg]) (auto intro: wp_ok)
  have "wp (io_then (write_meta crc ?m) (\<lambda>_. io_then (io_exists (segment_path 0)) (\<lambda>found. if found then io_ok () else io_then (create_segment crc 0) (\<lambda>_. io_ok ()))))
      (\<lambda>_ s. s = ?s3) (\<lambda>_. True) ?s1"
    by (rule wp_then, rule wp_conseq [OF wp_first_meta]) (use l2 make in \<open>auto simp: wp_exists_eq\<close>)
  then have iw: "wp (initialize_without_meta crc False) (\<lambda>_ s. s = ?s3) (\<lambda>_. True) ?s1"
    unfolding initialize_without_meta_def using l1(2) by (simp add: wp_exists_eq)
  have "wp (io_then (initialize_without_meta crc False) (\<lambda>_. sync_dir DataDir)) (\<lambda>_ s. s = first_store crc) (\<lambda>_. True) ?s1"
    by (rule wp_then, rule wp_conseq [OF iw]) (auto intro!: wp_sync_dir_named simp only: last)
  then have "wp (io_then (fs_create_dir (db_io ''failed to create WAL directory '') wal_dir_path) (\<lambda>_.
      io_then (io_exists meta_path) (\<lambda>metadata_exists.
      io_then (if metadata_exists then initialize_with_meta crc False else initialize_without_meta crc False) (\<lambda>_. sync_dir DataDir))))
      (\<lambda>_ s. s = first_store crc) (\<lambda>_. True) empty_store"
    using l1(1) by (rule_tac wp_then, rule_tac wp_create_dir) (simp_all add: none wp_exists_eq)
  then show ?thesis unfolding initialize_def Let_def by (simp add: wp_exists_eq none cong: if_cong)
qed


section \<open>The log a first start leaves\<close>

lemma first_lookup: "lookup (first_store crc) p = (if p = meta_path then Some 1 else if p = segment_path 0 then Some 2 else if p = wal_dir_path then Some 0 else None)"
  by (simp add: first_store_def entries_def apply_changes_def)

lemma first_files: "dk_files (first_store crc) i = (if i = 1 then synced (encode_meta crc \<lparr>wm_replay_floor = 0, wm_durable_end = 0\<rparr>)
    else if i = 2 then synced (seg_header crc 0) else empty_file)" "dk_next (first_store crc) = 3" "dk_log (first_store crc) = []"
  by (auto simp: first_store_def)

lemma first_settled: "settled (first_store crc) p"
  by (simp add: settled_def first_store_def)

lemma first_links: "(p, i) \<in> links (first_store crc) \<longleftrightarrow> lookup (first_store crc) p = Some i"
  by (simp add: links_def first_lookup) (simp add: first_store_def)

lemma first_linksE:
  assumes "(p, i) \<in> links (first_store crc)"
  obtains "p = meta_path" "i = 1" | "p = segment_path 0" "i = 2" | "p = wal_dir_path" "i = 0"
  using assms unfolding first_links first_lookup by (auto split: if_splits)

lemma first_base: "disk_base (first_store crc)"
proof -
  have "store_ok (first_store crc)"
    unfolding store_ok_def
  proof (intro conjI ballI allI)
    show "case a of (p, i) \<Rightarrow> i < dk_next (first_store crc)" if "a \<in> links (first_store crc)" for a
      using that by (cases a) (auto elim!: first_linksE simp: first_files)
  qed (auto simp: first_files empty_file_def synced_def)
  moreover have "sole (first_store crc) p" for p
    unfolding sole_def by (auto elim!: first_linksE)
  moreover have "tidy (first_store crc)"
    by (rule tidyI) (auto elim!: first_linksE simp: u64_limit_def)
  moreover have "((DataDir, ''wal.dat''), i) \<notin> links (first_store crc)" for i
    by (auto elim!: first_linksE simp: wal_dir_path_def)
  ultimately show ?thesis
    by (simp add: disk_base_def grounded_def wal_entry_ok_def first_settled first_lookup wal_dir_path_def)
qed

lemma first_intact: "intact env P [] 0 [] (first_store (le_crc env))"
proof -
  let ?s = "first_store (le_crc env)" and ?x = "at_ctx (le_crc env) 0 0 (first_store (le_crc env))"
  have lens: "length (seg_header (le_crc env) 0) = SEGMENT_HEADER_LEN" by (rule length_seg_header) (simp add: u64_limit_def)
  have "meta_holds (le_crc env) (\<lambda>m. m = \<lparr>wm_replay_floor = 0, wm_durable_end = 0\<rparr>) ?s"
    unfolding meta_holds_def
    by (rule replaceable_settled) (auto simp: first_settled first_lookup first_files synced_def whole_def)
  moreover have "lookup ?s clog_path = None" "lookup ?s clog_tmp_path = None"
    by (simp_all add: first_lookup clog_path_def clog_tmp_path_def wal_dir_path_def)
  then have "replaceable clog_path clog_tmp_path (clog_good env P [] 0 0) ?s"
    by (intro replaceable_settled) (auto simp: first_settled clog_good_def)
  ultimately have "beside env P [] 0 0 ?s" by (simp add: beside_def first_base first_settled)
  moreover have "loose_file ?x 0 [] 0 (dk_files ?s 2)"
    using lens by (simp add: loose_file_def first_files synced_def chunk_def)
  then have "seg ?s n (loose_file ?x 0 [] n)" if "n \<le> last_seg ?x 0" for n
    using that by (auto simp: seg_def first_lookup first_settled last_seg_def)
  then have "loose ?x 0 [] u64_limit ?s"
    using base_ok(2) [OF first_base] by (simp add: loose_def ground_at in_range_def u64_limit_def)
  ultimately show ?thesis by (simp add: intact_def quiet_def first_settled)
qed

lemma wp_first_open:
  assumes json: "json_ok (le_wal env)"
  shows "wp (wal_open env) (\<lambda>st s. opened env P [] st s \<and> ws_written_lsn st = 0 \<and> ws_replay_floor st = 0) (\<lambda>_. True) empty_store"
proof -
  have w: "whole_log env [] 0 []" by (simp add: whole_log_def boundary_def u64_limit_def SEGMENT_PAYLOAD_BYTES_def)
  have none: "lookup empty_store p = None" for p by (simp add: empty_store_def entries_def apply_changes_def)
  let ?Q = "\<lambda>st s. opened env P [] st s \<and> ws_written_lsn st = 0 \<and> ws_replay_floor st = 0"
  have "wp (restore env \<lparr>wm_replay_floor = 0, wm_durable_end = 0\<rparr>) ?Q (\<lambda>_. True) s"
    if "beside env P [] 0 0 s" "quiet s" "live (at_ctx (le_crc env) 0 0 s) 0 [] s" for s
    using wp_restore [OF json w, of P s ?Q "\<lambda>_. True"] that by simp
  then have "wp (io_then (open_segments (le_crc env)) (restore env)) ?Q (\<lambda>_. True) (first_store (le_crc env))"
    by (intro wp_then wp_open_segments [OF w first_intact]) simp_all
  then show ?thesis
    unfolding wal_open_def
    by (simp add: wp_exists_eq none) (rule wp_then, rule wp_conseq [OF wp_initialize_first], auto)
qed

end
