(* ===== verification/Wal_Durability.thy ===== *)
theory Wal_Durability
  imports Wal_First
begin

text \<open>
  What the log promises to its callers, for every run of the manager: a crash of the machine at any
  moment leaves a log that opens and replays every acknowledged record.
\<close>

section \<open>Runs\<close>

definition first_sys :: "wal_state \<Rightarrow> disk \<Rightarrow> 'b log_sys" where
  "first_sys st d = \<lparr>lg_store = dk_store d, lg_manager = Some st, lg_history = [], lg_acked = 0, lg_allowed = 0, lg_stage = No_Checkpoint, lg_late = {}\<rparr>"

inductive log_reachable :: "'b log_env \<Rightarrow> 'b log_sys \<Rightarrow> bool" for env where
  start: "wal_open env \<lparr>dk_store = empty_store, dk_faults = fs\<rparr> = (Inr st, d) \<Longrightarrow> log_reachable env (first_sys st d)"
| step: "log_reachable env y \<Longrightarrow> log_step env y y' \<Longrightarrow> log_reachable env y'"

definition codecs_ok :: "'b log_env \<Rightarrow> bool" where
  "codecs_ok env = (json_ok (le_wal env) \<and> json_faithful (le_clog_to_vec env) (le_clog_from_slice env))"

abbreviation any_snapshot :: "'b wal_record list \<Rightarrow> clog_snapshot \<Rightarrow> bool" where
  "any_snapshot \<equiv> \<lambda>_ _. True"

lemma first_inv:
  assumes json: "json_ok (le_wal env)" and o: "wal_open env \<lparr>dk_store = empty_store, dk_faults = fs\<rparr> = (Inr st, d)"
  shows "log_inv env P (first_sys st d)" "opened env P [] st (dk_store d)"
proof -
  have "wp (wal_open env) (\<lambda>st s. opened env P [] st s \<and> ws_written_lsn st = 0 \<and> ws_replay_floor st = 0) (\<lambda>_. True)
      (dk_store \<lparr>dk_store = empty_store, dk_faults = fs\<rparr>)" using wp_first_open [OF json] by simp
  then have "opened env P [] st (dk_store d) \<and> ws_replay_floor st = 0"
    by (cases rule: wp_cases) (use o in auto)
  then show "opened env P [] st (dk_store d)" "log_inv env P (first_sys st d)"
    by (auto simp: log_inv_def up_ok_def first_sys_def opened_def running_def stage_ok_def)
qed

lemma reachable_inv:
  assumes "log_reachable env y" "codecs_ok env"
  shows "log_inv env any_snapshot y"
  using assms(1)
proof induction
  case (start fs st d)
  then show ?case using first_inv(1) assms(2) by (auto simp: codecs_ok_def)
next
  case (step y y')
  then show ?case using log_inv_step [OF step.hyps(2) step.IH] assms(2) by (simp add: codecs_ok_def)
qed

lemma reachable_run:
  assumes "log_reachable env y" "(log_step env)\<^sup>*\<^sup>* y y'"
  shows "log_reachable env y'"
  using assms(2,1) by (induction rule: rtranclp_induct) (auto intro: log_reachable.step)

section \<open>The history only grows past what was acknowledged\<close>

lemma log_upto_extend: "e < unat (wr_lsn r) \<Longrightarrow> log_upto e (rs @ [r]) = log_upto e rs"
  unfolding log_upto_def by (induction rs) auto

lemma append_lsn:
  assumes i: "log_inv env P y" "lg_manager y = Some st" and wf: "kind_wf (wr_kind r)" and room: "append_room env r st"
    and ap: "append_positioned env r st (disk_of y fs) = (Inr p, sd)"
  shows "lg_acked y < wp_record_lsn p" "wp_record_lsn p < u64_limit" "ws_written_lsn st \<le> wp_replay_from p"
proof -
  have None: "ws_poisoned st = None"
  proof (rule ccontr)
    assume "ws_poisoned st \<noteq> None"
    from append_poisoned [OF this, of env r "disk_of y fs" "Inr p" "fst sd" "snd sd"] ap show False by simp
  qed
  obtain L where u: "run_ok env P (lg_history y) L st (lg_store y)" "lg_acked y \<le> ws_flushed_lsn st" "ws_replay_floor st \<le> lg_allowed y"
    "stage_ok env P (lg_history y) st (lg_store y) (lg_stage y)"
    by (rule inv_up [OF i None])
  note rd = run_okD [OF u(1)]
  have "run_ok env P (lg_history y) L st (dk_store (disk_of y fs))" using u(1) by simp
  note out = append_ok [where pend = "awaited (lg_stage y)" and c = "lg_allowed y", OF this None wf room u(3) stage_awaited [OF u(4)], unfolded ap]
  obtain bs r' st' d' where o: "p = \<lparr>wp_replay_from = length L, wp_record_lsn = length (L @ bs)\<rparr>" "bs \<noteq> []" "run_ok env P (lg_history y @ [r']) (L @ bs) st' d'"
    using out by (cases sd) auto
  have "lg_acked y \<le> length L" using u(2) rd(5) by simp
  then show "lg_acked y < wp_record_lsn p" using o(1,2) by (cases bs) auto
  show "wp_record_lsn p < u64_limit" "ws_written_lsn st \<le> wp_replay_from p" using o(1) rd(6) run_okD(7) [OF o(3)] by auto
qed

lemma step_keeps_acked:
  assumes step: "log_step env y y'" and i: "log_inv env P y" and json: "json_ok (le_wal env)"
  shows "lg_acked y \<le> lg_acked y' \<and> lg_allowed y \<le> lg_allowed y' \<and> log_upto (lg_acked y) (lg_history y') = log_upto (lg_acked y) (lg_history y)"
  using step
proof cases
  case (append st r fs res sd)
  have "log_upto (lg_acked y) (lg_history y @ placed r res) = log_upto (lg_acked y) (lg_history y)"
  proof (cases res)
    case (Inr p)
    note l = append_lsn [OF i append(2-4) append(5) [unfolded Inr]]
    have "unat (of_nat (wp_record_lsn p) :: u64) = wp_record_lsn p" using l(2) by (rule unat_of_nat_u64)
    then show ?thesis using l(1) by (simp add: Inr placed_def log_upto_extend)
  qed (simp add: placed_def)
  then show ?thesis using append(1) by (cases sd) simp
next
  case (reopen fs st d)
  have d: "down_ok env P y" using i reopen(2) by (simp add: log_inv_def)
  have "wp (wal_open env) (\<lambda>st s. opened env P (log_upto (ws_written_lsn st) (lg_history y)) st s \<and> boundary (lg_history y) (ws_written_lsn st)
      \<and> lg_acked y \<le> ws_written_lsn st \<and> ws_replay_floor st \<le> lg_allowed y)
    (\<lambda>s. down_ok env P (y\<lparr>lg_store := s\<rparr>)) (dk_store (disk_of y fs))" using wp_reopen [OF d json] by simp
  then have "lg_acked y \<le> ws_written_lsn st" by (cases rule: wp_cases) (use reopen(3) in auto)
  then show ?thesis using reopen(1) by (simp add: upto_upto)
qed (auto simp: after_def split: sum.splits)

lemma run_keeps_acked:
  assumes "(log_step env)\<^sup>*\<^sup>* y y'" "log_reachable env y" "codecs_ok env"
  shows "lg_acked y \<le> lg_acked y' \<and> lg_allowed y \<le> lg_allowed y' \<and> log_upto (lg_acked y) (lg_history y') = log_upto (lg_acked y) (lg_history y)"
  using assms(1)
proof (induction rule: rtranclp_induct)
  case (step y1 y2)
  have "log_inv env any_snapshot y1" using reachable_inv [OF reachable_run [OF assms(2) step.hyps(1)] assms(3)] .
  from step_keeps_acked [OF step.hyps(2) this] assms(3) step.IH show ?case
    by (metis codecs_ok_def order_trans upto_upto)
qed simp


section \<open>Recovery\<close>

lemma entries_after:
  assumes "framed env p rs L" "p \<le> e" "e = p \<or> (\<exists>r \<in> set rs. unat (wr_lsn r) = e)"
  shows "filter (\<lambda>x. e \<le> en_replay_from x) (entries_from p rs) = entries_from e (log_after e rs)"
  using assms
proof (induction rs arbitrary: p L)
  case Nil
  then show ?case by (simp add: log_after_def)
next
  case (Cons r rs)
  from Cons.prems(1) obtain b L' where b: "encode_record env r = Inr b" "unat (wr_lsn r) = p + length b" "framed env (p + length b) rs L'" by auto
  have pos: "0 < length b" using encode_record_nonempty [OF b(1)] by simp
  show ?case
  proof (cases "e = p")
    case True
    have "e \<le> en_replay_from x" if "x \<in> set (entries_from q rs')" "framed env q rs' M" "e \<le> q" for x q rs' M
      using that by (induction rs' arbitrary: q M) (auto dest: le_trans [OF _ le_add1])
    then have "filter (\<lambda>x. e \<le> en_replay_from x) (entries_from p (r # rs)) = entries_from p (r # rs)"
      using Cons.prems(1) True by (intro filter_True) blast
    then show ?thesis using True b(2) pos by (simp add: log_after_def)
  next
    case False
    then obtain r' where r': "r' \<in> set (r # rs)" "unat (wr_lsn r') = e" using Cons.prems(3) by blast
    then have ge: "p + length b \<le> e" using b(2) framed_lsn [OF b(3), of r'] by auto
    have "e = p + length b \<or> (\<exists>r \<in> set rs. unat (wr_lsn r) = e)" using r' b(2) by auto
    from Cons.IH [OF b(3) ge this] show ?thesis using False Cons.prems(2) b(2) ge by (simp add: log_after_def)
  qed
qed

definition replayed :: "nat \<Rightarrow> nat \<Rightarrow> 'b wal_record list \<Rightarrow> 'b wal_entry result list" where
  "replayed from_lsn end_lsn rs = map Inr (filter (\<lambda>e. from_lsn \<le> en_replay_from e) (entries_from 0 (log_upto end_lsn rs)))"

lemma down_recovers:
  assumes d: "down_ok env P y" and json: "json_ok (le_wal env)"
  shows "\<exists>st d d'. wal_open env (disk_of y []) = (Inr st, d) \<and> opened env P (log_upto (ws_written_lsn st) (lg_history y)) st (dk_store d)
    \<and> lg_acked y \<le> ws_written_lsn st \<and> ws_replay_floor st \<le> lg_allowed y
    \<and> replay_entries_from env 0 st d = (Inr (replayed (ws_replay_floor st) (ws_written_lsn st) (lg_history y)), st, d')"
proof -
  let ?h = "\<lambda>st. log_upto (ws_written_lsn st) (lg_history y)"
  have "wp (wal_open env) (\<lambda>st s. opened env P (?h st) st s \<and> boundary (lg_history y) (ws_written_lsn st)
      \<and> lg_acked y \<le> ws_written_lsn st \<and> ws_replay_floor st \<le> lg_allowed y)
    (\<lambda>s. down_ok env P (y\<lparr>lg_store := s\<rparr>)) (dk_store (disk_of y []))" using wp_reopen [OF d json] by simp
  then show ?thesis
  proof (cases rule: wp_cases)
    case (ok st d)
    then obtain L where r: "run_ok env P (?h st) L st (dk_store d)" and st: "ws_poisoned st = None"
      by (auto simp: opened_def running_def)
    have nf: "nf (dk_faults d)" using ok(3) by (simp add: nf_def)
    note rd = run_okD [OF r]
    have eq: "filter (\<lambda>x. ws_replay_floor st \<le> en_replay_from x) (entries_from 0 (?h st)) = entries_from (ws_replay_floor st) (log_after (ws_replay_floor st) (?h st))"
      using rd(3) by (intro entries_after [OF rd(1)]) (auto simp: boundary_def)
    then have "filter (\<lambda>x. max 0 (ws_replay_floor st) \<le> en_replay_from x) (entries_from (ws_replay_floor st) (log_after (ws_replay_floor st) (?h st)))
        = filter (\<lambda>x. ws_replay_floor st \<le> en_replay_from x) (entries_from 0 (?h st))"
      by (simp flip: eq)
    then obtain d' where "replay_entries_from env 0 st d = (Inr (replayed (ws_replay_floor st) (ws_written_lsn st) (lg_history y)), st, d')"
      using run_replay [OF r json st, of 0] nf by (auto simp: replayed_def)
    then show ?thesis using ok by blast
  qed (simp add: nf_def)
qed

lemma crash_recovers:
  assumes i: "log_inv env P y" and json: "json_ok (le_wal env)" and cr: "crash (lg_store y) s"
  shows "\<exists>st d d'. wal_open env \<lparr>dk_store = s, dk_faults = []\<rparr> = (Inr st, d) \<and> opened env P (log_upto (ws_written_lsn st) (lg_history y)) st (dk_store d)
    \<and> lg_acked y \<le> ws_written_lsn st \<and> ws_replay_floor st \<le> lg_allowed y
    \<and> replay_entries_from env 0 st d = (Inr (replayed (ws_replay_floor st) (ws_written_lsn st) (lg_history y)), st, d')"
proof -
  have "down_ok env P (y\<lparr>lg_store := s, lg_manager := None, lg_stage := No_Checkpoint\<rparr>)"
    using inv_crash [OF i cr] by (simp add: log_inv_def)
  from down_recovers [OF this json] show ?thesis by (simp add: disk_of_def)
qed



section \<open>A run for the examples\<close>

definition toy_log_env :: "unit log_env" where
  "toy_log_env = \<lparr>le_wal = toy_wal_env, le_clog_to_vec = (\<lambda>_. None), le_clog_from_slice = (\<lambda>_. None)\<rparr>"

lemma toy_codecs: "codecs_ok toy_log_env"
  using toy_json_ok by (simp add: codecs_ok_def toy_log_env_def json_faithful_def)

lemma crash_exists:
  assumes "store_ok s"
  shows "\<exists>s'. crash s s'"
proof -
  let ?b = "apply_changes (dk_log s) (dk_base s)"
  let ?s = "\<lparr>dk_files = (\<lambda>i. synced (bytes_of s i)), dk_next = dk_next s,
    dk_base = hm_retain (\<lambda>p i. fst p = DataDir \<or> map_of ?b (DataDir, ''wal'') \<noteq> None) ?b, dk_log = []\<rparr>"
  have "crash s ?s"
    using assms unfolding crash_def file_after_crash_def
    by (intro conjI allI exI [of _ "dk_log s"]) (auto simp: synced_def Let_def store_ok_def)
  then show ?thesis by blast
qed

text \<open>Appending a record and flushing it, with a file system that works.\<close>

lemma append_flush_run:
  assumes i: "log_inv env P y" "lg_manager y = Some st" "ws_poisoned st = None" and wf: "kind_wf (wr_kind r)" and room: "append_room env r st"
    and enc: "encode_record_at (le_wal env) r (of_nat (ws_written_lsn st)) = Inr (r', bs)"
    and bp: "\<not> must_backpressure_new_writer (ws_clog st) (wr_txn_id r)" and nf: "nf fs"
  shows "\<exists>p st1 d1 n st2 d2. append_positioned env r st (disk_of y fs) = (Inr p, st1, d1) \<and> wp_replay_from p = ws_written_lsn st
    \<and> wp_record_lsn p = unat (wr_lsn r') \<and> ws_written_lsn st < wp_record_lsn p
    \<and> flush env st1 d1 = (Inr n, st2, d2) \<and> n = wp_record_lsn p \<and> nf (dk_faults d1) \<and> ws_poisoned st2 = None"
proof -
  obtain L where u: "run_ok env P (lg_history y) L st (lg_store y)" "ws_replay_floor st \<le> lg_allowed y"
    "stage_ok env P (lg_history y) st (lg_store y) (lg_stage y)"
    by (rule inv_up [OF i])
  have r: "run_ok env P (lg_history y) L st (dk_store (disk_of y fs))" using u(1) by simp
  note w = run_okD(6) [OF u(1)]
  obtain res st1 d1 where ap: "append_positioned env r st (disk_of y fs) = (res, st1, d1)" by (rule prod_cases3)
  note out = append_ok [where pend = "awaited (lg_stage y)" and c = "lg_allowed y", OF r i(3) wf room u(2) stage_awaited [OF u(3)], unfolded ap]
  obtain p where p: "res = Inr p" using out nf bp enc w by (cases res) auto
  obtain h n where o: "p = \<lparr>wp_replay_from = length L, wp_record_lsn = length (L @ bs)\<rparr>" "unat (wr_lsn r') = length (L @ bs)" "bs \<noteq> []"
      "st1 = appended_state h n (staged_commits r') (length (L @ bs)) (st\<lparr>ws_clog := mark_writer r (ws_clog st)\<rparr>)"
      "run_ok env P (lg_history y @ [r']) (L @ bs) st1 (dk_store d1)" "nf (dk_faults d1)"
    using out p nf enc w by auto
  have st1: "ws_poisoned st1 = None" using i(3) by (simp add: o(4) appended_state_def)
  have c1: "ws_replay_floor st1 \<le> ws_replay_floor st1" by simp
  note fl = flush_ok [where pend = None, OF o(5) st1 c1]
  obtain res2 st2 d2 where f: "flush env st1 d1 = (res2, st2, d2)" by (rule prod_cases3)
  show ?thesis
    using ap p o(1-3,6) w fl [unfolded f] f st1 by (cases res2) (auto simp: flushed_state_def)
qed




section \<open>Examples\<close>

text \<open>A first start, then one commit appended and flushed.\<close>

lemma first_clog:
  assumes "json_ok (le_wal env)" "wal_open env \<lparr>dk_store = empty_store, dk_faults = fs\<rparr> = (Inr st, d)"
  shows "ws_clog st = clog_new" "ws_written_lsn st = 0" "ws_poisoned st = None"
proof -
  have o: "opened env (\<lambda>_ _. False) [] st (dk_store d)" by (rule first_inv(2) [OF assms])
  then show "ws_clog st = clog_new" by (auto simp: opened_def recovered_def fits_def split: option.splits)
  show "ws_poisoned st = None" using o by (simp add: opened_def running_def)
  obtain L where "run_ok env (\<lambda>_ _. False) [] L st (dk_store d)" using o by (auto simp: opened_def running_def)
  from run_okD(1,6) [OF this] show "ws_written_lsn st = 0" by simp
qed

lemma toy_start: "\<exists>st d. wal_open toy_log_env \<lparr>dk_store = empty_store, dk_faults = []\<rparr> = (Inr st, d)"
proof -
  have "wp (wal_open toy_log_env) (\<lambda>st s. opened toy_log_env any_snapshot [] st s \<and> ws_written_lsn st = 0 \<and> ws_replay_floor st = 0) (\<lambda>_. True)
      (dk_store \<lparr>dk_store = empty_store, dk_faults = []\<rparr>)"
    using wp_first_open [of toy_log_env any_snapshot] toy_codecs by (simp add: codecs_ok_def)
  then show ?thesis by (cases rule: wp_cases) (auto simp: nf_def)
qed

definition toy_request :: "unit wal_record" where
  "toy_request = \<lparr>wr_lsn = 0, wr_txn_id = 5, wr_kind = Commit\<rparr>"

lemma toy_request_encodes: "encode_record_at (le_wal toy_log_env) toy_request 0 = Inr (toy_commit, toy_commit_frame)"
  by (simp add: toy_log_env_def encode_record_at_def encode_record_def encode_json_payload_def toy_wal_env_def toy_commit_def toy_request_def
      toy_commit_frame_def wal_codec_consts USIZE_MAX_def toy_bytes)

lemma toy_conditions:
  assumes "wal_open toy_log_env \<lparr>dk_store = empty_store, dk_faults = []\<rparr> = (Inr st, d)"
  shows "lg_manager (first_sys st d :: unit log_sys) = Some st" "ws_poisoned st = None" "kind_wf (wr_kind toy_request)" "append_room toy_log_env toy_request st"
    "encode_record_at (le_wal toy_log_env) toy_request (of_nat (ws_written_lsn st)) = Inr (toy_commit, toy_commit_frame)"
    "\<not> must_backpressure_new_writer (ws_clog st) (wr_txn_id toy_request)"
proof -
  have f: "ws_clog st = clog_new" "ws_written_lsn st = 0" "ws_poisoned st = None" using first_clog [OF _ assms] toy_codecs by (auto simp: codecs_ok_def)
  then show enc: "encode_record_at (le_wal toy_log_env) toy_request (of_nat (ws_written_lsn st)) = Inr (toy_commit, toy_commit_frame)"
    using toy_request_encodes by simp
  show "append_room toy_log_env toy_request st"
    unfolding append_room_def enc by (simp add: toy_commit_def u64_limit_def SEGMENT_PAYLOAD_BYTES_def)
  show "\<not> must_backpressure_new_writer (ws_clog st) (wr_txn_id toy_request)"
    by (simp add: f must_backpressure_new_writer_def clog_new_def status_pressure_blocks_new_writer_def CLOG_MAINTENANCE_STATUS_COUNT_def)
qed (simp_all add: first_sys_def toy_request_def first_clog(3) [OF _ assms] toy_codecs [unfolded codecs_ok_def])


text \<open>The state after the flush.\<close>

lemma toy_run:
  "\<exists>y st. log_reachable toy_log_env y \<and> lg_history y = [toy_commit] \<and> lg_acked y = 27 \<and> lg_allowed y = 0 \<and> lg_late y = {} \<and> lg_manager y = Some st
    \<and> ws_poisoned st = None \<and> store_ok (lg_store y)"
proof -
  obtain st d where o: "wal_open toy_log_env \<lparr>dk_store = empty_store, dk_faults = []\<rparr> = (Inr st, d)" using toy_start by blast
  let ?y = "first_sys st d :: unit log_sys"
  have r: "log_reachable toy_log_env ?y" using o by (rule log_reachable.start)
  note c = toy_conditions [OF o]
  obtain p st1 d1 n st2 d2 where a': "append_positioned toy_log_env toy_request st (disk_of ?y []) = (Inr p, st1, d1)"
    "wp_record_lsn p = unat (wr_lsn toy_commit)" "flush toy_log_env st1 d1 = (Inr n, st2, d2)" "n = wp_record_lsn p" "ws_poisoned st2 = None"
    using append_flush_run [OF reachable_inv [OF r toy_codecs] c, of "[]"] by (auto simp: nf_def)
  have n: "n = 27" "wp_record_lsn p = 27" using a'(2,4) by (simp_all add: toy_commit_def)
  note a = a'(1) n(2) a'(3) [unfolded n(1)] a'(5)
  let ?y1 = "(after (st1, d1) ?y)\<lparr>lg_history := lg_history ?y @ placed toy_request (Inr p), lg_late := late_after toy_request ?y\<rparr>"
  have r1: "log_reachable toy_log_env ?y1" by (rule log_reachable.step [OF r log_step.append [OF c(1,3,4) a(1)]])
  have "disk_of ?y1 (dk_faults d1) = d1" by (simp add: disk_of_def)
  then have "flush toy_log_env st1 (disk_of ?y1 (dk_faults d1)) = (Inr 27, st2, d2)" using a(3) by (simp only:)
  from log_step.flush [OF _ this] have "log_step toy_log_env ?y1 ((after (st2, d2) ?y1)\<lparr>lg_acked := 27\<rparr>)"
    by (simp add: first_sys_def)
  then have r2: "log_reachable toy_log_env ((after (st2, d2) ?y1)\<lparr>lg_acked := 27\<rparr>)" by (rule log_reachable.step [OF r1])
  have "store_ok (dk_store d2)"
    using reachable_inv [OF r2 toy_codecs] a(4) run_okD(9) beside_ok by (fastforce simp: log_inv_def up_ok_def)
  then show ?thesis
    using r2 a(2,4) by (intro exI [of _ "(after (st2, d2) ?y1)\<lparr>lg_acked := 27\<rparr>"] exI [of _ st2])
      (simp add: first_sys_def placed_def toy_request_def toy_commit_def late_after_def commit_placed_def)
qed



end
