(* ===== verification/Spec2Isabelle.thy ===== *)
theory Spec2Isabelle
  imports Clog_File Sql_State Txn_System Lock_Rollback Ssi_Props Wal_Durability
begin

text \<open>
  SaguaroDB: a verification development of the transactional core of the database server
  (the Rust workspace under crates/).

  Theories, bottom up.

  \<^item> \<open>Prelude\<close>: machine integers, the error type, the standard collections and little-endian
    byte strings.
  \<^item> \<open>Mvcc\<close>: tuple visibility, conflict classification and reclaimability
    (crates/common/src/mvcc).
  \<^item> \<open>Clog\<close>: the transaction-status map and its checkpoint snapshots (crates/wal/src/clog.rs).
\<close>

end
